(* ===== verification/Strix_Prelude.thy ===== *)
theory Strix_Prelude
  imports Main "HOL-Library.Word" "HOL-Library.AList"
begin

text \<open>
  Shared vocabulary of the development: the Go scalar types the components use,
  the shape of fallible results, and generic facts on words, lists and options.
  \<^item> \<open>byte\<close>, \<open>u64\<close> are Go's \<^verbatim>\<open>byte\<close> and \<^verbatim>\<open>uint64\<close>, kept at their width;
  \<^item> \<open>gotime\<close> is an instant of \<^verbatim>\<open>time.Time\<close>, in nanoseconds since Go's zero time, so
    that \<open>0\<close> is the instant \<^verbatim>\<open>time.Time{}\<close> for which \<^verbatim>\<open>IsZero\<close> holds;
  \<^item> \<open>duration\<close> is \<^verbatim>\<open>time.Duration\<close> in nanoseconds;
  \<^item> Go strings and byte slices that are only compared are HOL strings.
\<close>

type_synonym byte = "8 word"
type_synonym u64 = "64 word"
type_synonym gotime = int
type_synonym duration = int

abbreviation (input) max_u64 :: u64 where
  "max_u64 \<equiv> - 1"

abbreviation (input) second :: duration where
  "second \<equiv> 1000000000"

text \<open>
  A Go slice: nil, or a backing array from the slice's first element up to its
  capacity together with the slice's length. \<open>lst\<close> is what a \<^verbatim>\<open>range\<close> loop over the slice
  sees, \<open>lit\<close> a composite literal, whose capacity is its length.
\<close>

datatype 'a gslice = NilSlice | Slice "'a list" nat

fun lst :: "'a gslice \<Rightarrow> 'a list" where
  "lst NilSlice = []"
| "lst (Slice xs n) = take n xs"

fun cap_list :: "'a gslice \<Rightarrow> 'a list" where
  "cap_list NilSlice = []"
| "cap_list (Slice xs n) = xs"

definition lit :: "'a list \<Rightarrow> 'a gslice" where
  "lit xs = Slice xs (length xs)"

text \<open>
  \<^verbatim>\<open>strings.ToLower\<close> on ASCII letters: letters outside ASCII are left as they are.
  \<^verbatim>\<open>strings.TrimSpace\<close> removes the white space of Unicode in its UTF-8 encoding, at both ends.
\<close>

definition is_upper :: "char \<Rightarrow> bool" where
  "is_upper c \<longleftrightarrow> (let n = of_char c :: nat in 65 \<le> n \<and> n \<le> 90)"

definition lower_char :: "char \<Rightarrow> char" where
  "lower_char c = (if is_upper c then char_of (of_char c + 32 :: nat) else c)"

definition ToLower :: "string \<Rightarrow> string" where
  "ToLower s = map lower_char s"

definition space_runes :: "string list" where
  "space_runes =
     map (\<lambda>n. [char_of n]) [9, 10, 11, 12, 13, 32 :: nat] @
     [[CHR 0xC2, CHR 0x85], [CHR 0xC2, CHR 0xA0], [CHR 0xE1, CHR 0x9A, CHR 0x80], [CHR 0xE2, CHR 0x80, CHR 0xA8],
      [CHR 0xE2, CHR 0x80, CHR 0xA9], [CHR 0xE2, CHR 0x80, CHR 0xAF], [CHR 0xE2, CHR 0x81, CHR 0x9F], [CHR 0xE3, CHR 0x80, CHR 0x80]] @
     map (\<lambda>n. [CHR 0xE2, CHR 0x80, char_of (128 + n)]) [0, 1, 2, 3, 4, 5, 6, 7, 8, 9, 10 :: nat]"

function trim_runes :: "string list \<Rightarrow> string \<Rightarrow> string" where
  "trim_runes qs s =
     (case find (\<lambda>q. q \<noteq> [] \<and> take (length q) s = q) qs of
        None \<Rightarrow> s
      | Some q \<Rightarrow> trim_runes qs (drop (length q) s))"
  by pat_completeness auto

termination
proof (relation "measure (\<lambda>(qs, s). length s)")
  fix qs s and q :: string
  assume "find (\<lambda>q. q \<noteq> [] \<and> take (length q) s = q) qs = Some q"
  then have "q \<noteq> []" "take (length q) s = q"
    by (auto simp: find_Some_iff)
  then show "((qs, drop (length q) s), (qs, s)) \<in> measure (\<lambda>(qs, s). length s)"
    by (cases s) auto
qed simp

declare trim_runes.simps [simp del]

definition TrimSpace :: "string \<Rightarrow> string" where
  "TrimSpace s = rev (trim_runes (map rev space_runes) (rev (trim_runes space_runes s)))"

text \<open>
  \<^verbatim>\<open>strconv.Itoa\<close>, \<^verbatim>\<open>strconv.FormatUint\<close> and the digits they write. \<open>radix_val\<close> reads
  a numeral back.
\<close>

definition digit_char :: "nat \<Rightarrow> char" where
  "digit_char d = char_of (if d < 10 then 48 + d else 87 + d)"

definition digit_val :: "char \<Rightarrow> nat option" where
  "digit_val c =
     (let n = of_char c :: nat
      in if 48 \<le> n \<and> n \<le> 57 then Some (n - 48)
         else if 97 \<le> n \<and> n \<le> 102 then Some (n - 87)
         else if 65 \<le> n \<and> n \<le> 70 then Some (n - 55)
         else None)"

fun nat_radix :: "nat \<Rightarrow> nat \<Rightarrow> string" where
  "nat_radix b n =
     (if n < b \<or> b < 2 then [digit_char n] else nat_radix b (n div b) @ [digit_char (n mod b)])"

declare nat_radix.simps [simp del]

definition radix_val :: "nat \<Rightarrow> string \<Rightarrow> nat" where
  "radix_val b s = foldl (\<lambda>a c. a * b + the (digit_val c)) 0 s"

definition nat_dec :: "nat \<Rightarrow> string" where
  "nat_dec n = nat_radix 10 n"

definition Itoa :: "int \<Rightarrow> string" where
  "Itoa i = (if i < 0 then CHR ''-'' # nat_dec (nat (- i)) else nat_dec (nat i))"

definition FormatHex :: "u64 \<Rightarrow> string" where
  "FormatHex w = nat_radix 16 (unat w)"

text \<open>Index of the last occurrence, as \<^verbatim>\<open>strings.LastIndexByte\<close>; \<open>None\<close> for -1.\<close>

fun last_index :: "('a \<Rightarrow> bool) \<Rightarrow> 'a list \<Rightarrow> nat option" where
  "last_index P [] = None"
| "last_index P (x # xs) =
     (case last_index P xs of Some i \<Rightarrow> Some (i + 1) | None \<Rightarrow> if P x then Some 0 else None)"

named_theorems step_inv \<open>every operation keeps its component's invariant\<close>
named_theorems abs_simps \<open>operations seen through an abstraction function\<close>

section \<open>Words read as naturals\<close>

lemma unat_max_u64 [simp]: "unat (max_u64) = 2 ^ 64 - 1"
  by (simp add: unsigned_minus_1_eq_mask mask_eq_exp_minus_1)

lemma u64_bound [simp]: "unat (x :: u64) < 2 ^ 64"
  using unsigned_less [of x, where ?'a = nat] by simp

lemma unat_plus_u64:
  "unat (a :: u64) + unat b < 2 ^ 64 \<Longrightarrow> unat (a + b) = unat a + unat b"
  by (simp add: unat_word_ariths)

lemma unat_minus_u64:
  "b \<le> a \<Longrightarrow> unat (a - b :: u64) = unat a - unat b"
  by (rule unat_sub)

lemma unat_of_nat_u64: "n < 2 ^ 64 \<Longrightarrow> unat (of_nat n :: u64) = n"
  by (simp add: unat_of_nat take_bit_eq_mod)

lemma word_neq_0_unat: "(x :: u64) \<noteq> 0 \<longleftrightarrow> 0 < unat x"
  by (simp add: unat_gt_0)

section \<open>Text\<close>

lemma lst_lit [simp]: "lst (lit xs) = xs"
  by (simp add: lit_def)

lemma lower_char_idem [simp]: "lower_char (lower_char c) = lower_char c"
proof (cases "is_upper c")
  case True
  then have "of_char c + 32 < (256 :: nat)"
    by (auto simp: is_upper_def Let_def)
  then have "of_char (lower_char c) = (of_char c + 32 :: nat)"
    using True by (simp add: lower_char_def)
  then have "\<not> is_upper (lower_char c)"
    using True by (auto simp: is_upper_def Let_def)
  then show ?thesis
    by (simp add: lower_char_def [of "lower_char c"])
qed (simp add: lower_char_def)

lemma ToLower_idem [simp]: "ToLower (ToLower s) = ToLower s"
  by (simp add: ToLower_def)

lemma length_ToLower [simp]: "length (ToLower s) = length s"
  by (simp add: ToLower_def)

lemma ToLower_eq_Nil: "ToLower s = [] \<longleftrightarrow> s = []"
  by (simp add: ToLower_def)

lemma trim_runes_None: "find (\<lambda>q. q \<noteq> [] \<and> take (length q) s = q) qs = None \<Longrightarrow> trim_runes qs s = s"
  and trim_runes_Some: "find (\<lambda>q. q \<noteq> [] \<and> take (length q) s = q) qs = Some q \<Longrightarrow> trim_runes qs s = trim_runes qs (drop (length q) s)"
  by (subst trim_runes.simps, simp)+

lemma trim_runes_suffix: "\<exists>p. s = p @ trim_runes qs s"
proof (induction qs s rule: trim_runes.induct)
  case (1 qs s)
  show ?case
  proof (cases "find (\<lambda>q. q \<noteq> [] \<and> take (length q) s = q) qs")
    case None
    then show ?thesis
      using trim_runes_None [OF None] by simp
  next
    case (Some q)
    then obtain p where "drop (length q) s = p @ trim_runes qs (drop (length q) s)"
      using 1 by blast
    then have "s = (take (length q) s @ p) @ trim_runes qs (drop (length q) s)"
      by (metis append.assoc append_take_drop_id)
    then show ?thesis
      unfolding trim_runes_Some [OF Some] by blast
  qed
qed

lemma TrimSpace_sub: "\<exists>p q. s = p @ TrimSpace s @ q"
proof -
  obtain p where p: "s = p @ trim_runes space_runes s"
    using trim_runes_suffix by blast
  obtain q where "rev (trim_runes space_runes s) = q @ rev (TrimSpace s)"
    using trim_runes_suffix [of "rev (trim_runes space_runes s)" "map rev space_runes"] by (auto simp: TrimSpace_def)
  then have "trim_runes space_runes s = TrimSpace s @ rev q"
    by (metis rev_append rev_rev_ident)
  then show ?thesis
    using p by metis
qed

lemma length_TrimSpace: "length (TrimSpace s) \<le> length s"
  using TrimSpace_sub [of s] by (metis le_add1 le_add2 le_trans length_append)

lemma set_TrimSpace: "set (TrimSpace s) \<subseteq> set s"
  using TrimSpace_sub [of s] by (metis Un_upper1 Un_upper2 order_trans set_append)

lemma trim_runes_id:
  assumes "\<And>q. q \<in> set qs \<Longrightarrow> q \<noteq> [] \<Longrightarrow> take (length q) s = q \<Longrightarrow> False"
  shows "trim_runes qs s = s"
proof -
  have "find (\<lambda>q. q \<noteq> [] \<and> take (length q) s = q) qs = None"
    using assms by (auto simp: find_None_iff)
  then show ?thesis
    by (rule trim_runes_None)
qed

text \<open>Printable ASCII without blanks is left alone.\<close>

definition visible :: "char \<Rightarrow> bool" where
  "visible c \<longleftrightarrow> 33 \<le> (of_char c :: nat) \<and> of_char c < (128 :: nat)"

lemma space_runes_ends: "q \<in> set space_runes \<Longrightarrow> q \<noteq> [] \<and> \<not> visible (hd q) \<and> \<not> visible (last q)"
  by (auto simp: space_runes_def visible_def)

lemma TrimSpace_visible [simp]: "list_all visible s \<Longrightarrow> TrimSpace s = s"
proof -
  assume vis: "list_all visible s"
  have hd: "visible (hd q)" if "take (length q) t = q" "q \<noteq> []" "set t \<subseteq> set s" for q t
  proof -
    have "hd q \<in> set t"
      using that by (metis hd_in_set in_set_takeD)
    then show ?thesis
      using vis that(3) by (auto simp: list_all_iff)
  qed
  have "trim_runes space_runes s = s"
    by (rule trim_runes_id) (use hd [of _ s] space_runes_ends in blast)
  moreover have "trim_runes (map rev space_runes) (rev s) = rev s"
  proof (rule trim_runes_id)
    fix q
    assume q: "q \<in> set (map rev space_runes)" "q \<noteq> []" "take (length q) (rev s) = q"
    then have "visible (hd q)"
      by (intro hd [of _ "rev s"]) simp_all
    then show False
      using q(1) space_runes_ends [of "rev q"] q(2) by (auto simp: hd_rev)
  qed
  ultimately show ?thesis
    by (simp add: TrimSpace_def)
qed

lemma trim_runes_last: "trim_runes qs t = [] \<Longrightarrow> t \<noteq> [] \<Longrightarrow> \<exists>q \<in> set qs. q \<noteq> [] \<and> last q = last t"
proof (induction qs t rule: trim_runes.induct)
  case (1 qs t)
  show ?case
  proof (cases "find (\<lambda>q. q \<noteq> [] \<and> take (length q) t = q) qs")
    case None
    then show ?thesis
      using 1 trim_runes_None [OF None] by simp
  next
    case (Some q)
    then have q: "q \<in> set qs" "q \<noteq> []" "take (length q) t = q"
      by (auto simp: find_Some_iff)
    show ?thesis
    proof (cases "drop (length q) t = []")
      case True
      then have "t = q"
        using q(3) by simp
      then show ?thesis
        using q by blast
    next
      case False
      then show ?thesis
        using 1(1) [OF Some] 1(2) trim_runes_Some [OF Some] by (simp add: last_drop)
    qed
  qed
qed

lemma TrimSpace_nonempty: "visible c \<Longrightarrow> TrimSpace (c # s) \<noteq> []"
proof
  assume vis: "visible c" and empty: "TrimSpace (c # s) = []"
  have "trim_runes space_runes (c # s) = c # s"
  proof (rule trim_runes_id)
    fix q
    assume q: "q \<in> set space_runes" "q \<noteq> []" "take (length q) (c # s) = q"
    then have "hd q = c"
      by (metis hd_take length_greater_0_conv list.sel(1))
    then show False
      using space_runes_ends [OF q(1)] vis by simp
  qed
  then have "trim_runes (map rev space_runes) (rev (c # s)) = []"
    using empty by (simp add: TrimSpace_def)
  then obtain q where "q \<in> set (map rev space_runes)" "q \<noteq> []" "last q = c"
    using trim_runes_last [of "map rev space_runes" "rev (c # s)"] by auto
  then show False
    using space_runes_ends [of "rev q"] vis by (auto simp: last_rev)
qed

lemma digit_val_char [simp]: "d < 16 \<Longrightarrow> digit_val (digit_char d) = Some d"
  by (auto simp: digit_val_def digit_char_def Let_def)

lemma radix_val_append: "radix_val b (s @ [c]) = radix_val b s * b + the (digit_val c)"
  by (simp add: radix_val_def)

lemma radix_val_nat_radix [simp]:
  "2 \<le> b \<Longrightarrow> b \<le> 16 \<Longrightarrow> radix_val b (nat_radix b n) = n"
proof (induction b n rule: nat_radix.induct)
  case (1 b n)
  show ?case
  proof (cases "n < b")
    case True
    with 1 show ?thesis
      by (simp add: nat_radix.simps [of b n] radix_val_def)
  next
    case False
    then have "radix_val b (nat_radix b (n div b)) = n div b"
      using 1 by simp
    moreover have "n mod b < 16"
      using 1(2,3) mod_less_divisor [of b n] by linarith
    ultimately show ?thesis
      using False 1 by (simp add: nat_radix.simps [of b n] radix_val_append)
  qed
qed

lemma nat_radix_chars:
  "2 \<le> b \<Longrightarrow> b \<le> 16 \<Longrightarrow> c \<in> set (nat_radix b n) \<Longrightarrow> \<exists>d < 16. c = digit_char d"
proof (induction b n rule: nat_radix.induct)
  case (1 b n)
  have "n mod b < 16"
    using 1(2,3) mod_less_divisor [of b n] by linarith
  with 1 show ?case
    by (fastforce simp: nat_radix.simps [of b n] split: if_splits)
qed

lemma digit_char_range: "d < 16 \<Longrightarrow> 48 \<le> (of_char (digit_char d) :: nat)"
  by (auto simp: digit_char_def)

lemma nat_radix_char_ge: "2 \<le> b \<Longrightarrow> b \<le> 16 \<Longrightarrow> c \<in> set (nat_radix b n) \<Longrightarrow> 48 \<le> (of_char c :: nat)"
  using nat_radix_chars digit_char_range by metis

lemma nat_radix_inj: "2 \<le> b \<Longrightarrow> b \<le> 16 \<Longrightarrow> nat_radix b m = nat_radix b n \<Longrightarrow> m = n"
  using radix_val_nat_radix by metis

lemma nat_dec_inj: "nat_dec m = nat_dec n \<Longrightarrow> m = n"
  unfolding nat_dec_def by (rule nat_radix_inj) auto

lemma Itoa_char_ge: "c \<in> set (Itoa i) \<Longrightarrow> 45 \<le> (of_char c :: nat)"
  using nat_radix_char_ge [of 10 c "nat i"] nat_radix_char_ge [of 10 c "nat (- i)"]
  by (auto simp: Itoa_def nat_dec_def split: if_splits)

lemma Itoa_inj: "Itoa i = Itoa j \<longleftrightarrow> i = j"
proof
  assume eq: "Itoa i = Itoa j"
  have minus: "CHR ''-'' \<notin> set (nat_dec n)" for n
    using nat_radix_char_ge [of 10 "CHR ''-''" n] by (auto simp: nat_dec_def)
  have "nat_dec (nat a) \<noteq> CHR ''-'' # nat_dec b" for a b
    using minus [of "nat a"] by (metis list.set_intros(1))
  with eq show "i = j"
    by (auto simp: Itoa_def dest: nat_dec_inj split: if_splits) (metis nat_dec_inj)+
qed simp

lemma FormatHex_inj: "FormatHex v = FormatHex w \<longleftrightarrow> v = w"
  unfolding FormatHex_def using nat_radix_inj [of 16 "unat v" "unat w"] by (auto simp: word_unat_eq_iff)

section \<open>Lists\<close>

lemma sum_list_remove1:
  "x \<in> set xs \<Longrightarrow> sum_list (map f (remove1 x xs)) + f x = sum_list (map f xs)"
  for f :: "'a \<Rightarrow> nat"
  by (induction xs) auto

lemma elem_le_sum_list:
  "x \<in> set xs \<Longrightarrow> f x \<le> sum_list (map f xs)" for f :: "'a \<Rightarrow> nat"
  by (induction xs) auto

lemma distinct_map_remove1: "distinct (map f xs) \<Longrightarrow> distinct (map f (remove1 x xs))"
  by (induction xs) (auto dest: in_set_remove1 [THEN iffD1, rotated] notin_set_remove1)

end
