(* ===== verification/Retained_Ledger.thy ===== *)
theory Retained_Ledger
  imports Strix_Prelude
begin

text \<open>
  The retained-output ledger of one extraction request,
  \<^verbatim>\<open>src/internal/extract/retained.go\<close>: a byte budget that every stream the
  extractors publish is debited against, with a reserve held back for the
  truncation diagnostic. The ledger is a record of 64-bit words; a nil pointer is
  \<open>None\<close>. \<open>rb_addr\<close> is the object's identity, which tokens carry.
  The last section follows the request through \<open>appendStream\<close> and its kin.
\<close>

section \<open>The ledger\<close>

record retainedBudget =
  rb_addr :: nat
  total :: u64
  admissions :: u64
  limit :: u64
  refused :: bool
  reserved :: bool

record retainedToken =
  owner :: "nat option"
  serial :: u64

definition zero_token :: retainedToken where
  "zero_token = \<lparr>owner = None, serial = 0\<rparr>"

definition capHitMarkerPrefix :: string where
  "capHitMarkerPrefix = ''EXTRACT-CAP-HIT kind=''"

definition retainedReserveBytes :: u64 where
  "retainedReserveBytes = of_nat (length (capHitMarkerPrefix @ ''retained-bytes''))"

definition DefaultRetainedBytesLimit :: int where
  "DefaultRetainedBytesLimit = 2621440"

definition newRetainedBudget :: "nat \<Rightarrow> int \<Rightarrow> retainedBudget" where
  "newRetainedBudget addr lim =
     (let lim' = (if lim \<le> 0 then DefaultRetainedBytesLimit else lim)
      in \<lparr>rb_addr = addr, total = 0, admissions = 0, limit = of_int lim',
          refused = False, reserved = False\<rparr>)"

definition ordinaryCap :: "retainedBudget \<Rightarrow> u64" where
  "ordinaryCap b =
     (if limit b \<le> retainedReserveBytes then 0 else limit b - retainedReserveBytes)"

definition ordinaryUsed :: "retainedBudget \<Rightarrow> u64" where
  "ordinaryUsed b =
     (let used = (if reserved b then total b - retainedReserveBytes else total b);
          c = ordinaryCap b
      in if used > c then c else used)"

definition record_debit :: "retainedBudget option \<Rightarrow> u64 \<Rightarrow> retainedBudget option \<times> retainedToken \<times> bool"
  where
  "record_debit bo sz =
     (case bo of
        None \<Rightarrow> (None, zero_token, False)
      | Some b \<Rightarrow>
          (let t = (if sz > max_u64 - total b then max_u64 else total b + sz);
               n = (if admissions b < max_u64 then admissions b + 1 else admissions b)
           in (Some (b\<lparr>total := t, admissions := n\<rparr>),
               \<lparr>owner = Some (rb_addr b), serial = n\<rparr>, True)))"

definition admit :: "retainedBudget option \<Rightarrow> u64 \<Rightarrow> retainedBudget option \<times> retainedToken \<times> bool"
  where
  "admit bo sz =
     (case bo of
        None \<Rightarrow> (None, zero_token, False)
      | Some b \<Rightarrow>
          if limit b \<noteq> 0 \<and> sz > 0 \<and> sz > ordinaryCap b - ordinaryUsed b
          then (Some (b\<lparr>refused := True\<rparr>), zero_token, False)
          else record_debit (Some b) sz)"

definition admitReserve :: "retainedBudget option \<Rightarrow> retainedBudget option \<times> bool" where
  "admitReserve bo =
     (case bo of
        None \<Rightarrow> (None, False)
      | Some b \<Rightarrow>
          if reserved b \<or> (limit b \<noteq> 0 \<and> limit b < retainedReserveBytes) then (Some b, False)
          else (fst (record_debit (Some (b\<lparr>reserved := True\<rparr>)) retainedReserveBytes), True))"

definition recordBytes :: "retainedBudget option \<Rightarrow> byte list \<Rightarrow> retainedBudget option \<times> retainedToken \<times> bool"
  where
  "recordBytes bo data = record_debit bo (of_nat (length data))"

definition release :: "retainedBudget option \<Rightarrow> u64 \<Rightarrow> retainedBudget option" where
  "release bo sz =
     map_option (\<lambda>b. if sz > total b then b\<lparr>total := 0\<rparr> else b\<lparr>total := total b - sz\<rparr>) bo"

definition owns :: "retainedBudget option \<Rightarrow> retainedToken \<Rightarrow> bool" where
  "owns bo tok =
     (case bo of
        None \<Rightarrow> False
      | Some b \<Rightarrow> owner tok = Some (rb_addr b) \<and> serial tok > 0 \<and> serial tok \<le> admissions b)"

definition snapshot :: "retainedBudget option \<Rightarrow> u64" where
  "snapshot bo = (case bo of None \<Rightarrow> 0 | Some b \<Rightarrow> total b)"

section \<open>The request's output\<close>

text \<open>
  \<open>childOpts\<close> is the request's option block; its only part here is the ledger
  pointer, so \<open>None\<close> is a Result without a request, \<open>Some None\<close> one whose options
  carry no ledger. \<open>admitStream\<close> returns the accepted slice, which is a copy of the
  same bytes when \<open>own\<close> is set.
\<close>

record xresult =
  Streams :: "byte list list"
  trustedMarkers :: "byte list list"
  childOpts :: "retainedBudget option option"

definition admitStream ::
  "xresult option \<Rightarrow> byte list \<Rightarrow> bool \<Rightarrow> xresult option \<times> byte list \<times> retainedToken \<times> bool" where
  "admitStream ro p own =
     (case ro of
        None \<Rightarrow> (None, p, zero_token, True)
      | Some r \<Rightarrow>
          (case childOpts r of
             None \<Rightarrow> (Some r, p, zero_token, True)
           | Some led \<Rightarrow>
               (case admit led (of_nat (length p)) of (led', tok, ok) \<Rightarrow>
                  let r' = r\<lparr>childOpts := Some led'\<rparr>
                  in if \<not> ok then (Some r', p, tok, led' = None)
                     else (Some r', (if own \<and> length p > 0 then [] @ p else p), tok, True))))"

definition appendStream :: "xresult \<Rightarrow> byte list \<Rightarrow> xresult \<times> bool" where
  "appendStream r p =
     (case admitStream (Some r) p False of
        (Some r', q, tok, ok) \<Rightarrow> if ok then (r'\<lparr>Streams := Streams r' @ [q]\<rparr>, True) else (r', False)
      | (None, q, tok, ok) \<Rightarrow> (r, ok))"

definition appendStreamOwned :: "xresult \<Rightarrow> byte list \<Rightarrow> xresult \<times> bool" where
  "appendStreamOwned r p =
     (case admitStream (Some r) p True of
        (Some r', q, tok, ok) \<Rightarrow> if ok then (r'\<lparr>Streams := Streams r' @ [q]\<rparr>, True) else (r', False)
      | (None, q, tok, ok) \<Rightarrow> (r, ok))"

definition appendMarker :: "xresult \<Rightarrow> byte list \<Rightarrow> xresult \<times> bool" where
  "appendMarker r m =
     (case admitStream (Some r) m False of
        (Some r', q, tok, ok) \<Rightarrow>
          if ok then (r'\<lparr>Streams := Streams r' @ [q], trustedMarkers := trustedMarkers r' @ [m]\<rparr>, True)
          else (r', False)
      | (None, q, tok, ok) \<Rightarrow> (r, ok))"

definition appendOut ::
  "xresult option \<Rightarrow> byte list list \<Rightarrow> byte list \<Rightarrow> bool \<Rightarrow> xresult option \<times> byte list list \<times> bool" where
  "appendOut ro out p own =
     (case admitStream ro p own of
        (ro', q, tok, ok) \<Rightarrow> if ok then (ro', out @ [q], True) else (ro', out, False))"

definition appendMarkerOut ::
  "xresult option \<Rightarrow> byte list list \<Rightarrow> byte list \<Rightarrow> bool \<Rightarrow> xresult option \<times> byte list list \<times> bool" where
  "appendMarkerOut ro out m own =
     (case admitStream ro m own of
        (ro', q, tok, ok) \<Rightarrow>
          if \<not> ok then (ro', out, False)
          else (map_option (\<lambda>r. r\<lparr>trustedMarkers := trustedMarkers r @ [q]\<rparr>) ro', out @ [q], True))"

fun appendStreams :: "xresult \<Rightarrow> byte list list \<Rightarrow> bool \<Rightarrow> xresult" where
  "appendStreams r [] own = r"
| "appendStreams r (e # es) own =
     (case appendOut (Some r) (Streams r) e own of
        (Some r', out, ok) \<Rightarrow> appendStreams (r'\<lparr>Streams := out\<rparr>) es own
      | (None, out, ok) \<Rightarrow> appendStreams r es own)"

definition releaseRetained :: "xresult option \<Rightarrow> byte list \<Rightarrow> xresult option" where
  "releaseRetained ro data =
     map_option (\<lambda>r. r\<lparr>childOpts := map_option (\<lambda>led. release led (of_nat (length data))) (childOpts r)\<rparr>) ro"

definition recordRetained :: "xresult option \<Rightarrow> byte list \<Rightarrow> xresult option \<times> retainedToken \<times> bool" where
  "recordRetained ro data =
     (case ro of
        None \<Rightarrow> (None, zero_token, False)
      | Some r \<Rightarrow>
          (case childOpts r of
             None \<Rightarrow> (Some r, zero_token, False)
           | Some led \<Rightarrow>
               (case recordBytes led data of (led', tok, ok) \<Rightarrow>
                  (Some (r\<lparr>childOpts := Some led'\<rparr>), tok, ok))))"


section \<open>What the ledger guarantees\<close>

text \<open>
  The operations a request performs on its ledger, in any order. \<open>LRelease\<close> stands for
  \<open>releaseRetained\<close>, which the extractors call only for an entry they have admitted and
  did not publish; the second component of the run is the list of admitted entries
  that were not released.
\<close>

datatype ledger_op = LAdmit u64 | LReserve | LRelease u64

fun ledger_step :: "retainedBudget \<times> u64 list \<Rightarrow> ledger_op \<Rightarrow> retainedBudget \<times> u64 list" where
  "ledger_step (b, outs) (LAdmit n) =
     (case admit (Some b) n of (bo, tok, ok) \<Rightarrow> (the bo, if ok then n # outs else outs))"
| "ledger_step (b, outs) LReserve = (the (fst (admitReserve (Some b))), outs)"
| "ledger_step (b, outs) (LRelease n) =
     (if n \<in> set outs then (the (release (Some b) n), remove1 n outs) else (b, outs))"

fun ledger_run :: "retainedBudget \<times> u64 list \<Rightarrow> ledger_op list \<Rightarrow> retainedBudget \<times> u64 list" where
  "ledger_run s [] = s"
| "ledger_run s (x # xs) = ledger_run (ledger_step s x) xs"

definition held :: "u64 list \<Rightarrow> nat" where
  "held outs = sum_list (map unat outs)"

definition ordinary_room :: "retainedBudget \<Rightarrow> nat" where
  "ordinary_room b = unat (limit b) - unat retainedReserveBytes"

definition ledger_inv :: "retainedBudget \<Rightarrow> u64 list \<Rightarrow> bool" where
  "ledger_inv b outs \<longleftrightarrow>
     limit b \<noteq> 0 \<and>
     unat (total b) = held outs + (if reserved b then unat retainedReserveBytes else 0) \<and>
     held outs \<le> ordinary_room b \<and>
     (reserved b \<longrightarrow> retainedReserveBytes \<le> limit b)"

lemma reserve_35: "retainedReserveBytes = 35"
  by (simp add: retainedReserveBytes_def capHitMarkerPrefix_def)

lemma unat_reserve [simp]: "unat retainedReserveBytes = 35"
  by (simp add: reserve_35)

lemma held_simps [simp]:
  "held [] = 0" "held (n # outs) = unat n + held outs"
  by (simp_all add: held_def)

lemma held_remove1: "n \<in> set outs \<Longrightarrow> held (remove1 n outs) + unat n = held outs"
  unfolding held_def by (rule sum_list_remove1)

lemma unat_ordinaryCap: "unat (ordinaryCap b) = ordinary_room b"
  by (auto simp: ordinaryCap_def ordinary_room_def unat_minus_u64 word_le_nat_alt)

lemma ledger_inv_total: "ledger_inv b outs \<Longrightarrow> unat (total b) \<le> unat (limit b)"
  by (auto simp: ledger_inv_def ordinary_room_def word_le_nat_alt split: if_splits)

lemma unat_ordinaryUsed:
  assumes "ledger_inv b outs"
  shows "unat (ordinaryUsed b) = held outs"
proof -
  have tot: "unat (total b) = held outs + (if reserved b then 35 else 0)"
    and room: "held outs \<le> ordinary_room b"
    using assms by (auto simp: ledger_inv_def)
  have "unat (if reserved b then total b - retainedReserveBytes else total b) = held outs"
    using tot by (auto simp: unat_minus_u64 word_le_nat_alt)
  with room show ?thesis
    by (simp add: ordinaryUsed_def Let_def word_less_nat_alt unat_ordinaryCap)
qed

lemma admit_guard:
  assumes "ledger_inv b outs"
  shows "n > ordinaryCap b - ordinaryUsed b \<longleftrightarrow> held outs + unat n > ordinary_room b"
proof -
  note used = unat_ordinaryUsed [OF assms]
  have "ordinaryUsed b \<le> ordinaryCap b"
    using assms by (simp add: word_le_nat_alt used unat_ordinaryCap ledger_inv_def)
  then have "unat (ordinaryCap b - ordinaryUsed b) = ordinary_room b - held outs"
    by (simp add: unat_minus_u64 used unat_ordinaryCap)
  then show ?thesis
    using assms by (auto simp: word_less_nat_alt ledger_inv_def)
qed

text \<open>The admission test of the code, in arithmetic without wrap-around.\<close>

lemma admit_exact:
  assumes "ledger_inv b outs"
  shows "snd (snd (admit (Some b) n)) \<longleftrightarrow> n = 0 \<or> held outs + unat n \<le> ordinary_room b"
proof -
  have "limit b \<noteq> 0"
    using assms by (simp add: ledger_inv_def)
  then show ?thesis
    unfolding admit_def record_debit_def
    by (auto simp: Let_def admit_guard [OF assms] word_gt_0)
qed

lemma record_total:
  assumes "unat (total b) + unat n < 2 ^ 64" and "fst (record_debit (Some b) n) = Some b'"
  shows "unat (total b') = unat (total b) + unat n \<and> limit b' = limit b \<and> reserved b' = reserved b
         \<and> refused b' = refused b \<and> rb_addr b' = rb_addr b"
proof -
  have "unat (max_u64 - total b) = 2 ^ 64 - 1 - unat (total b)"
    by (subst unat_minus_u64) (simp_all add: word_order.extremum)
  then have "\<not> n > max_u64 - total b"
    using assms(1) by (simp add: word_less_nat_alt)
  then show ?thesis
    using assms by (auto simp: record_debit_def Let_def unat_plus_u64)
qed

lemma ledger_inv_record:
  assumes inv: "ledger_inv b outs" and fits: "n = 0 \<or> held outs + unat n \<le> ordinary_room b"
    and eq: "fst (record_debit (Some b) n) = Some b'"
  shows "ledger_inv b' (n # outs)"
proof -
  have room: "held outs + unat n \<le> ordinary_room b"
    using fits inv by (auto simp: ledger_inv_def)
  have "unat (total b) + unat n \<le> unat (limit b)"
    using room inv by (auto simp: ledger_inv_def ordinary_room_def word_le_nat_alt split: if_splits)
  then have "unat (total b) + unat n < 2 ^ 64"
    using u64_bound [of "limit b"] by linarith
  from record_total [OF this eq] show ?thesis
    using inv room by (auto simp: ledger_inv_def ordinary_room_def)
qed

lemma ledger_inv_admit [step_inv]:
  assumes inv: "ledger_inv b outs" and eq: "admit (Some b) n = (Some b', tok, ok)"
  shows "ledger_inv b' (if ok then n # outs else outs)"
proof (cases ok)
  case True
  with admit_exact [OF inv, of n] eq have "n = 0 \<or> held outs + unat n \<le> ordinary_room b"
    by simp
  moreover have "fst (record_debit (Some b) n) = Some b'"
    using True eq by (auto simp: admit_def split: if_splits)
  ultimately show ?thesis
    using True ledger_inv_record [OF inv] by simp
next
  case False
  then have "b' = b\<lparr>refused := True\<rparr>"
    using eq by (auto simp: admit_def record_debit_def Let_def split: if_splits)
  with False inv show ?thesis
    by (simp add: ledger_inv_def ordinary_room_def)
qed

lemma ledger_inv_reserve [step_inv]:
  assumes inv: "ledger_inv b outs" and eq: "admitReserve (Some b) = (Some b', ok)"
  shows "ledger_inv b' outs"
proof (cases ok)
  case True
  then have nr: "\<not> reserved b" and le: "retainedReserveBytes \<le> limit b"
    and rec: "fst (record_debit (Some (b\<lparr>reserved := True\<rparr>)) retainedReserveBytes) = Some b'"
    using eq inv by (auto simp: admitReserve_def ledger_inv_def split: if_splits)
  have "unat (total b) + 35 \<le> unat (limit b)"
    using inv nr le by (auto simp: ledger_inv_def ordinary_room_def word_le_nat_alt)
  then have "unat (total (b\<lparr>reserved := True\<rparr>)) + unat retainedReserveBytes < 2 ^ 64"
    using u64_bound [of "limit b"] by simp
  from record_total [OF this rec] show ?thesis
    using inv nr le by (auto simp: ledger_inv_def ordinary_room_def)
next
  case False
  then show ?thesis
    using eq inv by (auto simp: admitReserve_def split: if_splits)
qed

lemma ledger_inv_release [step_inv]:
  assumes inv: "ledger_inv b outs" and mem: "n \<in> set outs" and eq: "release (Some b) n = Some b'"
  shows "ledger_inv b' (remove1 n outs)"
proof -
  have h: "held (remove1 n outs) + unat n = held outs"
    using mem by (rule held_remove1)
  then have "n \<le> total b"
    using inv by (auto simp: ledger_inv_def word_le_nat_alt)
  then have "b' = b\<lparr>total := total b - n\<rparr>" and "unat (total b - n) = unat (total b) - unat n"
    using eq by (auto simp: release_def unat_minus_u64 split: if_splits)
  then show ?thesis
    using inv h by (auto simp: ledger_inv_def ordinary_room_def)
qed

lemma admit_Some: "\<exists>b'. fst (admit (Some b) n) = Some b'"
  by (auto simp: admit_def record_debit_def Let_def)

lemma admitReserve_Some: "\<exists>b'. fst (admitReserve (Some b)) = Some b'"
  by (auto simp: admitReserve_def record_debit_def Let_def)

lemma ledger_step_inv:
  assumes "ledger_inv (fst s) (snd s)"
  shows "ledger_inv (fst (ledger_step s x)) (snd (ledger_step s x))"
proof (cases s)
  case (Pair b outs)
  show ?thesis
  proof (cases x)
    case (LAdmit n)
    with Pair assms admit_Some [of b n] show ?thesis
      by (auto simp del: held_simps split: prod.split dest: ledger_inv_admit)
  next
    case LReserve
    with Pair assms admitReserve_Some [of b] show ?thesis
      by (cases "admitReserve (Some b)") (auto dest: ledger_inv_reserve)
  next
    case (LRelease n)
    with Pair assms show ?thesis
      by (auto simp: release_def dest: ledger_inv_release [unfolded release_def])
  qed
qed

lemma ledger_run_inv:
  "ledger_inv (fst s) (snd s) \<Longrightarrow> ledger_inv (fst (ledger_run s xs)) (snd (ledger_run s xs))"
proof (induction xs arbitrary: s)
  case (Cons x xs)
  then show ?case
    using ledger_step_inv [of s x] by simp
qed simp

lemma newRetainedBudget_limit:
  assumes "lim < 2 ^ 63"
  shows "int (unat (limit (newRetainedBudget a lim))) = (if lim \<le> 0 then 2621440 else lim)"
  using assms
  by (auto simp: newRetainedBudget_def Let_def DefaultRetainedBytesLimit_def uint_nat [symmetric]
      uint_word_of_int)

lemma ledger_inv_new:
  assumes "lim < 2 ^ 63"
  shows "ledger_inv (newRetainedBudget a lim) []"
proof -
  have "limit (newRetainedBudget a lim) \<noteq> 0"
    using newRetainedBudget_limit [OF assms, of a] by (auto split: if_splits)
  then show ?thesis
    by (simp add: ledger_inv_def newRetainedBudget_def Let_def)
qed


section \<open>What the request publishes\<close>

text \<open>
  The specification of \<open>appendStreams\<close>: entries are taken in order, each judged on
  its own size against the room that is left, so a refused entry does not hide a
  later one that fits.
\<close>

fun greedy_fit :: "nat \<Rightarrow> 'a list list \<Rightarrow> 'a list list" where
  "greedy_fit room [] = []"
| "greedy_fit room (e # es) =
     (if length e \<le> room then e # greedy_fit (room - length e) es else greedy_fit room es)"

definition fresh_request :: "nat \<Rightarrow> int \<Rightarrow> xresult" where
  "fresh_request a lim =
     \<lparr>Streams = [], trustedMarkers = [], childOpts = Some (Some (newRetainedBudget a lim))\<rparr>"

lemma greedy_fit_sum: "sum_list (map length (greedy_fit room es)) \<le> room"
proof (induction es arbitrary: room)
  case (Cons e es)
  show ?case
    using Cons.IH [of room] Cons.IH [of "room - length e"] by auto
qed simp

lemma admit_entry:
  assumes inv: "ledger_inv b outs" and len: "length p < 2 ^ 64"
  obtains b' tok where "admit (Some b) (of_nat (length p)) =
       (Some b', tok, held outs + length p \<le> ordinary_room b)"
    and "ledger_inv b' (if held outs + length p \<le> ordinary_room b then of_nat (length p) # outs else outs)"
    and "limit b' = limit b"
proof -
  obtain b' tok ok where eq: "admit (Some b) (of_nat (length p)) = (Some b', tok, ok)"
    using admit_Some [of b "of_nat (length p)"] by (cases "admit (Some b) (of_nat (length p))") auto
  have u: "unat (of_nat (length p) :: u64) = length p"
    using len by (rule unat_of_nat_u64)
  have "(of_nat (length p) :: u64) = 0 \<longleftrightarrow> length p = 0"
    using u by (auto simp: unat_eq_zero)
  then have ok: "ok \<longleftrightarrow> held outs + length p \<le> ordinary_room b"
    using admit_exact [OF inv, of "of_nat (length p)"] eq u inv by (auto simp: ledger_inv_def)
  have "limit b' = limit b"
    using eq by (auto simp: admit_def record_debit_def Let_def split: if_splits)
  with that ledger_inv_admit [OF inv eq] eq ok show ?thesis
    by simp
qed

lemma appendStreams_greedy:
  assumes "ledger_inv b outs" and "childOpts r = Some (Some b)"
    and "\<forall>e \<in> set es. length e < 2 ^ 64"
  shows "Streams (appendStreams r es own) = Streams r @ greedy_fit (ordinary_room b - held outs) es"
  using assms
proof (induction es arbitrary: r b outs)
  case (Cons e es)
  let ?fits = "held outs + length e \<le> ordinary_room b"
  from Cons.prems obtain b' tok
    where ad: "admit (Some b) (of_nat (length e)) = (Some b', tok, ?fits)"
      and inv': "ledger_inv b' (if ?fits then of_nat (length e) # outs else outs)"
      and lim: "limit b' = limit b"
    by (metis admit_entry list.set_intros(1))
  let ?r' = "r\<lparr>childOpts := Some (Some b'), Streams := Streams r @ (if ?fits then [e] else [])\<rparr>"
  have step: "appendStreams r (e # es) own = appendStreams ?r' es own"
    using Cons.prems(2) ad by (simp add: appendOut_def admitStream_def Let_def)
  have room: "ordinary_room b' = ordinary_room b"
    using lim by (simp add: ordinary_room_def)
  have held: "held outs \<le> ordinary_room b"
    using Cons.prems(1) by (simp add: ledger_inv_def)
  have u: "unat (of_nat (length e) :: u64) = length e"
    using Cons.prems(3) by (simp add: unat_of_nat_u64)
  have "Streams (appendStreams ?r' es own) = Streams ?r' @
      greedy_fit (ordinary_room b' - held (if ?fits then of_nat (length e) # outs else outs)) es"
    using Cons.prems(3) by (intro Cons.IH [OF inv']) auto
  with step room held u show ?case
    by (auto simp: algebra_simps)
qed simp

section \<open>Properties\<close>

lemma limit_admit: "limit (the (fst (admit (Some b) n))) = limit b"
  by (simp add: admit_def record_debit_def Let_def)

lemma limit_admitReserve: "limit (the (fst (admitReserve (Some b)))) = limit b"
  by (simp add: admitReserve_def record_debit_def Let_def)

lemma limit_release: "limit (the (release (Some b) n)) = limit b"
  by (simp add: release_def)

lemma limit_of_run: "limit (fst (ledger_run s ops)) = limit (fst s)"
proof (induction ops arbitrary: s)
  case (Cons x xs)
  have "limit (fst (ledger_step s x)) = limit (fst s)"
    by (cases s; cases x)
      (simp_all add: limit_admitReserve limit_release case_prod_beta limit_admit)
  with Cons show ?case by simp
qed simp

lemma admitReserve_fits:
  assumes "ledger_inv b outs" and "\<not> reserved b" and "retainedReserveBytes \<le> limit b"
  obtains b' where "admitReserve (Some b) = (Some b', True)" and "unat (total b') \<le> unat (limit b)"
proof -
  have "\<not> limit b < retainedReserveBytes"
    using assms(3) by (simp add: not_less)
  then have "snd (admitReserve (Some b))"
    using assms(2) by (simp add: admitReserve_def)
  then obtain b' where eq: "admitReserve (Some b) = (Some b', True)"
    using admitReserve_Some [of b] by (metis prod.collapse)
  have "limit b' = limit b"
    using eq limit_admitReserve [of b] by simp
  with that eq ledger_inv_total [OF ledger_inv_reserve [OF assms(1) eq]] show ?thesis
    by simp
qed

text \<open>
  (C3) Whatever mixture of admissions, releases of admitted entries and reserve claims an
  extraction request makes, in any order, the bytes its ledger holds never exceed the
  request's ceiling; and the truncation diagnostic still fits as long as it has not
  been taken and the ceiling is at least as large as the diagnostic.
\<close>

theorem ledger_never_exceeds_ceiling:
  assumes "lim < 2 ^ 63"
    and "ledger_run (newRetainedBudget a lim, []) ops = (b, outs)"
  shows "int (unat (total b)) \<le> (if lim \<le> 0 then DefaultRetainedBytesLimit else lim) \<and>
         (\<not> reserved b \<and> retainedReserveBytes \<le> limit b \<longrightarrow>
           (\<exists>b'. admitReserve (Some b) = (Some b', True) \<and> unat (total b') \<le> unat (limit b)))"
proof -
  have inv: "ledger_inv b outs"
    using ledger_run_inv [of "(newRetainedBudget a lim, [])" ops] ledger_inv_new [OF assms(1), of a]
      assms(2) by simp
  have "limit b = limit (newRetainedBudget a lim)"
    using limit_of_run [of "(newRetainedBudget a lim, [])" ops] assms(2) by simp
  then have "int (unat (limit b)) = (if lim \<le> 0 then DefaultRetainedBytesLimit else lim)"
    using newRetainedBudget_limit [OF assms(1), of a] by (simp add: DefaultRetainedBytesLimit_def)
  with ledger_inv_total [OF inv]
  have "int (unat (total b)) \<le> (if lim \<le> 0 then DefaultRetainedBytesLimit else lim)"
    by linarith
  moreover have "\<exists>b'. admitReserve (Some b) = (Some b', True) \<and> unat (total b') \<le> unat (limit b)"
    if "\<not> reserved b" "retainedReserveBytes \<le> limit b"
    using that by (rule admitReserve_fits [OF inv]) blast
  ultimately show ?thesis
    by blast
qed

theorem ledger_never_exceeds_ceiling_witness:
  "int (unat (total (fst (ledger_run (newRetainedBudget 7 100, [])
       [LAdmit 60, LAdmit 10, LAdmit 5, LRelease 60, LReserve])))) \<le> 100"
  using ledger_never_exceeds_ceiling
      [of 100 7 "[LAdmit 60, LAdmit 10, LAdmit 5, LRelease 60, LReserve]",
       OF _ prod.collapse [symmetric]]
  by simp

text \<open>
  (C32) The streams a request publishes through \<open>appendStreams\<close> are exactly the greedy
  selection of the offered entries against the ceiling less the diagnostic reserve: a
  refused oversized entry never hides a smaller later one that fits, nothing is
  truncated or reordered, and the published total stays within that room.
\<close>

theorem published_streams_greedy:
  assumes "lim < 2 ^ 63" and "\<forall>e \<in> set es. length e < 2 ^ 64"
  shows "let room = nat ((if lim \<le> 0 then DefaultRetainedBytesLimit else lim) - 35);
             out = Streams (appendStreams (fresh_request a lim) es own)
         in out = greedy_fit room es \<and> sum_list (map length out) \<le> room"
proof -
  have "ordinary_room (newRetainedBudget a lim)
        = nat ((if lim \<le> 0 then DefaultRetainedBytesLimit else lim) - 35)"
    using newRetainedBudget_limit [OF assms(1), of a]
    by (auto simp: ordinary_room_def DefaultRetainedBytesLimit_def nat_diff_distrib' reserve_35 simp flip: nat_uint_eq
        split: if_splits)
  with appendStreams_greedy [OF ledger_inv_new [OF assms(1)] _ assms(2), of "fresh_request a lim" a own]
  show ?thesis
    by (simp add: fresh_request_def Let_def greedy_fit_sum)
qed

theorem published_streams_greedy_witness:
  "Streams (appendStreams (fresh_request 7 40) [replicate 4 1, replicate 9 2, [3]] True)
   = [replicate 4 1, [3]]"
  using published_streams_greedy [of 40 "[replicate 4 1, replicate 9 2, [3]]" 7 True]
  by (simp add: Let_def)

end
