(* ===== verification/Scan_Meta.thy ===== *)
theory Scan_Meta
  imports Retained_Ledger
begin

text \<open>
  Per-message context of a scan (\<^verbatim>\<open>src/internal/mailstrix/scanner.go\<close>, \<^verbatim>\<open>extmismatch.go\<close>):
  the sanitized attachment name, the archive-password candidates, the part of the
  verdict-cache key that depends on them, and the renamed-container check. Names are
  byte strings; the passes that Go makes over runes are written on the bytes, which is
  the same for names in valid UTF-8 without letters that change case outside ASCII.
  The third-party \<^verbatim>\<open>xxhash\<close> is the argument \<open>xxhash\<close>. \<open>extraction\<close> extends the ledger's
  view of \<^verbatim>\<open>extract.Result\<close> by the fields the scanner reads.
\<close>

section \<open>Scan metadata\<close>

record ScanMeta =
  Filename :: string
  Extension :: string
  FileType :: string
  Effort :: int
  RawKey :: "128 word"
  PWCandidates :: "string list"
  requireComplete :: bool

definition zeroScanMeta :: ScanMeta where
  "zeroScanMeta = \<lparr>Filename = '''', Extension = '''', FileType = '''', Effort = 0, RawKey = 0,
                   PWCandidates = [], requireComplete = False\<rparr>"

definition maxFilenameLen :: nat where "maxFilenameLen = 255"

definition fileTypeFromExtension :: "string \<Rightarrow> string" where
  "fileTypeFromExtension ext = (if ext = ''.msg'' \<or> ext = ''.oft'' then ''outlook'' else '''')"

definition control_char :: "char \<Rightarrow> bool" where
  "control_char c \<longleftrightarrow> (let n = of_char c :: nat in n < 32 \<or> n = 127)"

definition path_sep :: "char \<Rightarrow> bool" where
  "path_sep c \<longleftrightarrow> c = CHR ''/'' \<or> of_char c = (92 :: nat)"

definition base_name :: "string \<Rightarrow> string" where
  "base_name name = (case last_index path_sep name of Some i \<Rightarrow> drop (i + 1) name | None \<Rightarrow> name)"

definition sanitized_name :: "string \<Rightarrow> string" where
  "sanitized_name name0 =
     (let name = TrimSpace (filter (\<lambda>c. \<not> control_char c) (base_name name0))
      in if length name > maxFilenameLen then take maxFilenameLen name else name)"

definition name_extension :: "string \<Rightarrow> string" where
  "name_extension name =
     (case last_index (\<lambda>c. c = CHR ''.'') name of
        Some i \<Rightarrow> if i > 0 \<and> i < length name - 1 then ToLower (drop i name) else []
      | None \<Rightarrow> [])"

definition NewScanMeta :: "string \<Rightarrow> ScanMeta" where
  "NewScanMeta name0 =
     (let name = sanitized_name name0
      in if name = [] then zeroScanMeta
         else (let ext = name_extension name
               in zeroScanMeta\<lparr>Filename := name, Extension := ext, FileType := fileTypeFromExtension ext\<rparr>))"

section \<open>Cache key\<close>

text \<open>\<^verbatim>\<open>binary.BigEndian.PutUint64\<close> and the stream hashed for the password candidates.\<close>

fun be_bytes :: "nat \<Rightarrow> nat \<Rightarrow> string" where
  "be_bytes 0 m = []"
| "be_bytes (Suc n) m = be_bytes n (m div 256) @ [char_of (m mod 256)]"

definition be64 :: "u64 \<Rightarrow> string" where
  "be64 w = be_bytes 8 (unat w)"

definition pw_encoding :: "string list \<Rightarrow> string" where
  "pw_encoding cs = be64 (of_nat (length cs)) @ concat (map (\<lambda>c. be64 (of_nat (length c)) @ c) cs)"

definition nul :: char where
  "nul = CHR 0x00"

definition cacheKey :: "(string \<Rightarrow> u64) \<Rightarrow> ScanMeta \<Rightarrow> string" where
  "cacheKey xxhash m =
     (let k = Filename m @ [nul] @ Extension m @ [nul] @ FileType m @ [nul] @ Itoa (Effort m)
      in if length (PWCandidates m) > 0
         then k @ [nul] @ ''pw:'' @ FormatHex (xxhash (pw_encoding (PWCandidates m)))
         else k)"

section \<open>Password candidates\<close>

definition archivePWDefaults :: "string list" where
  "archivePWDefaults =
     [''infected'', ''malware'', ''virus'', ''password'', ''pass'', ''pw'',
      ''123'', ''1234'', ''12345'', ''123456'', ''1234567'', ''12345678'',
      ''0000'', ''1111'', ''letmein'', ''secret'', ''admin'', ''test'', ''file'', ''zip'']"

definition maxEffectivePWCandidates :: nat where "maxEffectivePWCandidates = 64"

fun dedup_loop :: "string list \<Rightarrow> string list \<Rightarrow> string list \<Rightarrow> string list" where
  "dedup_loop seen out [] = out"
| "dedup_loop seen out (c # cs) =
     (let c' = TrimSpace c
      in if c' = '''' \<or> c' \<in> set seen then dedup_loop seen out cs
         else dedup_loop (c' # seen) (out @ [c']) cs)"

definition dedupCandidates :: "string list \<Rightarrow> string list" where
  "dedupCandidates cs = dedup_loop [] [] cs"

text \<open>
  The inner loop of \<open>capDedupCandidates\<close>; the flag says that the cap was met and the
  function returned.
\<close>

fun cap_loop :: "string list \<Rightarrow> string list \<Rightarrow> string list \<Rightarrow> string list \<times> string list \<times> bool" where
  "cap_loop seen out [] = (seen, out, False)"
| "cap_loop seen out (c # cs) =
     (if length out = maxEffectivePWCandidates then (seen, out, True)
      else (let c' = TrimSpace c
            in if c' = '''' \<or> c' \<in> set seen then cap_loop seen out cs
               else cap_loop (c' # seen) (out @ [c']) cs))"

fun cap_lists :: "string list \<Rightarrow> string list \<Rightarrow> string list list \<Rightarrow> string list" where
  "cap_lists seen out [] = out"
| "cap_lists seen out (l # ls) =
     (case cap_loop seen out l of (seen', out', stop) \<Rightarrow> if stop then out' else cap_lists seen' out' ls)"

definition capDedupCandidates :: "string list list \<Rightarrow> string list" where
  "capDedupCandidates ls = cap_lists [] [] ls"

definition archivePWBaseDefaults :: "bool \<Rightarrow> string list" where
  "archivePWBaseDefaults enabled = (if \<not> enabled then [] else dedupCandidates archivePWDefaults)"

definition archivePWBaseWordlist :: "bool \<Rightarrow> string list \<Rightarrow> string list" where
  "archivePWBaseWordlist enabled wordlist =
     (if \<not> enabled \<or> wordlist = [] then []
      else filter (\<lambda>w. w \<notin> set archivePWDefaults) (dedupCandidates wordlist))"

text \<open>\<^verbatim>\<open>strings.FieldsFunc\<close>: the maximal runs of characters that are not separators.\<close>

fun fields_loop :: "('a \<Rightarrow> bool) \<Rightarrow> 'a list \<Rightarrow> 'a list \<Rightarrow> 'a list list" where
  "fields_loop sep cur [] = (if cur = [] then [] else [cur])"
| "fields_loop sep cur (c # cs) =
     (if sep c then (if cur = [] then fields_loop sep [] cs else cur # fields_loop sep [] cs)
      else fields_loop sep (cur @ [c]) cs)"

definition FieldsFunc :: "('a \<Rightarrow> bool) \<Rightarrow> 'a list \<Rightarrow> 'a list list" where
  "FieldsFunc sep s = fields_loop sep [] s"

definition maxFilenameTokens :: nat where "maxFilenameTokens = 6"

definition token_sep :: "char \<Rightarrow> bool" where
  "token_sep c \<longleftrightarrow> c \<in> set '' _-.()[]''"

fun token_loop :: "string list \<Rightarrow> string list \<Rightarrow> string list" where
  "token_loop out [] = out"
| "token_loop out (tok # toks) =
     (if length tok \<ge> 3 \<and> length tok \<le> 32
      then (let out' = out @ [tok]
            in if length out' \<ge> maxFilenameTokens then out' else token_loop out' toks)
      else token_loop out toks)"

definition filenameTokens :: "string \<Rightarrow> string list" where
  "filenameTokens name =
     (if name = '''' then []
      else (let stem = (case last_index (\<lambda>c. c = CHR ''.'') name of
                          Some i \<Rightarrow> if i > 0 then take i name else name | None \<Rightarrow> name)
            in token_loop [] (FieldsFunc token_sep stem)))"

section \<open>Renamed containers\<close>

record extraction = xresult +
  Markers :: "byte list list"
  VBAStreams :: "byte list list"
  MIMEAttachments :: "byte list list"
  ContentStreams :: int
  DecodedStreams :: int
  TopType :: string
  IsDoc :: bool
  IsRTF :: bool
  IsMSI :: bool
  IsLNK :: bool
  IsOneNote :: bool
  IsOLEPackage :: bool
  IsMSG :: bool
  IsPDF :: bool
  IsArchive :: bool
  IsSLK :: bool
  Encrypted :: bool
  DecryptedArchive :: bool
  EncodedScript :: bool
  HasDocProps :: bool
  HasXLMFold :: bool
  EncryptedArchive :: bool
  Polyglot :: bool
  IsXLL :: bool
  IsTNEF :: bool
  IsMIME :: bool
  Retained :: u64
  probe :: bool
  Failed :: bool
  Panicked :: bool
  RetainedTruncated :: bool
  CapHits :: "string list"

definition TopTypePDF :: string where "TopTypePDF = ''pdf''"
definition TopTypeTNEF :: string where "TopTypeTNEF = ''tnef''"
definition TopTypeSpreadsheetML :: string where "TopTypeSpreadsheetML = ''spreadsheetml''"
definition TopTypeMIME :: string where "TopTypeMIME = ''mime''"

definition extMismatchMarkerPrefix :: string where
  "extMismatchMarkerPrefix = ''EXT-MISMATCH''"

definition benignExts :: "string list" where
  "benignExts =
     [''.txt'', ''.text'', ''.log'', ''.csv'', ''.rtf'',
      ''.jpg'', ''.jpeg'', ''.png'', ''.gif'', ''.bmp'', ''.webp'',
      ''.pdf'', ''.html'', ''.htm'', ''.xml'', ''.json'',
      ''.mp3'', ''.mp4'', ''.wav'', ''.avi'', ''.mov'',
      ''.dat'', ''.bin'', ''.tmp'']"

definition isOfficeExt :: "string \<Rightarrow> bool" where
  "isOfficeExt ext \<longleftrightarrow> ext \<in> set
     [''.doc'', ''.docx'', ''.docm'', ''.dot'', ''.dotx'', ''.dotm'',
      ''.xls'', ''.xlsx'', ''.xlsm'', ''.xlsb'', ''.xlt'', ''.xltx'', ''.xltm'', ''.xla'', ''.xlam'', ''.xlm'',
      ''.ppt'', ''.pptx'', ''.pptm'', ''.pps'', ''.ppsx'', ''.ppsm'', ''.ppa'', ''.ppam'', ''.pot'', ''.potx'', ''.potm'',
      ''.sldm'', ''.sldx'', ''.xps'']"

definition topTypeOwnExt :: "string \<Rightarrow> string option" where
  "topTypeOwnExt t = map_of [(TopTypePDF, ''.pdf''), (TopTypeTNEF, ''.dat''), (TopTypeSpreadsheetML, ''.xml'')] t"

definition claimed :: "string \<Rightarrow> string" where
  "claimed ext = (case ext of c # cs \<Rightarrow> if c = CHR ''.'' then cs else ext | [] \<Rightarrow> [])"

definition flag_coat :: "string \<Rightarrow> string \<Rightarrow> string" where
  "flag_coat kind ext = (if ext \<in> set benignExts then kind @ '':'' @ claimed ext else '''')"

definition extMismatch :: "extraction \<Rightarrow> string \<Rightarrow> string" where
  "extMismatch res ext0 =
     (if ext0 = '''' then ''''
      else (let ext = ToLower ext0
            in if IsRTF res then (if ext = ''.rtf'' \<or> ext = ''.doc'' then '''' else flag_coat ''rtf'' ext)
               else if IsMSI res then (if ext = ''.msi'' \<or> ext = ''.msp'' then '''' else flag_coat ''msi'' ext)
               else if IsLNK res then (if ext = ''.lnk'' then '''' else flag_coat ''lnk'' ext)
               else if IsOneNote res then (if ext = ''.one'' \<or> ext = ''.onepkg'' then '''' else flag_coat ''onenote'' ext)
               else if IsOLEPackage res then flag_coat ''ole-package'' ext
               else if IsDoc res then
                 (if isOfficeExt ext then ''''
                  else if topTypeOwnExt (TopType res) = Some ext then ''''
                  else flag_coat ''office-doc'' ext)
               else ''''))"

section \<open>Sanitized names\<close>

lemma last_index_SomeD:
  "last_index P xs = Some i \<Longrightarrow> i < length xs \<and> P (xs ! i) \<and> (\<forall>j. i < j \<and> j < length xs \<longrightarrow> \<not> P (xs ! j))"
proof (induction xs arbitrary: i)
  case (Cons x xs)
  show ?case
  proof (cases "last_index P xs")
    case None
    have "\<forall>y \<in> set xs. \<not> P y"
      using None by (induction xs) (auto split: option.splits if_splits)
    then show ?thesis
      using Cons.prems None by (auto split: if_splits simp: nth_Cons split: nat.splits)
  next
    case (Some k)
    with Cons show ?thesis
      by (auto simp: nth_Cons split: nat.splits)
  qed
qed simp

lemma last_index_None: "last_index P xs = None \<longleftrightarrow> (\<forall>x \<in> set xs. \<not> P x)"
  by (induction xs) (auto split: option.splits)

lemma set_drop_last_index:
  assumes "last_index P xs = Some i"
  shows "\<forall>x \<in> set (drop (i + 1) xs). \<not> P x"
  using last_index_SomeD [OF assms] by (auto simp: in_set_conv_nth)

lemma NewScanMeta_fields [simp]:
  "Filename (NewScanMeta name) = sanitized_name name"
  "Extension (NewScanMeta name) = name_extension (sanitized_name name)"
  "FileType (NewScanMeta name) = fileTypeFromExtension (name_extension (sanitized_name name))"
  by (simp_all add: NewScanMeta_def Let_def zeroScanMeta_def name_extension_def fileTypeFromExtension_def)

lemma base_name_chars: "c \<in> set (base_name name) \<Longrightarrow> \<not> path_sep c"
  using set_drop_last_index [of path_sep name]
  by (auto simp: base_name_def last_index_None split: option.splits)

lemma sanitized_name_chars:
  assumes "c \<in> set (sanitized_name name)"
  shows "\<not> control_char c \<and> \<not> path_sep c"
proof -
  have "c \<in> set (TrimSpace (filter (\<lambda>c. \<not> control_char c) (base_name name)))"
    using assms by (auto simp: sanitized_name_def Let_def split: if_splits dest: in_set_takeD)
  then have "c \<in> set (filter (\<lambda>c. \<not> control_char c) (base_name name))"
    using set_TrimSpace by blast
  then show ?thesis
    using base_name_chars by auto
qed


lemma name_extension_cases:
  obtains "name_extension name = []"
  | i where "0 < i" "i < length name - 1" "name ! i = CHR ''.''" "CHR ''.'' \<notin> set (drop (i + 1) name)"
      "name_extension name = ToLower (drop i name)"
proof (cases "last_index (\<lambda>c. c = CHR ''.'') name")
  case (Some i)
  have "name ! i = CHR ''.''" "CHR ''.'' \<notin> set (drop (i + 1) name)"
    using last_index_SomeD [OF Some] set_drop_last_index [OF Some] by auto
  moreover have "name_extension name = (if 0 < i \<and> i < length name - 1 then ToLower (drop i name) else [])"
    using Some by (simp add: name_extension_def)
  ultimately show ?thesis
    by (cases "0 < i \<and> i < length name - 1") (auto intro: that)
qed (simp add: that(1) name_extension_def)

lemma lower_char_nul: "lower_char c = nul \<longleftrightarrow> c = nul"
proof (cases "is_upper c")
  case True
  then have b: "of_char c + 32 < (256 :: nat)" "65 \<le> (of_char c :: nat)"
    by (auto simp: is_upper_def Let_def)
  then have "of_char (lower_char c) = (of_char c + 32 :: nat)"
    using True by (simp add: lower_char_def)
  then have "lower_char c \<noteq> nul" "c \<noteq> nul"
    using b by (auto simp: nul_def)
  then show ?thesis by simp
qed (simp add: lower_char_def)

lemma nul_ToLower: "nul \<in> set (ToLower s) \<longleftrightarrow> nul \<in> set s"
  unfolding ToLower_def by (induction s) (use lower_char_nul in \<open>simp_all, metis\<close>)

lemma nul_drop: "nul \<notin> set s \<Longrightarrow> nul \<notin> set (drop i s)"
  using in_set_dropD by fast

lemma nul_control: "control_char nul"
  by (simp add: control_char_def nul_def)

lemma meta_nul_free:
  "nul \<notin> set (Filename (NewScanMeta name))" "nul \<notin> set (Extension (NewScanMeta name))"
  "nul \<notin> set (FileType (NewScanMeta name))"
proof -
  have f: "nul \<notin> set (sanitized_name name)"
    using sanitized_name_chars nul_control by blast
  then show "nul \<notin> set (Filename (NewScanMeta name))"
    by simp
  show "nul \<notin> set (Extension (NewScanMeta name))"
    by (cases "sanitized_name name" rule: name_extension_cases) (simp_all add: nul_ToLower nul_drop f)
  show "nul \<notin> set (FileType (NewScanMeta name))"
    by (simp add: fileTypeFromExtension_def nul_def)
qed

section \<open>Key separation\<close>

lemma append_sep_eq:
  "x \<notin> set xs \<Longrightarrow> x \<notin> set ys \<Longrightarrow> xs @ x # s = ys @ x # t \<longleftrightarrow> xs = ys \<and> s = t"
proof (induction xs arbitrary: ys)
  case Nil
  then show ?case by (cases ys) auto
next
  case (Cons a xs)
  then show ?case by (cases ys) auto
qed

lemma nul_Itoa: "nul \<notin> set (Itoa i)"
  using Itoa_char_ge [of nul i] by (auto simp: nul_def)

lemma Itoa_tail_eq:
  assumes "s = [] \<or> (\<exists>s'. s = nul # s')" "t = [] \<or> (\<exists>t'. t = nul # t')"
  shows "Itoa i @ s = Itoa j @ t \<longleftrightarrow> i = j \<and> s = t"
proof -
  have "Itoa i \<noteq> Itoa j @ nul # t'" "Itoa i @ nul # t' \<noteq> Itoa j" for t'
    using nul_Itoa [of i] nul_Itoa [of j] by (metis in_set_conv_decomp)+
  then show ?thesis
    using assms append_sep_eq [OF nul_Itoa nul_Itoa, of i _ j] by (auto simp: Itoa_inj)
qed

lemma cacheKey_eq_iff:
  assumes "nul \<notin> set (Filename m)" "nul \<notin> set (Extension m)" "nul \<notin> set (FileType m)"
    and "nul \<notin> set (Filename m')" "nul \<notin> set (Extension m')" "nul \<notin> set (FileType m')"
  shows "cacheKey h m = cacheKey h m' \<longleftrightarrow>
    Filename m = Filename m' \<and> Extension m = Extension m' \<and> FileType m = FileType m' \<and> Effort m = Effort m' \<and>
    (PWCandidates m = [] \<longleftrightarrow> PWCandidates m' = []) \<and>
    (PWCandidates m \<noteq> [] \<longrightarrow> h (pw_encoding (PWCandidates m)) = h (pw_encoding (PWCandidates m')))"
proof -
  have form: "cacheKey h m = Filename m @ nul # Extension m @ nul # FileType m @ nul # Itoa (Effort m) @
      (if PWCandidates m = [] then [] else nul # ''pw:'' @ FormatHex (h (pw_encoding (PWCandidates m))))" for m
    by (simp add: cacheKey_def Let_def)
  show ?thesis
    unfolding form using assms by (auto simp: append_sep_eq Itoa_tail_eq FormatHex_inj)
qed

lemma length_be_bytes [simp]: "length (be_bytes n m) = n"
  by (induction n arbitrary: m) auto

lemma length_be64 [simp]: "length (be64 w) = 8"
  by (simp add: be64_def)

lemma be_bytes_inj: "be_bytes n a = be_bytes n b \<Longrightarrow> a mod 256 ^ n = b mod 256 ^ n"
proof (induction n arbitrary: a b)
  case (Suc n)
  then have "be_bytes n (a div 256) = be_bytes n (b div 256)" and c: "char_of (a mod 256) = (char_of (b mod 256) :: char)"
    by auto
  then have "(a div 256) mod 256 ^ n = (b div 256) mod 256 ^ n"
    by (intro Suc.IH)
  moreover have "a mod 256 = b mod 256"
    using arg_cong [OF c, of "of_char :: char \<Rightarrow> nat"] by simp
  ultimately show ?case
    by (simp add: mod_mult2_eq)
qed simp

lemma be64_inj: "be64 v = be64 w \<longleftrightarrow> v = w"
proof
  assume "be64 v = be64 w"
  then have "unat v mod 256 ^ 8 = unat w mod 256 ^ 8"
    unfolding be64_def by (rule be_bytes_inj)
  then show "v = w"
    using u64_bound [of v] u64_bound [of w] by (simp add: word_unat_eq_iff)
qed simp

lemma be64_append_eq: "be64 v @ s = be64 w @ t \<longleftrightarrow> v = w \<and> s = t"
  using append_eq_append_conv [of "be64 v" "be64 w" s t] by (simp add: be64_inj)

lemma of_nat_u64_eq: "a < 2 ^ 64 \<Longrightarrow> b < 2 ^ 64 \<Longrightarrow> (of_nat a :: u64) = of_nat b \<longleftrightarrow> a = b"
  using unat_of_nat_u64 by metis

definition pw_item :: "string \<Rightarrow> string" where
  "pw_item c = be64 (of_nat (length c)) @ c"

lemma pw_item_eq:
  assumes "length c < 2 ^ 64" "length d < 2 ^ 64"
  shows "pw_item c @ s = pw_item d @ t \<longleftrightarrow> c = d \<and> s = t"
proof -
  have "pw_item c @ s = pw_item d @ t \<longleftrightarrow> length c = length d \<and> c @ s = d @ t"
    using assms by (simp add: pw_item_def be64_append_eq of_nat_u64_eq)
  also have "\<dots> \<longleftrightarrow> c = d \<and> s = t"
    using append_eq_append_conv [of c d s t] by blast
  finally show ?thesis .
qed

lemma pw_items_inj:
  "length cs = length ds \<Longrightarrow> \<forall>c \<in> set cs \<union> set ds. length c < 2 ^ 64 \<Longrightarrow>
   concat (map pw_item cs) = concat (map pw_item ds) \<Longrightarrow> cs = ds"
  by (induction cs ds rule: list_induct2) (simp_all add: pw_item_eq)

lemma pw_encoding_inj:
  assumes "pw_encoding cs = pw_encoding ds" and "length cs < 2 ^ 64" "length ds < 2 ^ 64"
    and "\<forall>c \<in> set cs \<union> set ds. length c < 2 ^ 64"
  shows "cs = ds"
proof -
  have "pw_encoding cs = be64 (of_nat (length cs)) @ concat (map pw_item cs)" for cs
    by (simp add: pw_encoding_def pw_item_def [abs_def])
  with assms(1-3) have "length cs = length ds" "concat (map pw_item cs) = concat (map pw_item ds)"
    by (simp_all add: be64_append_eq of_nat_u64_eq)
  then show ?thesis
    using assms(4) pw_items_inj by blast
qed

section \<open>Password candidates\<close>

lemma dedup_loop_out: "dedup_loop seen (out @ xs) cs = out @ dedup_loop seen xs cs"
  by (induction cs arbitrary: seen xs) (simp_all add: Let_def)

lemma dedup_loop_prefix: "dedup_loop seen out cs = out @ dedup_loop seen [] cs"
  using dedup_loop_out [of seen out "[]" cs] by simp

lemma cap_loop_spec:
  assumes "cap_loop seen out cs = (seen', out', stop)" and "length out \<le> maxEffectivePWCandidates"
  shows "length out' \<le> maxEffectivePWCandidates \<and>
    (if stop then length out' = maxEffectivePWCandidates \<and> (\<forall>rest. \<exists>ys. dedup_loop seen out (cs @ rest) = out' @ ys)
     else (\<forall>rest. dedup_loop seen out (cs @ rest) = dedup_loop seen' out' rest))"
  using assms
proof (induction cs arbitrary: seen out)
  case (Cons c cs)
  show ?case
  proof (cases "length out = maxEffectivePWCandidates")
    case True
    have "\<forall>rest. \<exists>ys. dedup_loop seen out ((c # cs) @ rest) = out @ ys"
      using dedup_loop_prefix by blast
    with True Cons.prems show ?thesis
      by (auto simp del: dedup_loop.simps)
  next
    case False
    then show ?thesis
      using Cons.prems Cons.IH [of seen out] Cons.IH [of "TrimSpace c # seen" "out @ [TrimSpace c]"]
      by (auto simp: Let_def split: if_splits)
  qed
qed auto

lemma cap_lists_spec:
  "length out \<le> maxEffectivePWCandidates \<Longrightarrow>
   cap_lists seen out ls = take maxEffectivePWCandidates (dedup_loop seen out (concat ls))"
proof (induction ls arbitrary: seen out)
  case (Cons l ls)
  obtain seen' out' stop where eq: "cap_loop seen out l = (seen', out', stop)"
    by (cases "cap_loop seen out l")
  note spec = cap_loop_spec [OF eq Cons.prems]
  show ?case
  proof (cases stop)
    case True
    with spec obtain ys where "dedup_loop seen out (l @ concat ls) = out' @ ys"
      and "length out' = maxEffectivePWCandidates"
      by auto
    with True eq show ?thesis by simp
  next
    case False
    with spec have "dedup_loop seen out (l @ concat ls) = dedup_loop seen' out' (concat ls)"
      and "length out' \<le> maxEffectivePWCandidates"
      by auto
    with False eq Cons.IH show ?thesis by simp
  qed
qed simp

lemma dedup_loop_set:
  "set (dedup_loop seen out cs) = set out \<union> (TrimSpace ` set cs - {[]} - set seen)"
  by (induction cs arbitrary: seen out) (auto simp: Let_def)

lemma dedup_loop_distinct:
  "distinct out \<Longrightarrow> set out \<subseteq> set seen \<Longrightarrow> distinct (dedup_loop seen out cs)"
proof (induction cs arbitrary: seen out)
  case (Cons c cs)
  have "distinct (dedup_loop (TrimSpace c # seen) (out @ [TrimSpace c]) cs)" if "TrimSpace c \<notin> set seen"
    using Cons.prems that by (intro Cons.IH) auto
  with Cons show ?case
    by (simp add: Let_def)
qed simp

definition token_ok :: "string \<Rightarrow> bool" where
  "token_ok t \<longleftrightarrow> 3 \<le> length t \<and> length t \<le> 32"

lemma token_loop_Cons:
  "token_loop out (tok # toks) =
     (if token_ok tok
      then (if length out + 1 \<ge> maxFilenameTokens then out @ [tok] else token_loop (out @ [tok]) toks)
      else token_loop out toks)"
  by (simp add: token_ok_def Let_def)

lemma token_loop_filter: "length out < maxFilenameTokens \<Longrightarrow>
   token_loop out toks = take maxFilenameTokens (out @ filter token_ok toks)"
proof (induction toks arbitrary: out)
  case (Cons tok toks)
  show ?case
  proof (cases "token_ok tok \<and> length out + 1 < maxFilenameTokens")
    case True
    then have "token_loop (out @ [tok]) toks = take maxFilenameTokens ((out @ [tok]) @ filter token_ok toks)"
      by (intro Cons.IH) simp
    with True show ?thesis
      by (simp add: token_loop_Cons del: token_loop.simps)
  next
    case False
    moreover have "maxFilenameTokens - length out = 1" if "\<not> length out + 1 < maxFilenameTokens"
      using that Cons.prems by linarith
    ultimately show ?thesis
      using Cons by (cases "token_ok tok") (auto simp: token_loop_Cons simp del: token_loop.simps)
  qed
qed simp

lemma fields_loop_chars:
  "\<forall>c \<in> set cur. \<not> sep c \<Longrightarrow> f \<in> set (fields_loop sep cur s) \<Longrightarrow> \<forall>c \<in> set f. \<not> sep c"
proof (induction s arbitrary: cur)
  case Nil
  then show ?case by (simp split: if_splits)
next
  case (Cons a s)
  have "\<forall>c \<in> set f. \<not> sep c" if "f \<in> set (fields_loop sep [] s)"
    using Cons.IH [of "[]"] that by simp
  moreover have "\<forall>c \<in> set f. \<not> sep c" if "\<not> sep a" "f \<in> set (fields_loop sep (cur @ [a]) s)"
    using Cons.IH [of "cur @ [a]"] Cons.prems that by simp
  ultimately show ?case
    using Cons.prems by (auto split: if_splits)
qed

lemma filenameTokens_bounds:
  "length (filenameTokens name) \<le> maxFilenameTokens"
  "t \<in> set (filenameTokens name) \<Longrightarrow> 3 \<le> length t \<and> length t \<le> 32 \<and> (\<forall>c \<in> set t. \<not> token_sep c)"
proof -
  have eq: "token_loop [] toks = take maxFilenameTokens (filter token_ok toks)" for toks
    using token_loop_filter [of "[]" toks] by (simp add: maxFilenameTokens_def)
  show "length (filenameTokens name) \<le> maxFilenameTokens"
    by (simp add: filenameTokens_def Let_def eq)
  assume "t \<in> set (filenameTokens name)"
  then obtain s where "t \<in> set (take maxFilenameTokens (filter token_ok (fields_loop token_sep [] s)))"
    by (simp only: filenameTokens_def Let_def eq FieldsFunc_def split: if_splits) auto
  then have "t \<in> set (filter token_ok (fields_loop token_sep [] s))"
    by (rule in_set_takeD)
  then show "3 \<le> length t \<and> length t \<le> 32 \<and> (\<forall>c \<in> set t. \<not> token_sep c)"
    using fields_loop_chars [of "[]" token_sep t s] by (auto simp: token_ok_def)
qed

section \<open>Properties\<close>


text \<open>
  (C33) The cache key separates scans that may differ: for two sanitized names and any
  efforts and candidate passwords, the keys agree exactly when name, extension, type,
  effort and the ordered candidate list agree, provided the 64-bit hash does not collide on
  the two candidate encodings. The encoding itself never identifies two lists.
\<close>

theorem cacheKey_separates:
  assumes "m = (NewScanMeta name)\<lparr>Effort := e, PWCandidates := cs\<rparr>"
    and "m' = (NewScanMeta name')\<lparr>Effort := e', PWCandidates := cs'\<rparr>"
    and "length cs < 2 ^ 64" and "length cs' < 2 ^ 64"
    and "\<forall>c \<in> set cs \<union> set cs'. length c < 2 ^ 64"
    and "xxhash (pw_encoding cs) = xxhash (pw_encoding cs') \<Longrightarrow> pw_encoding cs = pw_encoding cs'"
  shows "cacheKey xxhash m = cacheKey xxhash m' \<longleftrightarrow>
    Filename m = Filename m' \<and> Extension m = Extension m' \<and> FileType m = FileType m' \<and> e = e' \<and> cs = cs'"
proof -
  have "cs = cs'" if "xxhash (pw_encoding cs) = xxhash (pw_encoding cs')"
    using pw_encoding_inj [OF assms(6) [OF that] assms(3-5)] .
  then show ?thesis
    using meta_nul_free [of name] meta_nul_free [of name'] unfolding assms(1,2)
    by (subst cacheKey_eq_iff) auto
qed

theorem cacheKey_separates_witness:
  "cacheKey (\<lambda>s. of_nat (length s)) ((NewScanMeta ''a.zip'')\<lparr>Effort := 3, PWCandidates := [''pw'', ''x'']\<rparr>) \<noteq>
   cacheKey (\<lambda>s. of_nat (length s)) ((NewScanMeta ''a.zip'')\<lparr>Effort := 3, PWCandidates := [''pw'']\<rparr>)"
proof -
  have "(of_nat (length (pw_encoding [''pw'', ''x''])) :: u64) \<noteq> of_nat (length (pw_encoding [''pw'']))"
    by (simp add: pw_encoding_def)
  then show ?thesis
    using cacheKey_separates [OF refl refl, where cs = "[''pw'', ''x'']" and cs' = "[''pw'']"
        and xxhash = "\<lambda>s. of_nat (length s)" and name = "''a.zip''" and name' = "''a.zip''" and e = 3 and e' = 3]
    by simp
qed

text \<open>
  (C34) The early-exit candidate merge equals its reference: the result is the
  deduplicated concatenation of the lists cut at the cap, so it has no duplicates and no
  blank entry and keeps the order of the lists. The names a message contributes are
  bounded in number and size.
\<close>

theorem capDedupCandidates_reference:
  "capDedupCandidates ls = take maxEffectivePWCandidates (dedupCandidates (concat ls)) \<and>
   distinct (capDedupCandidates ls) \<and> [] \<notin> set (capDedupCandidates ls) \<and>
   set (dedupCandidates (concat ls)) = TrimSpace ` set (concat ls) - {[]} \<and>
   length (filenameTokens name) \<le> maxFilenameTokens"
proof -
  have eq: "capDedupCandidates ls = take maxEffectivePWCandidates (dedupCandidates (concat ls))"
    unfolding capDedupCandidates_def dedupCandidates_def by (rule cap_lists_spec) simp
  have s: "set (dedupCandidates (concat ls)) = TrimSpace ` set (concat ls) - {[]}"
    unfolding dedupCandidates_def dedup_loop_set by simp
  have "distinct (dedupCandidates (concat ls))"
    unfolding dedupCandidates_def by (rule dedup_loop_distinct) simp_all
  moreover have "[] \<notin> set (capDedupCandidates ls)"
    using s in_set_takeD [of "[]" maxEffectivePWCandidates "dedupCandidates (concat ls)"] by (auto simp: eq)
  ultimately show ?thesis
    using eq s filenameTokens_bounds(1) by (simp add: distinct_take)
qed


section \<open>Renamed containers\<close>

text \<open>The kind a recovered container is reported under, when its extension is not one it may carry.\<close>

definition rename_kind :: "extraction \<Rightarrow> string \<Rightarrow> string option" where
  "rename_kind res ext =
     (if IsRTF res then (if ext = ''.rtf'' \<or> ext = ''.doc'' then None else Some ''rtf'')
      else if IsMSI res then (if ext = ''.msi'' \<or> ext = ''.msp'' then None else Some ''msi'')
      else if IsLNK res then (if ext = ''.lnk'' then None else Some ''lnk'')
      else if IsOneNote res then (if ext = ''.one'' \<or> ext = ''.onepkg'' then None else Some ''onenote'')
      else if IsOLEPackage res then Some ''ole-package''
      else if IsDoc res then
        (if isOfficeExt ext then None
         else if topTypeOwnExt (TopType res) = Some ext then None
         else Some ''office-doc'')
      else None)"

lemma extMismatch_kind:
  "extMismatch res ext =
     (if ext = [] then []
      else case rename_kind res (ToLower ext) of None \<Rightarrow> [] | Some k \<Rightarrow> flag_coat k (ToLower ext))"
  by (simp only: extMismatch_def rename_kind_def Let_def option.case
      if_distrib [where f = "\<lambda>x. case_option _ _ x"] cong: if_cong)

lemma extMismatch_iff:
  "extMismatch res ext \<noteq> [] \<longleftrightarrow>
     ext \<noteq> [] \<and> ToLower ext \<in> set benignExts \<and> rename_kind res (ToLower ext) \<noteq> None"
  by (simp add: extMismatch_kind flag_coat_def split: option.splits)

lemma extMismatch_case_insensitive: "extMismatch res (ToLower ext) = extMismatch res ext"
  by (simp add: extMismatch_kind ToLower_eq_Nil cong: option.case_cong)

end
