(* ===== verification/Strix_Matches.thy ===== *)
theory Strix_Matches
  imports Strix_Prelude
begin

text \<open>
  Match sets and the verdict drawn from them: the scanner's \<^verbatim>\<open>Match\<close>
  (\<^verbatim>\<open>src/internal/mailstrix/scanner.go\<close>) with the deny, allow, canary and degraded
  handling every scan result passes through, and the clients' reading of the
  response (\<^verbatim>\<open>src/internal/verdict/verdict.go\<close>). A \<^verbatim>\<open>map[string]string\<close> is \<open>None\<close> when
  nil and otherwise an association list; \<open>meta_get\<close> is Go's map read, which yields
  the empty string for an absent key and for a nil map.
\<close>

section \<open>Matches\<close>

type_synonym gometa = "(string \<times> string) list option"

record Match =
  Rule :: string
  Namespace :: string
  Tags :: "string gslice"
  Meta :: gometa

definition meta_get :: "gometa \<Rightarrow> string \<Rightarrow> string" where
  "meta_get m k = (case m of None \<Rightarrow> '''' | Some kvs \<Rightarrow> (case map_of kvs k of None \<Rightarrow> '''' | Some v \<Rightarrow> v))"

definition meta_set :: "gometa \<Rightarrow> string \<Rightarrow> string \<Rightarrow> gometa" where
  "meta_set m k v = Some (AList.update k v (case m of None \<Rightarrow> [] | Some kvs \<Rightarrow> kvs))"

definition scanIncompleteRule :: string where
  "scanIncompleteRule = ''MAILSTRIX_SCAN_INCOMPLETE''"

definition scanIncompleteMatch :: Match where
  "scanIncompleteMatch =
     \<lparr>Rule = scanIncompleteRule, Namespace = '''', Tags = lit [''scan-incomplete''],
      Meta = Some [(''description'',
                    ''SCAN-INCOMPLETE: not every extracted stream was scanned (budget, scan error or extractor panic)''),
                   (''mailstrix_allow'', ''1'')]\<rparr>"

definition scanDegradedRule :: string where
  "scanDegradedRule = ''MAILSTRIX_SCAN_DEGRADED''"

definition degradedIncomplete :: string where "degradedIncomplete = ''incomplete''"
definition degradedError :: string where "degradedError = ''error''"
definition degradedBusy :: string where "degradedBusy = ''busy''"

definition scanDegradedMatch :: "string \<Rightarrow> Match" where
  "scanDegradedMatch reason =
     \<lparr>Rule = scanDegradedRule, Namespace = '''', Tags = lit [''scan-degraded''],
      Meta = Some [(''description'', ''SCAN-DEGRADED: no complete verdict ('' @ reason @ '')''),
                   (''reason'', reason),
                   (''mailstrix_allow'', ''1'')]\<rparr>"

fun degradedReason :: "Match list \<Rightarrow> string" where
  "degradedReason [] = ''''"
| "degradedReason (m # ms) =
     (if Rule m = scanDegradedRule
      then (let r = meta_get (Meta m) ''reason'' in if r \<noteq> '''' then r else degradedError)
      else if Rule m = scanIncompleteRule then degradedIncomplete
      else degradedReason ms)"

section \<open>Deny, allow and canary lists\<close>

text \<open>A deny or allow list is a set of names, held as the list of its elements.\<close>

fun filterDenied_loop :: "string list \<Rightarrow> Match list \<Rightarrow> Match list \<Rightarrow> Match list" where
  "filterDenied_loop deny out [] = out"
| "filterDenied_loop deny out (m # ms) =
     (if ToLower (Rule m) \<in> set deny then filterDenied_loop deny out ms
      else filterDenied_loop deny (out @ [m]) ms)"

definition filterDenied :: "Match list \<Rightarrow> string list option \<Rightarrow> Match list" where
  "filterDenied ms deny =
     (case deny of
        None \<Rightarrow> ms
      | Some ds \<Rightarrow> if ds = [] \<or> ms = [] then ms else filterDenied_loop ds [] ms)"

definition tag_match :: "string list \<Rightarrow> bool \<Rightarrow> Match \<Rightarrow> Match" where
  "tag_match allowlist canary m =
     (let allow = ToLower (Rule m) \<in> set allowlist
      in if \<not> allow \<and> \<not> canary then m
         else (let m1 = (if Meta m = None then m\<lparr>Meta := Some []\<rparr> else m);
                   m2 = (if allow then m1\<lparr>Meta := meta_set (Meta m1) ''mailstrix_allow'' ''1''\<rparr> else m1)
               in if canary then m2\<lparr>Meta := meta_set (Meta m2) ''mailstrix_canary'' ''1''\<rparr> else m2))"

definition applyResponseTags :: "string list \<Rightarrow> bool \<Rightarrow> Match list \<Rightarrow> Match list" where
  "applyResponseTags allowlist canary ms =
     (if ms = [] \<or> (allowlist = [] \<and> \<not> canary) then ms else map (tag_match allowlist canary) ms)"

definition matchIsLogOnly :: "Match \<Rightarrow> bool" where
  "matchIsLogOnly m \<longleftrightarrow>
     Meta m \<noteq> None \<and>
     (meta_get (Meta m) ''mailstrix_canary'' = ''1'' \<or> meta_get (Meta m) ''mailstrix_allow'' = ''1'')"

fun hasActionable :: "Match list \<Rightarrow> bool" where
  "hasActionable [] = False"
| "hasActionable (m # ms) = (if \<not> matchIsLogOnly m then True else hasActionable ms)"

text \<open>
  The loop of \<open>actionableMatches\<close> with its lazily allocated result: \<open>None\<close> until the
  first log-only match, which copies the prefix already passed.
\<close>

fun actionable_loop :: "('m \<Rightarrow> bool) \<Rightarrow> 'm list \<Rightarrow> nat \<Rightarrow> 'm list option \<Rightarrow> 'm list \<Rightarrow> 'm list option" where
  "actionable_loop logonly ms i out [] = out"
| "actionable_loop logonly ms i out (m # rest) =
     (if logonly m
      then actionable_loop logonly ms (i + 1) (case out of None \<Rightarrow> Some (take i ms) | Some xs \<Rightarrow> Some xs) rest
      else actionable_loop logonly ms (i + 1) (case out of None \<Rightarrow> None | Some xs \<Rightarrow> Some (xs @ [m])) rest)"

definition actionableMatches :: "Match list \<Rightarrow> Match list" where
  "actionableMatches ms =
     (if ms = [] then []
      else (case actionable_loop matchIsLogOnly ms 0 None ms of None \<Rightarrow> ms | Some out \<Rightarrow> out))"

section \<open>The clients' verdict\<close>

record VMatch =
  VRule :: string
  VNamespace :: string
  VMeta :: gometa

record Verdict =
  Malicious :: bool
  Family :: string
  Confidence :: string
  Rules :: "string list"

definition familyMetaKeys :: "string list" where
  "familyMetaKeys = [''family'', ''malware_family'', ''actor'']"

definition isLogOnly :: "VMatch \<Rightarrow> bool" where
  "isLogOnly m =
     (if VMeta m = None then False
      else meta_get (VMeta m) ''mailstrix_canary'' = ''1'' \<or> meta_get (VMeta m) ''mailstrix_allow'' = ''1'')"

definition Actionable :: "VMatch list \<Rightarrow> VMatch list" where
  "Actionable ms =
     (if ms = [] then []
      else (case actionable_loop isLogOnly ms 0 None ms of None \<Rightarrow> ms | Some out \<Rightarrow> out))"

fun familyOf_loop :: "string list \<Rightarrow> VMatch \<Rightarrow> string" where
  "familyOf_loop [] m = ''''"
| "familyOf_loop (k # ks) m =
     (let v = TrimSpace (meta_get (VMeta m) k) in if v \<noteq> '''' then v else familyOf_loop ks m)"

definition familyOf :: "VMatch \<Rightarrow> string" where
  "familyOf m = familyOf_loop familyMetaKeys m"

fun For_loop :: "Verdict \<Rightarrow> VMatch list \<Rightarrow> Verdict" where
  "For_loop v [] = v"
| "For_loop v (m # ms) =
     (let v1 = v\<lparr>Malicious := True, Rules := Rules v @ [VRule m]\<rparr>;
          v2 = (if Family v1 = ''''
                then (let fam = familyOf m in if fam \<noteq> '''' then v1\<lparr>Family := fam\<rparr> else v1)
                else v1)
      in For_loop v2 ms)"

definition For :: "VMatch list \<Rightarrow> Verdict" where
  "For ms =
     (let v = For_loop \<lparr>Malicious = False, Family = '''', Confidence = '''', Rules = []\<rparr> ms
      in if Family v \<noteq> '''' then v\<lparr>Confidence := ''family''\<rparr>
         else if Malicious v then v\<lparr>Confidence := ''rule''\<rparr>
         else v)"

text \<open>What a client decodes of a server match: the JSON fields rule, namespace and meta.\<close>

definition client_view :: "Match \<Rightarrow> VMatch" where
  "client_view m = \<lparr>VRule = Rule m, VNamespace = Namespace m, VMeta = Meta m\<rparr>"

section \<open>The loops compute filters\<close>

lemma actionable_loop_Some:
  "actionable_loop lo ms i (Some xs) rest = Some (xs @ filter (\<lambda>m. \<not> lo m) rest)"
  by (induction rest arbitrary: i xs) auto

lemma actionable_loop_None:
  assumes "take i ms = pre" and "ms = pre @ rest" and "\<forall>m \<in> set pre. \<not> lo m"
  shows "(case actionable_loop lo ms i None rest of None \<Rightarrow> ms | Some out \<Rightarrow> out) = filter (\<lambda>m. \<not> lo m) ms"
  using assms
proof (induction rest arbitrary: i pre)
  case Nil
  then show ?case by simp
next
  case (Cons m rest)
  have i: "i = length pre"
    using Cons.prems(1,2) by (auto dest: arg_cong [where f = length] simp: min_def split: if_splits)
  show ?case
  proof (cases "lo m")
    case True
    then show ?thesis
      using Cons.prems by (simp add: actionable_loop_Some)
  next
    case False
    have "(case actionable_loop lo ms (i + 1) None rest of None \<Rightarrow> ms | Some out \<Rightarrow> out)
          = filter (\<lambda>m. \<not> lo m) ms"
      using Cons.prems False i by (intro Cons.IH [of "i + 1" "pre @ [m]"]) auto
    with False show ?thesis by simp
  qed
qed

lemma actionable_loop_filter:
  "(case actionable_loop lo ms 0 None ms of None \<Rightarrow> ms | Some out \<Rightarrow> out) = filter (\<lambda>m. \<not> lo m) ms"
  by (rule actionable_loop_None [of 0 ms "[]"]) simp_all

lemma actionableMatches_filter: "actionableMatches ms = filter (\<lambda>m. \<not> matchIsLogOnly m) ms"
  by (simp add: actionableMatches_def actionable_loop_filter)

lemma Actionable_filter: "Actionable ms = filter (\<lambda>m. \<not> isLogOnly m) ms"
  by (simp add: Actionable_def actionable_loop_filter)

lemma isLogOnly_client_view [simp]: "isLogOnly (client_view m) = matchIsLogOnly m"
  by (auto simp: isLogOnly_def matchIsLogOnly_def client_view_def)

lemma VRule_client_view [simp]: "VRule (client_view m) = Rule m"
  by (simp add: client_view_def)

lemma hasActionable_ex: "hasActionable ms \<longleftrightarrow> (\<exists>m \<in> set ms. \<not> matchIsLogOnly m)"
  by (induction ms) auto

lemma filterDenied_loop_filter:
  "filterDenied_loop ds out ms = out @ filter (\<lambda>m. ToLower (Rule m) \<notin> set ds) ms"
  by (induction ms arbitrary: out) auto

lemma filterDenied_filter:
  "filterDenied ms deny = filter (\<lambda>m. \<forall>ds. deny = Some ds \<longrightarrow> ToLower (Rule m) \<notin> set ds) ms"
  by (auto simp: filterDenied_def filterDenied_loop_filter split: option.splits)

section \<open>Tagging and the verdict\<close>

lemma meta_get_set [simp]: "meta_get (meta_set m k v) k' = (if k' = k then v else meta_get m k')"
  by (auto simp: meta_get_def meta_set_def update_conv' split: option.splits)

lemma meta_set_not_None [simp]: "meta_set m k v \<noteq> None"
  by (simp add: meta_set_def)

lemma Rule_tag_match [simp]: "Rule (tag_match al c m) = Rule m"
  by (simp add: tag_match_def Let_def)

lemma tag_match_plain: "al = [] \<Longrightarrow> tag_match al False m = m"
  by (simp add: tag_match_def)

lemma applyResponseTags_map: "applyResponseTags al c ms = map (tag_match al c) ms"
  by (auto simp: applyResponseTags_def tag_match_plain map_idI)

lemma meta_get_empty [simp]: "meta_get None k = []" "meta_get (Some []) k = []"
  by (simp_all add: meta_get_def)

lemma matchIsLogOnly_alt:
  "matchIsLogOnly m \<longleftrightarrow>
     meta_get (Meta m) ''mailstrix_canary'' = ''1'' \<or> meta_get (Meta m) ''mailstrix_allow'' = ''1''"
  by (cases "Meta m") (simp_all add: matchIsLogOnly_def)

lemma logonly_tag_match:
  "matchIsLogOnly (tag_match al c m) \<longleftrightarrow> c \<or> ToLower (Rule m) \<in> set al \<or> matchIsLogOnly m"
  by (auto simp: tag_match_def Let_def matchIsLogOnly_alt)

lemma map_Rule_actionable_tags:
  "map Rule (filter (\<lambda>m. \<not> matchIsLogOnly m) (map (tag_match al c) ms)) =
   map Rule (filter (\<lambda>m. \<not> (c \<or> ToLower (Rule m) \<in> set al \<or> matchIsLogOnly m)) ms)"
  by (induction ms) (auto simp: logonly_tag_match)

lemma degradedReason_append:
  "degradedReason (xs @ ys) = (if degradedReason xs \<noteq> '''' then degradedReason xs else degradedReason ys)"
  by (induction xs) (auto simp: Let_def degradedError_def degradedIncomplete_def)

lemma scanIncomplete_logonly [simp]: "matchIsLogOnly scanIncompleteMatch"
  by (simp add: matchIsLogOnly_def scanIncompleteMatch_def meta_get_def)

lemma scanDegraded_logonly [simp]: "matchIsLogOnly (scanDegradedMatch r)"
  by (simp add: matchIsLogOnly_def scanDegradedMatch_def meta_get_def)

lemma degradedReason_incomplete [simp]: "degradedReason [scanIncompleteMatch] = degradedIncomplete"
  by (simp add: scanIncompleteMatch_def scanIncompleteRule_def scanDegradedRule_def)

lemma degradedReason_degraded [simp]:
  "degradedReason [scanDegradedMatch r] = (if r = '''' then degradedError else r)"
  by (simp add: scanDegradedMatch_def scanDegradedRule_def meta_get_def Let_def)

lemma degradedReason_empty:
  "degradedReason ms = '''' \<longleftrightarrow> (\<forall>m \<in> set ms. Rule m \<noteq> scanDegradedRule \<and> Rule m \<noteq> scanIncompleteRule)"
  by (induction ms) (auto simp: Let_def degradedError_def degradedIncomplete_def)

text \<open>The first family any match names, in match order.\<close>

fun first_family :: "VMatch list \<Rightarrow> string" where
  "first_family [] = ''''"
| "first_family (m # ms) = (if familyOf m \<noteq> '''' then familyOf m else first_family ms)"

lemma For_loop_spec:
  "For_loop v ms =
     v\<lparr>Malicious := Malicious v \<or> ms \<noteq> [],
       Family := (if Family v \<noteq> '''' then Family v else first_family ms),
       Rules := Rules v @ map VRule ms\<rparr>"
  by (induction ms arbitrary: v) (auto simp: Let_def)

lemma For_spec:
  "For ms =
     \<lparr>Malicious = (ms \<noteq> []), Family = first_family ms,
      Confidence = (if first_family ms \<noteq> '''' then ''family'' else if ms \<noteq> [] then ''rule'' else ''''),
      Rules = map VRule ms\<rparr>"
  by (simp add: For_def For_loop_spec Let_def)

section \<open>Properties\<close>

text \<open>
  (C30) Server and clients agree on what is actionable: dropping the log-only matches
  before or after the response is decoded gives the same matches, the client's verdict is
  malicious exactly when the server has an actionable match, and the verdict lists
  the actionable rules in match order with the first family one of them names.
\<close>

theorem client_verdict_agrees_with_server:
  "map client_view (actionableMatches ms) = Actionable (map client_view ms) \<and>
   Malicious (For (Actionable (map client_view ms))) = hasActionable ms \<and>
   Rules (For (Actionable (map client_view ms))) = map Rule (filter (\<lambda>m. \<not> matchIsLogOnly m) ms) \<and>
   Family (For (Actionable (map client_view ms))) = first_family (map client_view (actionableMatches ms))"
proof -
  have "map client_view (filter (\<lambda>m. \<not> matchIsLogOnly m) ms) =
        filter (\<lambda>m. \<not> isLogOnly m) (map client_view ms)"
    by (simp add: filter_map o_def)
  then show ?thesis
    by (auto simp: actionableMatches_filter Actionable_filter For_spec hasActionable_ex
        filter_map o_def filter_empty_conv)
qed

text \<open>
  (C31) The rules a scan result lets anyone act on: after the deny list and the response
  tags, exactly the matches that are neither denied nor allowlisted (compared without
  case) nor already log-only, in their original order; in canary mode, none. Tagging
  neither adds, drops nor reorders matches.
\<close>

theorem response_policy_exact:
  "map Rule (actionableMatches (applyResponseTags allowlist canary (filterDenied ms (Some deny)))) =
     (if canary then []
      else map Rule (filter (\<lambda>m. ToLower (Rule m) \<notin> set deny \<and> ToLower (Rule m) \<notin> set allowlist \<and>
                                \<not> matchIsLogOnly m) ms)) \<and>
   map Rule (applyResponseTags allowlist canary (filterDenied ms (Some deny))) =
     map Rule (filter (\<lambda>m. ToLower (Rule m) \<notin> set deny) ms)"
  by (auto simp: actionableMatches_filter applyResponseTags_map map_Rule_actionable_tags
      filterDenied_filter o_def intro!: arg_cong [where f = "map Rule"] filter_cong)

end
