(* ===== verification/Go_Float.thy ===== *)
theory Go_Float
  imports Strix_Prelude Complex_Main "HOL-Library.Log_Nat"
begin

text \<open>
  Go's \<^verbatim>\<open>float64\<close> arithmetic on non-negative values: every operation is the exact
  rational result rounded to 53 significant bits, to nearest, ties to even. Values of
  the programs modelled here stay between \<open>2 ^ -100\<close> and \<open>2 ^ 70\<close>, or are \<open>0\<close>, so the
  exponent range of the format is not a concern. The language lets a compiler fuse
  \<^verbatim>\<open>x * y + z\<close> into one rounding; the argument \<open>fused\<close> is the target's choice.
  What the clients need of the rounding is the locale \<open>float_rounding\<close>.
\<close>

section \<open>Rounding\<close>

definition pow2 :: "int \<Rightarrow> rat" where
  "pow2 e = (if 0 \<le> e then 2 ^ nat e else 1 / 2 ^ nat (- e))"

definition bin_exp :: "rat \<Rightarrow> int" where
  "bin_exp x =
     (case quotient_of x of (p, q) \<Rightarrow>
        let e = int (floorlog 2 (nat p)) - int (floorlog 2 (nat q))
        in if pow2 e \<le> x then e else e - 1)"

definition round_half_even :: "rat \<Rightarrow> int" where
  "round_half_even x =
     (let n = \<lfloor>x\<rfloor>; d = x - of_int n
      in if d < 1 / 2 then n else if d > 1 / 2 then n + 1 else if even n then n else n + 1)"

definition rnd64 :: "rat \<Rightarrow> rat" where
  "rnd64 x =
     (if x \<le> 0 then 0
      else (let e = bin_exp x - 52 in of_int (round_half_even (x / pow2 e)) * pow2 e))"

definition float64_of_int :: "int \<Rightarrow> rat" where
  "float64_of_int n = rnd64 (of_int n)"

definition fdiv :: "rat \<Rightarrow> rat \<Rightarrow> rat" where
  "fdiv a b = rnd64 (a / b)"

definition fmul :: "rat \<Rightarrow> rat \<Rightarrow> rat" where
  "fmul a b = rnd64 (a * b)"

definition fadd :: "rat \<Rightarrow> rat \<Rightarrow> rat" where
  "fadd a b = rnd64 (a + b)"

definition fmuladd :: "bool \<Rightarrow> rat \<Rightarrow> rat \<Rightarrow> rat \<Rightarrow> rat" where
  "fmuladd fused a b c = (if fused then rnd64 (a * b + c) else fadd (fmul a b) c)"

definition int_of_float :: "rat \<Rightarrow> int" where
  "int_of_float x = \<lfloor>x\<rfloor>"

section \<open>Rounding to an integer\<close>

lemma round_half_even_of_int [simp]: "round_half_even (of_int n) = n"
  by (simp add: round_half_even_def Let_def)

lemma round_half_even_bounds: "\<lfloor>x\<rfloor> \<le> round_half_even x \<and> round_half_even x \<le> \<lfloor>x\<rfloor> + 1"
  by (simp add: round_half_even_def Let_def)

lemma round_half_even_mono:
  assumes "x \<le> y"
  shows "round_half_even x \<le> round_half_even y"
proof (cases "\<lfloor>x\<rfloor> = \<lfloor>y\<rfloor>")
  case True
  then show ?thesis
    using assms by (auto simp: round_half_even_def Let_def)
next
  case False
  then have "\<lfloor>x\<rfloor> + 1 \<le> \<lfloor>y\<rfloor>"
    using floor_mono [OF assms] by linarith
  then show ?thesis
    using round_half_even_bounds [of x] round_half_even_bounds [of y] by linarith
qed

section \<open>Binary exponents\<close>

lemma pow2_pos [simp]: "0 < pow2 e"
  by (simp add: pow2_def)

lemma pow2_nz [simp]: "pow2 e \<noteq> 0"
  by (simp add: pow2_def)

lemma pow2_nonneg [simp]: "0 \<le> pow2 e"
  by (simp add: pow2_def)

lemma pow2_powi: "pow2 e = power_int 2 e"
  unfolding pow2_def power_int_def by (simp add: field_simps)

lemma pow2_add: "pow2 (a + b) = pow2 a * pow2 b"
  by (simp add: pow2_powi power_int_add)

lemma pow2_mono: "a \<le> b \<Longrightarrow> pow2 a \<le> pow2 b"
  by (simp add: pow2_powi power_int_increasing)

lemma pow2_nat: "pow2 (int n) = 2 ^ n"
  by (simp add: pow2_def)

lemma pow2_shift: "pow2 (int n + e) = of_int (2 ^ n) * pow2 e"
  by (simp add: pow2_add pow2_nat)

lemma pow2_less: "a < b \<Longrightarrow> pow2 a < pow2 b"
  by (simp add: pow2_powi power_int_strict_increasing)

lemma pow2_strict: "pow2 a < pow2 b \<Longrightarrow> a < b"
  using pow2_mono [of b a] by linarith

lemma floorlog_pos:
  assumes "0 < n"
  shows "2 ^ (floorlog 2 n - 1) \<le> n" and "n < 2 ^ floorlog 2 n" and "0 < floorlog 2 n"
  using floorlog_bounds [of n 2] assms by (auto simp: floorlog_def)

lemma int_floorlog:
  assumes "0 < p"
  shows "pow2 (int (floorlog 2 (nat p)) - 1) \<le> of_int p" and "of_int p < pow2 (int (floorlog 2 (nat p)))"
proof -
  let ?a = "floorlog 2 (nat p)"
  have p: "0 < nat p"
    using assms by simp
  note fl = floorlog_pos [OF p]
  have "int ?a - 1 = int (?a - 1)"
    using fl(3) by simp
  moreover have "(2 :: rat) ^ (?a - 1) = of_nat (2 ^ (?a - 1))"
    by simp
  moreover have "of_nat (2 ^ (?a - 1)) \<le> (of_nat (nat p) :: rat)"
    using fl(1) by (simp only: of_nat_le_iff)
  ultimately show "pow2 (int ?a - 1) \<le> of_int p"
    using assms by (simp only: pow2_nat of_nat_nat)
  have "of_nat (nat p) < (of_nat (2 ^ ?a) :: rat)"
    using fl(2) by (simp only: of_nat_less_iff)
  then show "of_int p < pow2 (int ?a)"
    using assms by (simp add: pow2_nat)
qed

lemma bin_exp_bounds:
  assumes "0 < x"
  shows "pow2 (bin_exp x) \<le> x" and "x < pow2 (bin_exp x + 1)"
proof -
  obtain p q where pq: "quotient_of x = (p, q)"
    by fastforce
  then have q: "0 < q" and x: "x = of_int p / of_int q"
    using quotient_of_denom_pos quotient_of_div by blast+
  have p: "0 < p"
    using assms x q by (simp add: zero_less_divide_iff)
  let ?a = "int (floorlog 2 (nat p))" and ?b = "int (floorlog 2 (nat q))"
  have e: "bin_exp x = (if pow2 (?a - ?b) \<le> x then ?a - ?b else ?a - ?b - 1)"
    by (simp add: bin_exp_def pq Let_def)
  note P = int_floorlog [OF p] and Q = int_floorlog [OF q]
  have qp: "(0 :: rat) < of_int q"
    using q by simp
  have "pow2 (?a - ?b - 1) * of_int q \<le> pow2 (?a - ?b - 1) * pow2 ?b"
    using Q(2) by (intro mult_left_mono) auto
  also have "\<dots> = pow2 (?a - 1)"
    by (simp add: pow2_add [symmetric])
  finally have lo: "pow2 (?a - ?b - 1) \<le> x"
    using P(1) qp by (simp add: x field_simps)
  have "pow2 ?a = pow2 (?a - ?b + 1) * pow2 (?b - 1)"
    by (simp add: pow2_add [symmetric])
  also have "\<dots> \<le> pow2 (?a - ?b + 1) * of_int q"
    using Q(1) by (intro mult_left_mono) auto
  finally have hi: "x < pow2 (?a - ?b + 1)"
    using P(2) qp by (simp add: x field_simps)
  show "pow2 (bin_exp x) \<le> x" "x < pow2 (bin_exp x + 1)"
    using lo hi by (auto simp: e)
qed

lemma bin_exp_mono:
  assumes "0 < x" and "x \<le> y"
  shows "bin_exp x \<le> bin_exp y"
proof -
  have "pow2 (bin_exp x) < pow2 (bin_exp y + 1)"
    using bin_exp_bounds [of x] bin_exp_bounds [of y] assms by linarith
  then show ?thesis
    using pow2_strict by fastforce
qed

lemma bin_exp_unique:
  assumes "pow2 e \<le> x" and "x < pow2 (e + 1)"
  shows "bin_exp x = e"
proof -
  have "0 < x"
    using assms(1) pow2_pos [of e] by linarith
  from bin_exp_bounds [OF this] assms have "pow2 (bin_exp x) < pow2 (e + 1)" "pow2 e < pow2 (bin_exp x + 1)"
    by linarith+
  then show ?thesis
    using pow2_strict [of "bin_exp x" "e + 1"] pow2_strict [of e "bin_exp x + 1"] by linarith
qed

section \<open>Rounding to a float\<close>

lemma rnd64_pos:
  "0 < x \<Longrightarrow> rnd64 x = of_int (round_half_even (x / pow2 (bin_exp x - 52))) * pow2 (bin_exp x - 52)"
  by (simp add: rnd64_def Let_def)

lemma rnd64_lower:
  assumes "0 < x"
  shows "pow2 (bin_exp x) \<le> rnd64 x"
proof -
  let ?e = "bin_exp x - 52"
  have split: "pow2 (bin_exp x) = of_int (2 ^ 52) * pow2 ?e"
    using pow2_shift [of 52 ?e] by simp
  have "of_int (2 ^ 52) \<le> x / pow2 ?e"
    using bin_exp_bounds(1) [OF assms] by (simp only: split pos_le_divide_eq pow2_pos)
  from round_half_even_mono [OF this] have "2 ^ 52 \<le> round_half_even (x / pow2 ?e)"
    by (simp only: round_half_even_of_int)
  then have "of_int (2 ^ 52) \<le> (of_int (round_half_even (x / pow2 ?e)) :: rat)"
    by (simp only: of_int_le_iff)
  then show ?thesis
    unfolding split rnd64_pos [OF assms] by (intro mult_right_mono) (simp_all add: less_imp_le)
qed

lemma rnd64_upper:
  assumes "0 < x"
  shows "rnd64 x \<le> pow2 (bin_exp x + 1)"
proof -
  let ?e = "bin_exp x - 52"
  have split: "pow2 (bin_exp x + 1) = of_int (2 ^ 53) * pow2 ?e"
    using pow2_shift [of 53 ?e] by (simp add: add.commute)
  have "x / pow2 ?e \<le> of_int (2 ^ 53)"
    using bin_exp_bounds(2) [OF assms] by (simp only: split pos_divide_le_eq pow2_pos less_imp_le)
  from round_half_even_mono [OF this] have "round_half_even (x / pow2 ?e) \<le> 2 ^ 53"
    by (simp only: round_half_even_of_int)
  then have "(of_int (round_half_even (x / pow2 ?e)) :: rat) \<le> of_int (2 ^ 53)"
    by (simp only: of_int_le_iff)
  then show ?thesis
    unfolding split rnd64_pos [OF assms] by (intro mult_right_mono) (simp_all add: less_imp_le)
qed

lemma rnd64_nonneg: "0 \<le> rnd64 x"
proof (cases "0 < x")
  case True
  then show ?thesis
    using rnd64_lower [OF True] pow2_pos [of "bin_exp x"] by linarith
qed (simp add: rnd64_def)

lemma rnd64_mono:
  assumes "x \<le> y"
  shows "rnd64 x \<le> rnd64 y"
proof (cases "0 < x")
  case False
  then show ?thesis
    using rnd64_nonneg [of y] by (simp add: rnd64_def [of x])
next
  case x: True
  then have y: "0 < y"
    using assms by linarith
  show ?thesis
  proof (cases "bin_exp x = bin_exp y")
    case True
    have "x / pow2 (bin_exp y - 52) \<le> y / pow2 (bin_exp y - 52)"
      using assms by (intro divide_right_mono) (simp_all add: less_imp_le)
    then show ?thesis
      using round_half_even_mono by (simp add: rnd64_pos x y True mult_right_mono less_imp_le)
  next
    case False
    then have "bin_exp x + 1 \<le> bin_exp y"
      using bin_exp_mono [OF x assms] by linarith
    from pow2_mono [OF this] show ?thesis
      using rnd64_upper [OF x] rnd64_lower [OF y] by linarith
  qed
qed

lemma rnd64_dyadic:
  assumes "0 \<le> m" and "m \<le> 2 ^ 53"
  shows "rnd64 (of_int m * pow2 k) = of_int m * pow2 k"
proof (cases "m = 0 \<or> m = 2 ^ 53")
  case True
  have top: "of_int (2 ^ 53) * pow2 k = pow2 (k + 53)"
    using pow2_shift [of 53 k] by (simp add: add.commute)
  have be: "bin_exp (pow2 (k + 53)) = k + 53"
    by (rule bin_exp_unique) (simp_all add: pow2_less)
  have "pow2 (k + 53) / pow2 (k + 53 - 52) = of_int (2 ^ 52)"
    using pow2_shift [of 52 "k + 1"] by (simp add: add.commute)
  then have "rnd64 (pow2 (k + 53)) = of_int (2 ^ 52) * pow2 (k + 53 - 52)"
    by (simp only: rnd64_pos [OF pow2_pos] be round_half_even_of_int)
  also have "\<dots> = pow2 (k + 53)"
    using pow2_shift [of 52 "k + 1"] by (simp add: add.commute)
  finally show ?thesis
    using True top by (auto simp: rnd64_def)
next
  case False
  then have m: "0 < m" "m < 2 ^ 53"
    using assms by auto
  let ?x = "of_int m * pow2 k"
  have x: "0 < ?x"
    using m by simp
  let ?d = "bin_exp ?x - 52"
  have "?x < of_int (2 ^ 53) * pow2 k"
    using m by (intro mult_strict_right_mono) (simp_all only: of_int_less_iff pow2_pos)
  also have "\<dots> = pow2 (k + 53)"
    using pow2_shift [of 53 k] by (simp add: add.commute)
  finally have "bin_exp ?x < k + 53"
    using bin_exp_bounds(1) [OF x] pow2_strict by fastforce
  then have "0 \<le> k - ?d"
    by linarith
  then have "pow2 k = of_int (2 ^ nat (k - ?d)) * pow2 ?d"
    using pow2_shift [of "nat (k - ?d)" ?d] by simp
  then have eq: "?x = of_int (m * 2 ^ nat (k - ?d)) * pow2 ?d"
    by simp
  then have "?x / pow2 ?d = of_int (m * 2 ^ nat (k - ?d))"
    by (metis nonzero_mult_div_cancel_right less_irrefl pow2_pos)
  then show ?thesis
    using eq by (simp only: rnd64_pos [OF x] round_half_even_of_int)
qed

section \<open>What clients rely on\<close>

definition muladd_with :: "(rat \<Rightarrow> rat) \<Rightarrow> bool \<Rightarrow> rat \<Rightarrow> rat \<Rightarrow> rat \<Rightarrow> rat" where
  "muladd_with rnd fused a b c = (if fused then rnd (a * b + c) else rnd (rnd (a * b) + c))"

lemma fmuladd_with: "fmuladd = muladd_with rnd64"
  by (simp add: fun_eq_iff fmuladd_def muladd_with_def fadd_def fmul_def)

text \<open>A rounding that is monotone and exact on the short dyadic numbers.\<close>

locale float_rounding =
  fixes rnd :: "rat \<Rightarrow> rat"
  assumes rnd_le: "x \<le> y \<Longrightarrow> rnd x \<le> rnd y"
    and rnd_exact: "0 \<le> m \<Longrightarrow> m \<le> 2 ^ 53 \<Longrightarrow> rnd (of_int m * pow2 k) = of_int m * pow2 k"
begin

lemma exact_int: "0 \<le> n \<Longrightarrow> n \<le> 2 ^ 53 \<Longrightarrow> rnd (of_int n) = of_int n"
  using rnd_exact [of n 0] by (simp add: pow2_def)

lemma exact_0_1 [simp]: "rnd 0 = 0" "rnd 1 = 1"
  using exact_int [of 0] exact_int [of 1] by simp_all

lemma exact_half: "0 \<le> n \<Longrightarrow> n \<le> 2 ^ 53 \<Longrightarrow> rnd (of_int n / 2) = of_int n / 2"
  using rnd_exact [of n "- 1"] by (simp add: pow2_def)

lemma exact_plus_half: "0 \<le> n \<Longrightarrow> n < 2 ^ 52 \<Longrightarrow> rnd (of_int n + 1 / 2) = of_int n + 1 / 2"
  using exact_half [of "2 * n + 1"] by (simp add: field_simps)

lemma rnd_pos_int: "1 \<le> n \<Longrightarrow> 1 \<le> rnd (of_int n)"
  using rnd_le [of 1 "of_int n"] by simp

lemma rnd_ge_0: "0 \<le> x \<Longrightarrow> 0 \<le> rnd x"
  using rnd_le [of 0 x] by simp

lemma muladd_mono:
  assumes "a \<le> a'" and "0 \<le> b"
  shows "muladd_with rnd fused a b c \<le> muladd_with rnd fused a' b c"
  using rnd_le [OF mult_right_mono [OF assms]] assms
  by (auto simp: muladd_with_def intro!: rnd_le mult_right_mono)

lemma muladd_0: "muladd_with rnd fused 0 b (1 / 2) = 1 / 2"
  using exact_plus_half [of 0] by (simp add: muladd_with_def)

lemma muladd_1: "0 \<le> n \<Longrightarrow> n < 2 ^ 52 \<Longrightarrow> muladd_with rnd fused 1 (of_int n) (1 / 2) = of_int n + 1 / 2"
  by (simp add: muladd_with_def exact_plus_half exact_int)

lemma scaled_floor:
  assumes "0 \<le> f" and "f \<le> 1" and "0 \<le> n" and "n < 2 ^ 52"
  shows "0 \<le> \<lfloor>muladd_with rnd fused f (of_int n) (1 / 2)\<rfloor>"
    and "\<lfloor>muladd_with rnd fused f (of_int n) (1 / 2)\<rfloor> \<le> n"
proof -
  have "1 / 2 \<le> muladd_with rnd fused f (of_int n) (1 / 2)"
    using muladd_mono [of 0 f "of_int n" fused "1 / 2"] assms by (simp add: muladd_0)
  then show "0 \<le> \<lfloor>muladd_with rnd fused f (of_int n) (1 / 2)\<rfloor>"
    by linarith
  have "muladd_with rnd fused f (of_int n) (1 / 2) \<le> of_int n + 1 / 2"
    using muladd_mono [of f 1 "of_int n" fused "1 / 2"] assms by (simp add: muladd_1)
  then show "\<lfloor>muladd_with rnd fused f (of_int n) (1 / 2)\<rfloor> \<le> n"
    by linarith
qed

lemma quotient_unit:
  assumes "0 \<le> a" and "a \<le> b" and "1 \<le> b"
  shows "0 \<le> rnd (rnd (of_int a) / rnd (of_int b))" and "rnd (rnd (of_int a) / rnd (of_int b)) \<le> 1"
proof -
  have b: "0 < rnd (of_int b)"
    using rnd_pos_int [OF assms(3)] by linarith
  have "rnd (of_int a) \<le> rnd (of_int b)"
    using assms by (simp add: rnd_le)
  then have "rnd (of_int a) / rnd (of_int b) \<le> 1"
    using b by simp
  from rnd_le [OF this] show "rnd (rnd (of_int a) / rnd (of_int b)) \<le> 1"
    by simp
  show "0 \<le> rnd (rnd (of_int a) / rnd (of_int b))"
    using assms b by (intro rnd_ge_0 divide_nonneg_pos) auto
qed

lemma quotient_mono:
  assumes "a \<le> a'" and "1 \<le> b"
  shows "rnd (rnd (of_int a) / rnd (of_int b)) \<le> rnd (rnd (of_int a') / rnd (of_int b))"
  using assms rnd_pos_int [OF assms(2)] by (intro rnd_le divide_right_mono) auto

lemma quotient_self: "1 \<le> b \<Longrightarrow> rnd (rnd (of_int b) / rnd (of_int b)) = 1"
  using rnd_pos_int [of b] by simp

end

interpretation f64: float_rounding rnd64
  by unfold_locales (simp_all add: rnd64_mono rnd64_dyadic)

end
