(* ===== verification/Effort_Tiers.thy ===== *)
theory Effort_Tiers
  imports Go_Float
begin

text \<open>
  The effort dial, \<^verbatim>\<open>src/internal/mailstrix/effort.go\<close>: a level between 1 and the
  operator's ceiling is resolved for each request and mapped to the caps of one scan.
  Levels and counters are mathematical integers (the configuration bounds them to a
  few digits); the scaling is the float arithmetic of \<open>Go_Float\<close>.
\<close>

section \<open>Profiles\<close>

record EffortProfile =
  Level :: int
  DecodeDepth :: int
  DecodeIterations :: int
  PDFDeepen :: bool
  ReputationFeeds :: bool
  ScanTimeout :: duration
  XLMFoldSheets :: int
  XLMFoldFormulas :: int

definition fullDecodeDepth :: int where "fullDecodeDepth = 4"
definition fullDecodeIters :: int where "fullDecodeIters = 256"
definition minDecodeIters :: int where "minDecodeIters = 64"
definition fullXLMFoldSheets :: int where "fullXLMFoldSheets = 64"
definition fullXLMFoldFormulas :: int where "fullXLMFoldFormulas = 4096"
definition minXLMFoldSheets :: int where "minXLMFoldSheets = 4"
definition minXLMFoldFormulas :: int where "minXLMFoldFormulas = 256"
definition minScanTimeout :: duration where "minScanTimeout = 1 * second"

lemmas effort_consts = fullDecodeDepth_def fullDecodeIters_def minDecodeIters_def fullXLMFoldSheets_def
  fullXLMFoldFormulas_def minXLMFoldSheets_def minXLMFoldFormulas_def minScanTimeout_def

definition effort_frac :: "int \<Rightarrow> int \<Rightarrow> rat" where
  "effort_frac level effortMax =
     (if effortMax > 1 then fdiv (float64_of_int (level - 1)) (float64_of_int (effortMax - 1)) else 1)"

definition EffortProfileFor :: "bool \<Rightarrow> int \<Rightarrow> int \<Rightarrow> duration \<Rightarrow> EffortProfile" where
  "EffortProfileFor fused level0 effortMax0 baseScanTimeout =
     (let effortMax = (if effortMax0 < 1 then 1 else effortMax0);
          level1 = (if level0 < 1 then 1 else level0);
          level = (if level1 > effortMax then effortMax else level1);
          frac = effort_frac level effortMax;
          depth0 = 1 + int_of_float (fmuladd fused frac (float64_of_int (fullDecodeDepth - 1)) (1 / 2));
          depth1 = (if depth0 < 1 then 1 else depth0);
          depth = (if depth1 > fullDecodeDepth then fullDecodeDepth else depth1);
          iters0 = minDecodeIters +
            int_of_float (fmuladd fused frac (float64_of_int (fullDecodeIters - minDecodeIters)) (1 / 2));
          iters = (if iters0 > fullDecodeIters then fullDecodeIters else iters0);
          scanTimeout =
            (if baseScanTimeout > 0
             then (let scaled = int_of_float (fmul (float64_of_int baseScanTimeout) (fmuladd fused (1 / 2) frac (1 / 2)))
                   in if scaled < minScanTimeout then minScanTimeout else scaled)
             else 0);
          sheets0 = minXLMFoldSheets +
            int_of_float (fmuladd fused frac (float64_of_int (fullXLMFoldSheets - minXLMFoldSheets)) (1 / 2));
          xlmSheets = (if sheets0 > fullXLMFoldSheets then fullXLMFoldSheets else sheets0);
          formulas0 = minXLMFoldFormulas +
            int_of_float (fmuladd fused frac (float64_of_int (fullXLMFoldFormulas - minXLMFoldFormulas)) (1 / 2));
          xlmFormulas = (if formulas0 > fullXLMFoldFormulas then fullXLMFoldFormulas else formulas0)
      in \<lparr>Level = level, DecodeDepth = depth, DecodeIterations = iters,
          PDFDeepen = (frac > rnd64 (1 / 5)), ReputationFeeds = (frac \<ge> 1 / 2),
          ScanTimeout = scanTimeout, XLMFoldSheets = xlmSheets, XLMFoldFormulas = xlmFormulas\<rparr>)"

definition resolveScanEffort :: "int \<Rightarrow> int \<Rightarrow> int" where
  "resolveScanEffort metaEffort effortMax = (if metaEffort < 1 then effortMax else metaEffort)"

section \<open>Resolving a level\<close>




section \<open>The scaling factor\<close>

definition clamp_level :: "int \<Rightarrow> int \<Rightarrow> int" where
  "clamp_level level effortMax = max 1 (min level (max 1 effortMax))"

lemma clamp_level_bounds: "1 \<le> clamp_level l m \<and> clamp_level l m \<le> max 1 m"
  by (auto simp: clamp_level_def)

lemma clamp_level_mono: "l \<le> l' \<Longrightarrow> clamp_level l m \<le> clamp_level l' m"
  by (auto simp: clamp_level_def)

definition profile_frac :: "int \<Rightarrow> int \<Rightarrow> rat" where
  "profile_frac level effortMax = effort_frac (clamp_level level effortMax) (max 1 effortMax)"

lemma profile_frac_unit: "0 \<le> profile_frac l m \<and> profile_frac l m \<le> 1"
proof (cases "1 < m")
  case True
  then have "0 \<le> clamp_level l m - 1" "clamp_level l m - 1 \<le> m - 1" "1 \<le> m - 1"
    using clamp_level_bounds [of l m] by auto
  from f64.quotient_unit [OF this] True show ?thesis
    by (simp add: profile_frac_def effort_frac_def fdiv_def float64_of_int_def)
qed (simp add: profile_frac_def effort_frac_def)

lemma profile_frac_mono:
  assumes "l \<le> l'"
  shows "profile_frac l m \<le> profile_frac l' m"
proof (cases "1 < m")
  case True
  then have "1 \<le> m - 1" by simp
  moreover have "clamp_level l m - 1 \<le> clamp_level l' m - 1"
    using clamp_level_mono [OF assms, of m] by simp
  ultimately show ?thesis
    using True f64.quotient_mono [of "clamp_level l m - 1" "clamp_level l' m - 1" "m - 1"]
    by (simp add: profile_frac_def effort_frac_def fdiv_def float64_of_int_def)
qed (simp add: profile_frac_def effort_frac_def)

lemma profile_frac_ceiling: "m \<le> l \<Longrightarrow> profile_frac l m = 1"
  using f64.quotient_self [of "m - 1"]
  by (simp add: profile_frac_def effort_frac_def fdiv_def float64_of_int_def clamp_level_def)

lemma profile_frac_floor: "l \<le> 1 \<Longrightarrow> 1 < m \<Longrightarrow> profile_frac l m = 0"
  by (simp add: profile_frac_def effort_frac_def fdiv_def float64_of_int_def clamp_level_def)

text \<open>A cap scaled between its floor and its ceiling, and the scaled time budget.\<close>

definition scaled_cap :: "bool \<Rightarrow> rat \<Rightarrow> int \<Rightarrow> int \<Rightarrow> int" where
  "scaled_cap fused f lo hi = lo + \<lfloor>muladd_with rnd64 fused f (of_int (hi - lo)) (1 / 2)\<rfloor>"

definition scaled_budget :: "bool \<Rightarrow> rat \<Rightarrow> duration \<Rightarrow> duration" where
  "scaled_budget fused f base =
     \<lfloor>rnd64 (rnd64 (of_int base) * muladd_with rnd64 fused (1 / 2) f (1 / 2))\<rfloor>"

lemma scaled_cap_bounds:
  assumes "0 \<le> f" "f \<le> 1" "lo \<le> hi" "hi - lo < 2 ^ 52"
  shows "lo \<le> scaled_cap fused f lo hi" and "scaled_cap fused f lo hi \<le> hi"
  using f64.scaled_floor [of f "hi - lo" fused] assms by (auto simp: scaled_cap_def)

lemma scaled_cap_mono:
  assumes "f \<le> f'" "lo \<le> hi"
  shows "scaled_cap fused f lo hi \<le> scaled_cap fused f' lo hi"
  using f64.muladd_mono [of f f' "of_int (hi - lo)" fused "1 / 2"] assms
  by (auto simp: scaled_cap_def intro!: floor_mono)

lemma floor_half [simp]: "\<lfloor>1 / 2 :: rat\<rfloor> = 0"
  by (simp add: floor_unique)

lemma rnd_half [simp]: "rnd64 (1 / 2) = 1 / 2"
  using f64.exact_half [of 1] by simp

lemma scaled_cap_0: "scaled_cap fused 0 lo hi = lo"
  by (simp add: scaled_cap_def f64.muladd_0)

lemma scaled_cap_1: "lo \<le> hi \<Longrightarrow> hi - lo < 2 ^ 52 \<Longrightarrow> scaled_cap fused 1 lo hi = hi"
  using f64.muladd_1 [of "hi - lo" fused] by (simp add: scaled_cap_def)


lemma budget_factor_mono:
  "f \<le> f' \<Longrightarrow> muladd_with rnd64 fused (1 / 2) f (1 / 2) \<le> muladd_with rnd64 fused (1 / 2) f' (1 / 2)"
  by (auto simp: muladd_with_def intro!: rnd64_mono)

lemma budget_factor_1: "muladd_with rnd64 fused (1 / 2) 1 (1 / 2) = 1"
  by (simp add: muladd_with_def)


lemma scaled_budget_mono:
  assumes "f \<le> f'" "0 \<le> base"
  shows "scaled_budget fused f base \<le> scaled_budget fused f' base"
  unfolding scaled_budget_def using assms
  by (intro floor_mono rnd64_mono mult_left_mono budget_factor_mono f64.rnd_ge_0) auto

lemma scaled_budget_1: "0 \<le> base \<Longrightarrow> base \<le> 2 ^ 53 \<Longrightarrow> scaled_budget fused 1 base = base"
  by (simp add: scaled_budget_def budget_factor_1 f64.exact_int)

text \<open>The profile in closed form: the guards after each scaling never fire.\<close>

lemma effort_float_consts:
  "float64_of_int 3 = of_int (4 - 1)" "float64_of_int 192 = of_int (256 - 64)"
  "float64_of_int 60 = of_int (64 - 4)" "float64_of_int 3840 = of_int (4096 - 256)"
  using f64.exact_int [of 3] f64.exact_int [of 192] f64.exact_int [of 60] f64.exact_int [of 3840]
  by (simp_all add: float64_of_int_def)

lemma EffortProfileFor_closed:
  "EffortProfileFor fused l m base =
     (let f = profile_frac l m
      in \<lparr>Level = clamp_level l m, DecodeDepth = scaled_cap fused f 1 4,
          DecodeIterations = scaled_cap fused f 64 256,
          PDFDeepen = (f > rnd64 (1 / 5)), ReputationFeeds = (f \<ge> 1 / 2),
          ScanTimeout = (if base > 0 then max second (scaled_budget fused f base) else 0),
          XLMFoldSheets = scaled_cap fused f 4 64, XLMFoldFormulas = scaled_cap fused f 256 4096\<rparr>)"
proof -
  let ?f = "profile_frac l m"
  have lv: "(if (if l < 1 then 1 else l) > (if m < 1 then 1 else m) then (if m < 1 then 1 else m)
             else (if l < 1 then 1 else l)) = clamp_level l m"
    and mx: "(if m < 1 then 1 else m) = max 1 m"
    by (auto simp: clamp_level_def)
  have fr: "effort_frac (clamp_level l m) (max 1 m) = ?f"
    by (simp add: profile_frac_def)
  have caps: "lo \<le> scaled_cap fused ?f lo hi \<and> scaled_cap fused ?f lo hi \<le> hi"
    if "lo \<le> hi" "hi - lo < 2 ^ 52" for lo hi
    using that profile_frac_unit [of l m] scaled_cap_bounds by blast
  show ?thesis
    using caps [of 1 4] caps [of 64 256] caps [of 4 64] caps [of 256 4096]
    unfolding EffortProfileFor_def Let_def lv unfolding mx fr
    by (simp add: effort_consts effort_float_consts scaled_cap_def scaled_budget_def int_of_float_def
        fmuladd_with fmul_def max_def) (simp add: float64_of_int_def)
qed

section \<open>Levels\<close>








section \<open>Properties\<close>



text \<open>
  (C35) The dial is monotone, and its end is full depth: raising the level never lowers a
  cap, never switches a pass off and never shortens the time budget; at the ceiling every
  cap is at its maximum, both optional passes run and the budget is the base timeout.
\<close>

theorem effort_profile_monotone:
  assumes "level \<le> level'" and "0 < base" and "base \<le> 2 ^ 53"
  shows "let p = EffortProfileFor fused level effortMax base; q = EffortProfileFor fused level' effortMax base;
             top = EffortProfileFor fused effortMax effortMax base
    in DecodeDepth p \<le> DecodeDepth q \<and> DecodeIterations p \<le> DecodeIterations q \<and>
       XLMFoldSheets p \<le> XLMFoldSheets q \<and> XLMFoldFormulas p \<le> XLMFoldFormulas q \<and>
       (PDFDeepen p \<longrightarrow> PDFDeepen q) \<and> (ReputationFeeds p \<longrightarrow> ReputationFeeds q) \<and>
       ScanTimeout p \<le> ScanTimeout q \<and>
       top = \<lparr>Level = max 1 effortMax, DecodeDepth = fullDecodeDepth, DecodeIterations = fullDecodeIters,
              PDFDeepen = True, ReputationFeeds = True, ScanTimeout = max minScanTimeout base,
              XLMFoldSheets = fullXLMFoldSheets, XLMFoldFormulas = fullXLMFoldFormulas\<rparr>"
proof -
  have f: "profile_frac level effortMax \<le> profile_frac level' effortMax"
    using assms(1) by (rule profile_frac_mono)
  have caps: "scaled_cap fused (profile_frac level effortMax) lo hi \<le> scaled_cap fused (profile_frac level' effortMax) lo hi"
    if "lo \<le> hi" for lo hi
    using f that by (rule scaled_cap_mono)
  have budget: "scaled_budget fused (profile_frac level effortMax) base \<le> scaled_budget fused (profile_frac level' effortMax) base"
    using f assms(2) by (intro scaled_budget_mono) auto
  have fifth: "rnd64 (1 / 5) < 1"
    using rnd64_mono [of "1 / 5" "1 / 2"] by simp
  have "clamp_level effortMax effortMax = max 1 effortMax"
    by (simp add: clamp_level_def)
  with fifth assms(2,3) have "EffortProfileFor fused effortMax effortMax base =
      \<lparr>Level = max 1 effortMax, DecodeDepth = 4, DecodeIterations = 256, PDFDeepen = True, ReputationFeeds = True,
       ScanTimeout = max second base, XLMFoldSheets = 64, XLMFoldFormulas = 4096\<rparr>"
    by (simp add: EffortProfileFor_closed Let_def profile_frac_ceiling scaled_cap_1 scaled_budget_1)
  then show ?thesis
    using caps [of 1 4] caps [of 64 256] caps [of 4 64] caps [of 256 4096] budget f assms(2)
    by (auto simp: EffortProfileFor_closed Let_def effort_consts)
qed

theorem effort_profile_monotone_witness:
  "DecodeDepth (EffortProfileFor True 2 10 (8 * second)) \<le> DecodeDepth (EffortProfileFor True 7 10 (8 * second))"
  using effort_profile_monotone [of 2 7 "8 * second" True 10] by (simp add: Let_def)



end
