(* ===== verification/Scan_Pipeline.thy ===== *)
theory Scan_Pipeline
  imports Scan_Meta Strix_Matches Effort_Tiers "HOL-Library.Multiset"
begin

text \<open>
  One scan of one message against one rule generation:
  \<^verbatim>\<open>src/internal/mailstrix/scanner.go\<close> from \<open>scanGeneration\<close> on, and
  \<^verbatim>\<open>scan_extracted.go\<close>. What is not this code's own is the record \<open>scan_env\<close>: the wall
  clock (the n-th reading), the native scanner (\<^verbatim>\<open>go-yara\<close>, which may fail at any call),
  the content hash (\<^verbatim>\<open>xxh3\<close>), SHA-256, the extractor and the reputation feeds. A scan threads
  the number of calls made so far (\<open>tick\<close>), so that every reading and every native call may
  answer differently, and the metric counters. Log lines are not modelled.
\<close>

section \<open>Environment\<close>

type_synonym hkey = "128 word"

record scanVars =
  vba :: bool
  sv_filename :: string
  sv_extension :: string
  sv_fileType :: string

datatype meta_value = MStr string | MInt int | MBool bool

record yara_match =
  ym_Rule :: string
  ym_Namespace :: string
  ym_Tags :: "string gslice"
  ym_Metas :: "(string \<times> meta_value) list"

record feed_hit =
  hit_rule :: string
  hit_ident :: string

record xoptions =
  xo_Deadline :: gotime
  xo_DecodeDepth :: int
  xo_DecodeIterations :: int
  xo_PDFDeepen :: bool
  xo_XLMFoldSheets :: int
  xo_XLMFoldFormulas :: int
  xo_RetainedBytesLimit :: int
  xo_PWCandidates :: "string list"
  xo_ArchivePWEnabled :: bool

record scan_env =
  clock :: "nat \<Rightarrow> gotime"
  ScanMem :: "nat \<Rightarrow> nat \<Rightarrow> byte list \<Rightarrow> scanVars \<Rightarrow> duration \<Rightarrow> string + yara_match list"
  streamDedupKey :: "byte list \<Rightarrow> hkey"
  Sum256 :: "byte list \<Rightarrow> byte list"
  ExtractWithOptions :: "byte list \<Rightarrow> xoptions \<Rightarrow> extraction"
  urlcand_Extract :: "byte list \<Rightarrow> int \<Rightarrow> string list"
  mb_CheckDigest :: "(byte list \<Rightarrow> feed_hit list) option"
  uh_CheckCandidates :: "(string list \<Rightarrow> int \<Rightarrow> feed_hit list) option"
  tf_CheckCandidates :: "(string list \<Rightarrow> int \<Rightarrow> feed_hit list) option"

record scannerGeneration =
  g_rules :: "nat option"
  g_bigRules :: "nat option"
  g_markerRules :: "nat option"
  g_deny :: "string list option"
  topEpoch :: u64

record scanner_cfg =
  scanTimeout :: duration
  effortMax :: int
  fma_fused :: bool
  bigFileThreshold :: int
  allowlist :: "string list"
  canary :: bool
  archivePW :: bool
  archivePW_defaults :: "string list"
  archivePW_wordlist :: "string list"
  extractionRetainedBytes :: int
  urlhausMax :: int
  threatfoxMax :: int

datatype scan_err = ErrNoRules | ErrScanIncomplete | DeadlineExceeded | ErrExtractor | ErrNative string

text \<open>
  What a scan changes in the scanner: the counters behind \<^verbatim>\<open>/metrics\<close>, by field name, the
  warn-once flag, the retained-bytes histogram and the rule names handed to the
  top-matches counter with the epoch they were pinned under.
\<close>

record metrics =
  tick :: nat
  ctr :: "string \<Rightarrow> u64"
  bigNilWarned :: bool
  Buckets :: "u64 list"
  hSum :: u64
  hCount :: u64
  topAdds :: "(u64 \<times> string list) list"

definition bump :: "string \<Rightarrow> u64 \<Rightarrow> metrics \<Rightarrow> metrics" where
  "bump c n mt = mt\<lparr>ctr := (ctr mt)(c := ctr mt c + n)\<rparr>"

definition now :: "scan_env \<Rightarrow> metrics \<Rightarrow> gotime \<times> metrics" where
  "now env mt = (clock env (tick mt), mt\<lparr>tick := tick mt + 1\<rparr>)"

definition bytes_of :: "string \<Rightarrow> byte list" where
  "bytes_of s = map (\<lambda>c. of_nat (of_char c)) s"

section \<open>One native scan\<close>

definition metaString :: "meta_value \<Rightarrow> string" where
  "metaString v =
     (case v of MStr s \<Rightarrow> s | MInt i \<Rightarrow> Itoa i | MBool b \<Rightarrow> if b then ''true'' else ''false'')"

definition match_of_yara :: "yara_match \<Rightarrow> Match" where
  "match_of_yara m =
     \<lparr>Rule = ym_Rule m, Namespace = ym_Namespace m, Tags = ym_Tags m,
      Meta = (if ym_Metas m = [] then None
              else Some (foldl (\<lambda>al kv. AList.update (fst kv) (metaString (snd kv)) al) [] (ym_Metas m)))\<rparr>"

definition native_timeout :: "duration \<Rightarrow> duration" where
  "native_timeout t = (if t > 0 \<and> t < second then second else t)"

definition scanOne ::
  "scan_env \<Rightarrow> nat \<Rightarrow> byte list \<Rightarrow> scanVars \<Rightarrow> duration \<Rightarrow> metrics \<Rightarrow> (scan_err + Match list) \<times> metrics" where
  "scanOne env rules buf vars timeout mt =
     ((case ScanMem env (tick mt) rules buf vars (native_timeout timeout) of
         Inl e \<Rightarrow> Inl (ErrNative e)
       | Inr ms \<Rightarrow> Inr (map match_of_yara ms)),
      mt\<lparr>tick := tick mt + 1\<rparr>)"

definition markerTag :: string where "markerTag = ''marker''"

definition matchIsMarker :: "Match \<Rightarrow> bool" where
  "matchIsMarker m \<longleftrightarrow> list_ex (\<lambda>t. t = markerTag) (lst (Tags m))"

definition filterMarkerChannel :: "Match list \<Rightarrow> bool \<Rightarrow> Match list" where
  "filterMarkerChannel ms markerChannel =
     (if length (filter (\<lambda>m. matchIsMarker m = markerChannel) ms) = length ms then ms
      else filter (\<lambda>m. matchIsMarker m = markerChannel) ms)"

section \<open>Setup\<close>

record scanSetup =
  profile :: EffortProfile
  deadline :: gotime
  rawRules :: nat

definition resolveScanSetup ::
  "scan_env \<Rightarrow> scanner_cfg \<Rightarrow> nat \<Rightarrow> byte list \<Rightarrow> ScanMeta \<Rightarrow> scannerGeneration \<Rightarrow> metrics \<Rightarrow> scanSetup \<times> metrics" where
  "resolveScanSetup env s rules buf meta gen mt0 =
     (let p = EffortProfileFor (fma_fused s) (resolveScanEffort (Effort meta) (effortMax s)) (effortMax s) (scanTimeout s);
          (d, mt1) = (if ScanTimeout p > 0
                      then (let (t, mt) = now env mt0 in (t + ScanTimeout p, mt))
                      else (0, mt0))
      in if bigFileThreshold s > 0 \<and> int (length buf) > bigFileThreshold s
         then (case g_bigRules gen of
                 Some big \<Rightarrow> (\<lparr>profile = p, deadline = d, rawRules = big\<rparr>, bump ''bigFileScans'' 1 mt1)
               | None \<Rightarrow> (\<lparr>profile = p, deadline = d, rawRules = rules\<rparr>, mt1\<lparr>bigNilWarned := True\<rparr>))
         else (\<lparr>profile = p, deadline = d, rawRules = rules\<rparr>, mt1))"

definition ExtractOptions :: "EffortProfile \<Rightarrow> gotime \<Rightarrow> xoptions" where
  "ExtractOptions p d =
     \<lparr>xo_Deadline = d, xo_DecodeDepth = DecodeDepth p, xo_DecodeIterations = DecodeIterations p,
      xo_PDFDeepen = PDFDeepen p, xo_XLMFoldSheets = XLMFoldSheets p, xo_XLMFoldFormulas = XLMFoldFormulas p,
      xo_RetainedBytesLimit = 0, xo_PWCandidates = [], xo_ArchivePWEnabled = False\<rparr>"

definition validatedExtractionRetainedBytes :: "int \<Rightarrow> int" where
  "validatedExtractionRetainedBytes n =
     (if n < 1024 \<or> n > 128 * 1024 * 1024 then DefaultRetainedBytesLimit else n)"

definition buildExtractOptions :: "scanner_cfg \<Rightarrow> ScanMeta \<Rightarrow> EffortProfile \<Rightarrow> gotime \<Rightarrow> xoptions" where
  "buildExtractOptions s meta p extractDeadline =
     (let xopts = (ExtractOptions p extractDeadline)
            \<lparr>xo_RetainedBytesLimit := validatedExtractionRetainedBytes (extractionRetainedBytes s)\<rparr>
      in if archivePW s
         then (let cands = capDedupCandidates
                     [PWCandidates meta, filenameTokens (Filename meta), archivePW_defaults s, archivePW_wordlist s]
               in xopts\<lparr>xo_PWCandidates := cands, xo_ArchivePWEnabled := (length cands > 0)\<rparr>)
         else xopts)"

definition scanRawChannel ::
  "scan_env \<Rightarrow> nat \<Rightarrow> byte list \<Rightarrow> ScanMeta \<Rightarrow> EffortProfile \<Rightarrow> metrics \<Rightarrow> Match list \<times> scan_err option \<times> metrics" where
  "scanRawChannel env rules buf meta p mt0 =
     (case scanOne env rules buf
             \<lparr>vba = False, sv_filename = Filename meta, sv_extension = Extension meta, sv_fileType = FileType meta\<rparr>
             (ScanTimeout p) (bump ''rawChannelScans'' 1 mt0) of
        (Inl e, mt) \<Rightarrow> (filterMarkerChannel [] False, Some e, bump ''rawScanErrs'' 1 mt)
      | (Inr ms, mt) \<Rightarrow> (filterMarkerChannel ms False, None, mt))"

definition match_key :: "Match \<Rightarrow> string \<times> string" where
  "match_key m = (Namespace m, Rule m)"

definition newMatchSeen :: "Match list \<Rightarrow> (string \<times> string) list" where
  "newMatchSeen out = map match_key out"

section \<open>Extraction accounting\<close>

definition extractionByteBounds :: "u64 list" where
  "extractionByteBounds = [1024, 16384, 262144, 1048576, 16777216, 67108864, 268435456]"

definition observe :: "byte list list \<Rightarrow> metrics \<Rightarrow> metrics" where
  "observe streams mt =
     (let tot = foldl (\<lambda>a st. a + of_nat (length st)) (0 :: u64) streams
      in mt\<lparr>Buckets := map2 (\<lambda>bound c. if tot \<le> bound then c + 1 else c) extractionByteBounds (Buckets mt),
            hSum := hSum mt + tot, hCount := hCount mt + 1\<rparr>)"

definition extract_flags :: "extraction \<Rightarrow> (bool \<times> string) list" where
  "extract_flags res =
     [(IsDoc res, ''exDocs''), (Encrypted res, ''exEncrypted''), (Failed res, ''exFailed''),
      (Panicked res, ''exPanicked''), (RetainedTruncated res, ''exRetTrunc''), (IsMSI res, ''exMSI''),
      (IsMSG res, ''exMSG''), (IsOneNote res, ''exOneNote''), (IsArchive res, ''exArchive''),
      (DecryptedArchive res, ''exArchiveDecrypted''), (IsOLEPackage res, ''exOLEPackage''),
      (IsLNK res, ''exLNK''), (IsPDF res, ''exPDF''), (IsRTF res, ''exRTF''), (IsSLK res, ''exSLK''),
      (EncodedScript res, ''exEncodedScript''), (HasDocProps res, ''exDocProps''),
      (HasXLMFold res, ''exXLMFold''), (DecodedStreams res > 0, ''exDecoded'')]"

definition recordExtractMetrics :: "extraction \<Rightarrow> metrics \<Rightarrow> metrics" where
  "recordExtractMetrics res mt =
     (let mt1 = foldl (\<lambda>m (set_flag, c). if set_flag then bump c 1 m else m) mt (extract_flags res);
          n = int (length (Streams res)) - DecodedStreams res
      in if n > 0 then bump ''exStreams'' (of_int n) (bump ''exMacroDocs'' 1 mt1) else mt1)"

definition extractionIncomplete :: "scan_env \<Rightarrow> extraction \<Rightarrow> gotime \<Rightarrow> metrics \<Rightarrow> bool \<times> metrics" where
  "extractionIncomplete env res extractDeadline mt0 =
     (let (late, mt1) = (if extractDeadline \<noteq> 0
                         then (let (t, mt) = now env mt0 in (\<not> t < extractDeadline, mt))
                         else (False, mt0));
          mt2 = recordExtractMetrics res mt1
      in (late \<or> Panicked res \<or> RetainedTruncated res \<or> length (CapHits res) > 0, mt2))"

definition vbaKeySet :: "scan_env \<Rightarrow> extraction \<Rightarrow> hkey list" where
  "vbaKeySet env res = map (streamDedupKey env) (VBAStreams res)"

definition streamScanOrder :: "byte list list \<Rightarrow> int \<Rightarrow> nat list" where
  "streamScanOrder streams nContent =
     (let order = [0..<length streams];
          nReal = min nContent (int (length streams))
      in if nReal > 1
         then sort_key (\<lambda>i. length (streams ! i)) (take (nat nReal) order) @ drop (nat nReal) order
         else order)"

section \<open>The sweep over extracted entries\<close>

record extractScan =
  x_seen :: "hkey list"
  x_matchSeen :: "(string \<times> string) list"
  x_out :: "Match list"
  x_incomplete :: bool
  x_completionErr :: "scan_err option"
  streamsVisited :: nat
  markersVisited :: nat
  oversizedRerouted :: nat
  x_mt :: metrics

text \<open>What stays fixed during one sweep: the fields of \<^verbatim>\<open>extractScan\<close> that are only read.\<close>

record sweep_ctx =
  c_env :: scan_env
  c_cfg :: scanner_cfg
  c_gen :: scannerGeneration
  c_rules :: nat
  c_meta :: ScanMeta
  c_deadline :: gotime
  c_vbaKeys :: "hkey list"

fun merge_matches ::
  "(string \<times> string) list \<Rightarrow> Match list \<Rightarrow> Match list \<Rightarrow> (string \<times> string) list \<times> Match list" where
  "merge_matches seen out [] = (seen, out)"
| "merge_matches seen out (m # ms) =
     (if match_key m \<in> set seen then merge_matches seen out ms
      else merge_matches (match_key m # seen) (out @ [m]) ms)"

text \<open>The rule set an entry is scanned with, and the counters of that choice.\<close>

definition stream_rules ::
  "sweep_ctx \<Rightarrow> byte list \<Rightarrow> bool \<Rightarrow> extractScan \<Rightarrow> nat \<times> extractScan" where
  "stream_rules c stream markerChannel x =
     (let (r1, x1) =
        (if \<not> markerChannel \<and> bigFileThreshold (c_cfg c) > 0 \<and> int (length stream) > bigFileThreshold (c_cfg c)
         then (case g_bigRules (c_gen c) of
                 Some big \<Rightarrow> (big, x\<lparr>x_mt := bump ''bigFileStreamScans'' 1 (x_mt x),
                                   oversizedRerouted := oversizedRerouted x + 1\<rparr>)
               | None \<Rightarrow> (c_rules c, x\<lparr>x_mt := (x_mt x)\<lparr>bigNilWarned := True\<rparr>\<rparr>))
         else (c_rules c, x))
      in if markerChannel
         then ((case g_markerRules (c_gen c) of Some mb \<Rightarrow> mb | None \<Rightarrow> r1),
               x1\<lparr>x_mt := bump ''markerChannelScans'' 1 (x_mt x1)\<rparr>)
         else (r1, x1\<lparr>x_mt := bump ''streamChannelScans'' 1 (x_mt x1)\<rparr>))"

definition stream_vars :: "sweep_ctx \<Rightarrow> hkey \<Rightarrow> bool \<Rightarrow> scanVars" where
  "stream_vars c h markerChannel =
     (if markerChannel then \<lparr>vba = False, sv_filename = [], sv_extension = [], sv_fileType = []\<rparr>
      else \<lparr>vba = (h \<in> set (c_vbaKeys c)), sv_filename = Filename (c_meta c),
            sv_extension = Extension (c_meta c), sv_fileType = FileType (c_meta c)\<rparr>)"

text \<open>The shared budget: \<open>None\<close> when less than a second of it is left.\<close>

definition entry_budget :: "sweep_ctx \<Rightarrow> extractScan \<Rightarrow> duration option \<times> extractScan" where
  "entry_budget c x =
     (if c_deadline c \<noteq> 0
      then (let (t, mt) = now (c_env c) (x_mt x); budget = c_deadline c - t
            in (if budget < second then None else Some budget, x\<lparr>x_mt := mt\<rparr>))
      else (Some (scanTimeout (c_cfg c)), x))"

definition scan_merge :: "bool \<Rightarrow> Match list \<Rightarrow> extractScan \<Rightarrow> extractScan" where
  "scan_merge markerChannel ms x =
     (case merge_matches (x_matchSeen x) (x_out x) (filterMarkerChannel ms markerChannel) of
        (seen, out) \<Rightarrow>
          (let added = length out - length (x_out x);
               x1 = x\<lparr>x_matchSeen := seen, x_out := out\<rparr>
           in if added > 0 then x1\<lparr>x_mt := bump ''exStreamMatches'' (of_nat added) (x_mt x1)\<rparr> else x1))"

definition scan :: "sweep_ctx \<Rightarrow> extractScan \<Rightarrow> byte list \<Rightarrow> hkey \<Rightarrow> bool \<Rightarrow> extractScan \<times> bool" where
  "scan c x0 stream h markerChannel =
     (let x1 = (if markerChannel then x0\<lparr>markersVisited := markersVisited x0 + 1\<rparr>
                else x0\<lparr>streamsVisited := streamsVisited x0 + 1\<rparr>)
      in if h \<in> set (x_seen x1) then (x1\<lparr>x_mt := bump ''exDeduped'' 1 (x_mt x1)\<rparr>, False)
         else (case entry_budget c (x1\<lparr>x_seen := h # x_seen x1\<rparr>) of
                 (None, x2) \<Rightarrow> (x2\<lparr>x_incomplete := True\<rparr>, True)
               | (Some budget, x2) \<Rightarrow>
                   (case stream_rules c stream markerChannel x2 of (r, x3) \<Rightarrow>
                      (case scanOne (c_env c) r stream (stream_vars c h markerChannel) budget (x_mt x3) of
                         (Inl e, mt) \<Rightarrow> (x3\<lparr>x_mt := mt, x_completionErr := Some e, x_incomplete := True\<rparr>, False)
                       | (Inr ms, mt) \<Rightarrow> (scan_merge markerChannel ms (x3\<lparr>x_mt := mt\<rparr>), False)))))"

fun scan_list :: "sweep_ctx \<Rightarrow> bool \<Rightarrow> extractScan \<Rightarrow> (byte list \<times> hkey) list \<Rightarrow> extractScan" where
  "scan_list c ch x [] = x"
| "scan_list c ch x (e # es) =
     (case scan c x (fst e) (snd e) ch of (x', stop) \<Rightarrow> if stop then x' else scan_list c ch x' es)"

definition mismatch_marker :: "string \<Rightarrow> byte list" where
  "mismatch_marker d = bytes_of (extMismatchMarkerPrefix @ '' '' @ d)"

definition stream_entries :: "extraction \<Rightarrow> hkey list \<Rightarrow> (byte list \<times> hkey) list" where
  "stream_entries res streamKeys =
     map (\<lambda>i. (Streams res ! i, streamKeys ! i)) (streamScanOrder (Streams res) (ContentStreams res))"

definition scan_mismatch :: "sweep_ctx \<Rightarrow> extraction \<Rightarrow> extractScan \<Rightarrow> extractScan" where
  "scan_mismatch c res x =
     (let d = extMismatch res (Extension (c_meta c))
      in if d \<noteq> []
         then (let mk = mismatch_marker d
               in fst (scan c (x\<lparr>x_mt := bump ''exExtMismatch'' 1 (x_mt x)\<rparr>) mk (streamDedupKey (c_env c) mk) True))
         else x)"

definition scanStreamLoop :: "sweep_ctx \<Rightarrow> extraction \<Rightarrow> hkey list \<Rightarrow> extractScan \<Rightarrow> extractScan" where
  "scanStreamLoop c res streamKeys x =
     (let x1 = scan_list c False x (stream_entries res streamKeys);
          x2 = scan_mismatch c res x1
      in scan_list c True x2 (map (\<lambda>mk. (mk, streamDedupKey (c_env c) mk)) (Markers res)))"

section \<open>Reputation feeds\<close>

definition feed_match :: "string \<Rightarrow> string \<Rightarrow> feed_hit \<Rightarrow> Match" where
  "feed_match tag k h =
     \<lparr>Rule = hit_rule h, Namespace = [], Tags = lit [tag], Meta = Some [(k, hit_ident h)]\<rparr>"

fun mbazaar_loop ::
  "scan_env \<Rightarrow> (byte list \<Rightarrow> feed_hit list) \<Rightarrow> gotime \<Rightarrow> byte list list \<Rightarrow> Match list \<Rightarrow> byte list list \<Rightarrow> metrics
   \<Rightarrow> Match list \<times> bool \<times> metrics" where
  "mbazaar_loop env check d seen ms [] mt = (ms, False, mt)"
| "mbazaar_loop env check d seen ms (c # cs) mt =
     (let (late, mt1) = (if d \<noteq> 0 then (let (t, m) = now env mt in (\<not> t < d, m)) else (False, mt))
      in if late then (ms, True, mt1)
         else (let digest = Sum256 env c
               in if digest \<in> set seen then mbazaar_loop env check d seen ms cs mt1
                  else mbazaar_loop env check d (digest # seen)
                         (ms @ map (feed_match ''malwarebazaar'' ''sha256'') (check digest)) cs mt1))"

definition mbazaarMatches ::
  "scan_env \<Rightarrow> (byte list \<Rightarrow> feed_hit list) \<Rightarrow> byte list \<Rightarrow> extraction \<Rightarrow> gotime \<Rightarrow> metrics \<Rightarrow> Match list \<times> bool \<times> metrics" where
  "mbazaarMatches env check buf res d mt =
     mbazaar_loop env check d [] [] (if TopType res = TopTypeMIME then MIMEAttachments res else [buf]) mt"

fun feed_dedup :: "string \<Rightarrow> string list \<Rightarrow> Match list \<Rightarrow> feed_hit list \<Rightarrow> string list \<times> Match list" where
  "feed_dedup tag seen ms [] = (seen, ms)"
| "feed_dedup tag seen ms (h # hs) =
     (if hit_ident h \<in> set seen then feed_dedup tag seen ms hs
      else feed_dedup tag (hit_ident h # seen) (ms @ [feed_match tag ''url'' h]) hs)"

definition addFeedHits ::
  "scan_env \<Rightarrow> scanner_cfg \<Rightarrow> string list \<times> string list \<times> Match list \<Rightarrow> byte list \<Rightarrow> string list \<times> string list \<times> Match list" where
  "addFeedHits env s st b =
     (case st of (seenURL, seenTF, ms) \<Rightarrow>
        let maxN = (if threatfoxMax s > urlhausMax s then threatfoxMax s else urlhausMax s);
            cands = urlcand_Extract env b maxN;
            (seenURL', ms1) = (case uh_CheckCandidates env of
                                 Some chk \<Rightarrow> feed_dedup ''urlhaus'' seenURL ms (chk cands (urlhausMax s))
                               | None \<Rightarrow> (seenURL, ms));
            (seenTF', ms2) = (case tf_CheckCandidates env of
                                Some chk \<Rightarrow> feed_dedup ''threatfox'' seenTF ms1 (chk cands (threatfoxMax s))
                              | None \<Rightarrow> (seenTF, ms1))
        in (seenURL', seenTF', ms2))"

fun url_loop ::
  "scan_env \<Rightarrow> scanner_cfg \<Rightarrow> gotime \<Rightarrow> hkey list \<Rightarrow> string list \<times> string list \<times> Match list \<Rightarrow>
   (byte list \<times> hkey) list \<Rightarrow> metrics \<Rightarrow> Match list \<times> bool \<times> metrics" where
  "url_loop env s d fed st [] mt = (snd (snd st), False, mt)"
| "url_loop env s d fed st (e # es) mt =
     (let (late, mt1) = (if d \<noteq> 0 then (let (t, m) = now env mt in (\<not> t < d, m)) else (False, mt))
      in if late then (snd (snd st), True, mt1)
         else if snd e \<in> set fed then url_loop env s d fed st es mt1
         else url_loop env s d (snd e # fed) (addFeedHits env s st (fst e)) es mt1)"

definition urlFeedMatches ::
  "scan_env \<Rightarrow> scanner_cfg \<Rightarrow> byte list \<Rightarrow> extraction \<Rightarrow> hkey list \<Rightarrow> hkey \<Rightarrow> gotime \<Rightarrow> metrics \<Rightarrow> Match list \<times> bool \<times> metrics" where
  "urlFeedMatches env s buf res streamKeys rawSeed d mt =
     url_loop env s d [rawSeed] (addFeedHits env s ([], [], []) buf) (zip (Streams res) streamKeys) mt"

definition appendReputationMatches ::
  "scan_env \<Rightarrow> scanner_cfg \<Rightarrow> Match list \<Rightarrow> bool \<Rightarrow> EffortProfile \<Rightarrow> byte list \<Rightarrow> extraction \<Rightarrow> hkey list \<Rightarrow> hkey \<Rightarrow> gotime \<Rightarrow>
   metrics \<Rightarrow> Match list \<times> bool \<times> metrics" where
  "appendReputationMatches env s out incomplete p buf res streamKeys rawSeed d mt0 =
     (let (out1, inc1, mt1) =
        (case (ReputationFeeds p, mb_CheckDigest env) of
           (True, Some check) \<Rightarrow>
             (let (ms, late, mt) = mbazaarMatches env check buf res d mt0 in (out @ ms, incomplete \<or> late, mt))
         | _ \<Rightarrow> (out, incomplete, mt0))
      in if ReputationFeeds p \<and> (uh_CheckCandidates env \<noteq> None \<or> tf_CheckCandidates env \<noteq> None)
         then (let (ms, late, mt) = urlFeedMatches env s buf res streamKeys rawSeed d mt1 in (out1 @ ms, inc1 \<or> late, mt))
         else (out1, inc1, mt1))"

section \<open>The verdict of a scan\<close>

definition recordTopMatches :: "Match list \<Rightarrow> u64 \<Rightarrow> metrics \<Rightarrow> metrics" where
  "recordTopMatches out epoch mt =
     (if out = [] then mt else mt\<lparr>topAdds := topAdds mt @ [(epoch, map Rule out)]\<rparr>)"

definition finalScanVerdict ::
  "scan_env \<Rightarrow> Match list \<Rightarrow> bool \<Rightarrow> scan_err option \<Rightarrow> scan_err option \<Rightarrow> ScanMeta \<Rightarrow> gotime \<Rightarrow> metrics \<Rightarrow>
   Match list \<times> scan_err option \<times> metrics" where
  "finalScanVerdict env out0 incomplete cerr0 rawErr meta d mt0 =
     (let out = (if incomplete then out0 @ [scanIncompleteMatch] else out0);
          cerr1 = (if incomplete \<and> cerr0 = None then Some ErrScanIncomplete else cerr0);
          tail = (\<lambda>mt. if rawErr \<noteq> None \<and> out = [] then ([], rawErr, mt)
                       else if incomplete then (out, Some ErrScanIncomplete, mt)
                       else (out, None, mt))
      in if requireComplete meta
         then (let (late, mt1) = (if d \<noteq> 0 then (let (t, m) = now env mt0 in (\<not> t < d, m)) else (False, mt0));
                   cerr = (if late then Some DeadlineExceeded else cerr1)
               in if cerr \<noteq> None then (out, cerr, mt1) else tail mt1)
         else tail mt0)"

text \<open>Halving a duration truncates towards zero.\<close>

definition half :: "duration \<Rightarrow> duration" where
  "half d = (if d \<ge> 0 then d div 2 else - ((- d) div 2))"

definition extract_deadline :: "scan_env \<Rightarrow> gotime \<Rightarrow> metrics \<Rightarrow> gotime \<times> metrics" where
  "extract_deadline env d mt0 =
     (if d \<noteq> 0
      then (let (t1, mt1) = now env mt0; (t2, mt2) = now env mt1 in (t1 + half (d - t2), mt2))
      else (d, mt0))"

definition raw_seed :: "scan_env \<Rightarrow> ScanMeta \<Rightarrow> byte list \<Rightarrow> hkey" where
  "raw_seed env meta buf = (if RawKey meta = 0 then streamDedupKey env buf else RawKey meta)"

definition scan_ctx ::
  "scan_env \<Rightarrow> scanner_cfg \<Rightarrow> scannerGeneration \<Rightarrow> nat \<Rightarrow> ScanMeta \<Rightarrow> extraction \<Rightarrow> gotime \<Rightarrow> sweep_ctx" where
  "scan_ctx env s gen rules meta res d =
     \<lparr>c_env = env, c_cfg = s, c_gen = gen, c_rules = rules, c_meta = meta, c_deadline = d, c_vbaKeys = vbaKeySet env res\<rparr>"

definition start_sweep :: "hkey \<Rightarrow> Match list \<Rightarrow> bool \<Rightarrow> scan_err option \<Rightarrow> metrics \<Rightarrow> extractScan" where
  "start_sweep seed out incomplete cerr mt =
     \<lparr>x_seen = [seed], x_matchSeen = newMatchSeen out, x_out = out, x_incomplete = incomplete,
      x_completionErr = cerr, streamsVisited = 0, markersVisited = 0, oversizedRerouted = 0, x_mt = mt\<rparr>"

definition scanGeneration ::
  "scan_env \<Rightarrow> scanner_cfg \<Rightarrow> byte list \<Rightarrow> ScanMeta \<Rightarrow> scannerGeneration \<Rightarrow> metrics \<Rightarrow>
   Match list \<times> scan_err option \<times> metrics" where
  "scanGeneration env s buf meta gen mt0 =
     (case g_rules gen of
        None \<Rightarrow> ([], Some ErrNoRules, mt0)
      | Some rules \<Rightarrow>
          (let (setup, mt1) = resolveScanSetup env s rules buf meta gen mt0;
               p = profile setup; d = deadline setup;
               (out, rawErr, mt2) = scanRawChannel env (rawRules setup) buf meta p mt1;
               (xd, mt3) = extract_deadline env d mt2;
               res = ExtractWithOptions env buf (buildExtractOptions s meta p xd);
               (incomplete, mt4) = extractionIncomplete env res xd (observe (Streams res) mt3);
               cerr = (if (Failed res \<or> Panicked res) \<and> rawErr = None then Some ErrExtractor else rawErr);
               seed = raw_seed env meta buf;
               streamKeys = map (streamDedupKey env) (Streams res);
               c = scan_ctx env s gen rules meta res d;
               x = scanStreamLoop c res streamKeys (start_sweep seed out incomplete cerr mt4);
               out1 = filterDenied (x_out x) (g_deny gen);
               mt5 = recordTopMatches out1 (topEpoch gen) (x_mt x);
               (out2, incomplete2, mt6) = appendReputationMatches env s out1 (x_incomplete x) p buf res streamKeys seed d mt5;
               out3 = applyResponseTags (allowlist s) (canary s) out2
           in finalScanVerdict env out3 incomplete2 (x_completionErr x) rawErr meta d mt6))"

section \<open>Stream order\<close>

lemma streamScanOrder_perm: "mset (streamScanOrder streams n) = mset [0..<length streams]"
proof -
  have "mset (take k xs) + mset (drop k xs) = mset xs" for k and xs :: "nat list"
    by (metis append_take_drop_id mset_append)
  then show ?thesis
    by (simp add: streamScanOrder_def Let_def del: take_upt drop_upt mset_upt)
qed

lemma set_streamScanOrder: "set (streamScanOrder streams n) = {0..<length streams}"
  using arg_cong [OF streamScanOrder_perm [of streams n], of set_mset] by simp

section \<open>What one step of the sweep does\<close>

lemma filterMarkerChannel_filter: "filterMarkerChannel ms ch = filter (\<lambda>m. matchIsMarker m = ch) ms"
  by (simp add: filterMarkerChannel_def) (metis filter_id_conv length_filter_less nat_neq_iff)

lemma merge_matches_spec:
  assumes "merge_matches seen out ms = (seen', out')"
  shows "set seen' = set seen \<union> match_key ` set ms"
    and "\<exists>new. out' = out @ new \<and> set new \<subseteq> set ms \<and> match_key ` set new = match_key ` set ms - set seen \<and>
               distinct (map match_key new)"
proof -
  have "set seen' = set seen \<union> match_key ` set ms \<and>
    (\<exists>new. out' = out @ new \<and> set new \<subseteq> set ms \<and> match_key ` set new = match_key ` set ms - set seen \<and>
           distinct (map match_key new))"
    using assms
  proof (induction ms arbitrary: seen out)
    case Nil
    then show ?case by simp
  next
    case (Cons m ms)
    show ?case
    proof (cases "match_key m \<in> set seen")
      case True
      with Cons show ?thesis by fastforce
    next
      case False
      with Cons.prems have "merge_matches (match_key m # seen) (out @ [m]) ms = (seen', out')"
        by simp
      from Cons.IH [OF this] obtain new where "out' = (out @ [m]) @ new" "set new \<subseteq> set ms"
        "match_key ` set new = match_key ` set ms - set (match_key m # seen)" "distinct (map match_key new)"
        "set seen' = set (match_key m # seen) \<union> match_key ` set ms"
        by blast
      with False show ?thesis
        by (intro conjI exI [of _ "m # new"]) auto
    qed
  qed
  then show "set seen' = set seen \<union> match_key ` set ms"
    and "\<exists>new. out' = out @ new \<and> set new \<subseteq> set ms \<and> match_key ` set new = match_key ` set ms - set seen \<and>
               distinct (map match_key new)"
    by blast+
qed

definition entry_rules :: "sweep_ctx \<Rightarrow> byte list \<Rightarrow> bool \<Rightarrow> nat" where
  "entry_rules c b ch =
     (if ch then (case g_markerRules (c_gen c) of Some mb \<Rightarrow> mb | None \<Rightarrow> c_rules c)
      else if bigFileThreshold (c_cfg c) > 0 \<and> int (length b) > bigFileThreshold (c_cfg c)
      then (case g_bigRules (c_gen c) of Some big \<Rightarrow> big | None \<Rightarrow> c_rules c)
      else c_rules c)"

text \<open>The part of the sweep's state that decides the verdict; the rest is accounting.\<close>

definition verdict_part :: "extractScan \<Rightarrow> hkey list \<times> (string \<times> string) list \<times> Match list \<times> bool" where
  "verdict_part x = (x_seen x, x_matchSeen x, x_out x, x_incomplete x)"

lemma stream_rules_entry:
  "fst (stream_rules c b ch x) = entry_rules c b ch"
  "verdict_part (snd (stream_rules c b ch x)) = verdict_part x"
  by (auto simp: stream_rules_def entry_rules_def verdict_part_def Let_def split: option.splits prod.splits)

lemma entry_budget_verdict: "verdict_part (snd (entry_budget c x)) = verdict_part x"
  by (simp add: entry_budget_def verdict_part_def Let_def split: prod.splits)

definition reported :: "sweep_ctx \<Rightarrow> byte list \<Rightarrow> hkey \<Rightarrow> bool \<Rightarrow> Match \<Rightarrow> bool" where
  "reported c b h ch m \<longleftrightarrow>
     (\<exists>t tmo ms. ScanMem (c_env c) t (entry_rules c b ch) b (stream_vars c h ch) tmo = Inr ms \<and>
                 m \<in> match_of_yara ` set ms)"

text \<open>The native call of an entry, and the four outcomes of scanning one.\<close>

lemma scan_native_cases:
  assumes "(case stream_rules c b ch x of (r, x3) \<Rightarrow>
      (case scanOne (c_env c) r b (stream_vars c h ch) budget (x_mt x3) of
         (Inl e, mt) \<Rightarrow> (x3\<lparr>x_mt := mt, x_completionErr := Some e, x_incomplete := True\<rparr>, False)
       | (Inr ms, mt) \<Rightarrow> (scan_merge ch ms (x3\<lparr>x_mt := mt\<rparr>), False))) = (x', stop)"
  obtains
    (failed) "x_incomplete x'" "\<not> stop" "x_out x' = x_out x" "x_matchSeen x' = x_matchSeen x" "x_seen x' = x_seen x"
  | (scanned) t tmo ms where "\<not> stop"
      "ScanMem (c_env c) t (entry_rules c b ch) b (stream_vars c h ch) tmo = Inr ms"
      "x_seen x' = x_seen x" "x_incomplete x' = x_incomplete x"
      "merge_matches (x_matchSeen x) (x_out x) (filter (\<lambda>m. matchIsMarker m = ch) (map match_of_yara ms)) = (x_matchSeen x', x_out x')"
proof -
  define x3 where "x3 = snd (stream_rules c b ch x)"
  define sres where "sres = ScanMem (c_env c) (tick (x_mt x3)) (entry_rules c b ch) b (stream_vars c h ch) (native_timeout budget)"
  have sr: "stream_rules c b ch x = (entry_rules c b ch, x3)"
    using stream_rules_entry(1) [of c b ch x] by (simp add: x3_def prod_eq_iff)
  have v3: "verdict_part x3 = verdict_part x"
    using stream_rules_entry(2) [of c b ch x] by (simp add: x3_def)
  show ?thesis
  proof (cases sres)
    case (Inl e)
    then have "x' = x3\<lparr>x_mt := (x_mt x3)\<lparr>tick := tick (x_mt x3) + 1\<rparr>, x_completionErr := Some (ErrNative e), x_incomplete := True\<rparr>"
      "\<not> stop"
      using assms sr by (simp_all add: scanOne_def sres_def)
    with v3 show ?thesis
      by (intro failed) (auto simp: verdict_part_def)
  next
    case (Inr ms)
    define y where "y = x3\<lparr>x_mt := (x_mt x3)\<lparr>tick := tick (x_mt x3) + 1\<rparr>\<rparr>"
    have "x' = scan_merge ch (map match_of_yara ms) y" "\<not> stop"
      using assms sr Inr by (simp_all add: scanOne_def sres_def y_def)
    moreover obtain sn ou where m: "merge_matches (x_matchSeen y) (x_out y)
        (filter (\<lambda>m. matchIsMarker m = ch) (map match_of_yara ms)) = (sn, ou)"
      by fastforce
    ultimately have "x_matchSeen x' = sn" "x_out x' = ou" "x_seen x' = x_seen y" "x_incomplete x' = x_incomplete y" "\<not> stop"
      by (simp_all add: scan_merge_def filterMarkerChannel_filter Let_def)
    with m v3 Inr show ?thesis
      by (intro scanned [of "tick (x_mt x3)" "native_timeout budget" ms]) (auto simp: verdict_part_def y_def sres_def)
  qed
qed

lemma scan_cases:
  assumes "scan c x b h ch = (x', stop)"
  obtains
    (dup) "h \<in> set (x_seen x)" "verdict_part x' = verdict_part x" "\<not> stop"
  | (partial) "h \<notin> set (x_seen x)" "x_incomplete x'" "x_out x' = x_out x" "x_matchSeen x' = x_matchSeen x"
      "x_seen x' = h # x_seen x"
  | (scanned) t tmo ms where "h \<notin> set (x_seen x)" "\<not> stop"
      "ScanMem (c_env c) t (entry_rules c b ch) b (stream_vars c h ch) tmo = Inr ms"
      "x_seen x' = h # x_seen x" "x_incomplete x' = x_incomplete x"
      "merge_matches (x_matchSeen x) (x_out x) (filter (\<lambda>m. matchIsMarker m = ch) (map match_of_yara ms)) = (x_matchSeen x', x_out x')"
proof -
  define x1 where "x1 = (if ch then x\<lparr>markersVisited := markersVisited x + 1\<rparr> else x\<lparr>streamsVisited := streamsVisited x + 1\<rparr>)"
  have v1: "verdict_part x1 = verdict_part x"
    by (simp add: x1_def verdict_part_def)
  show ?thesis
  proof (cases "h \<in> set (x_seen x1)")
    case True
    then have "x' = x1\<lparr>x_mt := bump ''exDeduped'' 1 (x_mt x1)\<rparr>" "\<not> stop"
      using assms by (simp_all add: scan_def x1_def [symmetric])
    with True v1 show ?thesis
      by (intro dup) (auto simp: verdict_part_def)
  next
    case False
    obtain bo x2 where eb: "entry_budget c (x1\<lparr>x_seen := h # x_seen x1\<rparr>) = (bo, x2)"
      by (cases "entry_budget c (x1\<lparr>x_seen := h # x_seen x1\<rparr>)")
    have v2: "x_seen x2 = h # x_seen x" "x_matchSeen x2 = x_matchSeen x" "x_out x2 = x_out x" "x_incomplete x2 = x_incomplete x"
      using entry_budget_verdict [of c "x1\<lparr>x_seen := h # x_seen x1\<rparr>"] eb v1 by (simp_all add: verdict_part_def)
    have nh: "h \<notin> set (x_seen x)"
      using False v1 by (simp add: verdict_part_def)
    show ?thesis
    proof (cases bo)
      case None
      then have "x' = x2\<lparr>x_incomplete := True\<rparr>"
        using assms False eb by (simp add: scan_def x1_def [symmetric])
      with v2 nh show ?thesis
        by (intro partial) auto
    next
      case (Some budget)
      with assms False eb have "(case stream_rules c b ch x2 of (r, x3) \<Rightarrow>
          (case scanOne (c_env c) r b (stream_vars c h ch) budget (x_mt x3) of
             (Inl e, mt) \<Rightarrow> (x3\<lparr>x_mt := mt, x_completionErr := Some e, x_incomplete := True\<rparr>, False)
           | (Inr ms, mt) \<Rightarrow> (scan_merge ch ms (x3\<lparr>x_mt := mt\<rparr>), False))) = (x', stop)"
        by (simp add: scan_def x1_def [symmetric])
      then show ?thesis
        by (cases rule: scan_native_cases) (auto simp: v2 nh intro: partial scanned)
    qed
  qed
qed

section \<open>Where the matches of a sweep come from\<close>

lemma scan_provenance:
  assumes "scan c x b h ch = (x', stop)"
  shows "set (x_out x) \<subseteq> set (x_out x')"
    and "m \<in> set (x_out x') \<Longrightarrow> m \<in> set (x_out x) \<or> (matchIsMarker m = ch \<and> reported c b h ch m)"
proof -
  have "set (x_out x) \<subseteq> set (x_out x') \<and>
    (\<forall>m \<in> set (x_out x'). m \<in> set (x_out x) \<or> (matchIsMarker m = ch \<and> reported c b h ch m))"
    using assms
  proof (cases rule: scan_cases)
    case (scanned t tmo ms)
    from merge_matches_spec(2) [OF scanned(6)] obtain new where "x_out x' = x_out x @ new"
      "set new \<subseteq> set (filter (\<lambda>m. matchIsMarker m = ch) (map match_of_yara ms))"
      by blast
    then show ?thesis
      using scanned(3) by (fastforce simp: reported_def)
  qed (auto simp: verdict_part_def)
  then show "set (x_out x) \<subseteq> set (x_out x')"
    and "m \<in> set (x_out x') \<Longrightarrow> m \<in> set (x_out x) \<or> (matchIsMarker m = ch \<and> reported c b h ch m)"
    by blast+
qed

lemma scan_list_provenance:
  "set (x_out x) \<subseteq> set (x_out (scan_list c ch x es)) \<and>
   (\<forall>m \<in> set (x_out (scan_list c ch x es)).
      m \<in> set (x_out x) \<or> (matchIsMarker m = ch \<and> (\<exists>e \<in> set es. reported c (fst e) (snd e) ch m)))"
proof (induction es arbitrary: x)
  case (Cons e es)
  obtain x' stop where s: "scan c x (fst e) (snd e) ch = (x', stop)"
    by fastforce
  note prov = scan_provenance [OF s]
  show ?case
  proof (cases stop)
    case True
    with s prov show ?thesis by auto
  next
    case False
    with s have eq: "scan_list c ch x (e # es) = scan_list c ch x' es"
      by simp
    show ?thesis
      unfolding eq using Cons.IH [of x'] prov by fastforce
  qed
qed simp

definition marker_entries :: "sweep_ctx \<Rightarrow> extraction \<Rightarrow> byte list set" where
  "marker_entries c res = insert (mismatch_marker (extMismatch res (Extension (c_meta c)))) (set (Markers res))"

lemma scan_mismatch_provenance:
  "set (x_out x) \<subseteq> set (x_out (scan_mismatch c res x)) \<and>
   (\<forall>m \<in> set (x_out (scan_mismatch c res x)). m \<in> set (x_out x) \<or>
      (matchIsMarker m \<and> (\<exists>b \<in> marker_entries c res. reported c b (streamDedupKey (c_env c) b) True m)))"
proof (cases "extMismatch res (Extension (c_meta c)) = []")
  case False
  let ?mk = "mismatch_marker (extMismatch res (Extension (c_meta c)))"
  obtain x' stop where "scan c (x\<lparr>x_mt := bump ''exExtMismatch'' 1 (x_mt x)\<rparr>) ?mk (streamDedupKey (c_env c) ?mk) True = (x', stop)"
    by fastforce
  with scan_provenance [OF this] False show ?thesis
    by (auto simp: scan_mismatch_def Let_def marker_entries_def)
qed (simp add: scan_mismatch_def)

lemma stream_entries_set:
  "set (stream_entries res (map k (Streams res))) = (\<lambda>b. (b, k b)) ` set (Streams res)"
proof -
  have "set (stream_entries res (map k (Streams res))) = (\<lambda>i. (Streams res ! i, k (Streams res ! i))) ` {0..<length (Streams res)}"
    by (simp add: stream_entries_def set_streamScanOrder)
  also have "\<dots> = (\<lambda>b. (b, k b)) ` (\<lambda>i. Streams res ! i) ` {0..<length (Streams res)}"
    by (simp add: image_image)
  also have "\<dots> = (\<lambda>b. (b, k b)) ` set (Streams res)"
    using nth_image [of "length (Streams res)" "Streams res"] by simp
  finally show ?thesis .
qed

lemma scanStreamLoop_grows: "set (x_out x) \<subseteq> set (x_out (scanStreamLoop c res keys x))"
  unfolding scanStreamLoop_def Let_def
  using scan_list_provenance scan_mismatch_provenance by blast

lemma scanStreamLoop_provenance:
  assumes "m \<in> set (x_out (scanStreamLoop c res (map (streamDedupKey (c_env c)) (Streams res)) x))"
  shows "m \<in> set (x_out x) \<or>
    (\<not> matchIsMarker m \<and> (\<exists>b \<in> set (Streams res). reported c b (streamDedupKey (c_env c) b) False m)) \<or>
    (matchIsMarker m \<and> (\<exists>b \<in> marker_entries c res. reported c b (streamDedupKey (c_env c) b) True m))"
proof -
  let ?k = "streamDedupKey (c_env c)"
  let ?es = "stream_entries res (map ?k (Streams res))"
  let ?x1 = "scan_list c False x ?es"
  let ?x2 = "scan_mismatch c res ?x1"
  have "m \<in> set (x_out (scan_list c True ?x2 (map (\<lambda>mk. (mk, ?k mk)) (Markers res))))"
    using assms by (simp add: scanStreamLoop_def Let_def)
  then have "m \<in> set (x_out ?x2) \<or> (matchIsMarker m \<and> (\<exists>b \<in> set (Markers res). reported c b (?k b) True m))"
    using scan_list_provenance [of ?x2 c True "map (\<lambda>mk. (mk, ?k mk)) (Markers res)"] by auto
  moreover have "m \<in> set (x_out ?x1) \<or> (matchIsMarker m \<and> (\<exists>b \<in> marker_entries c res. reported c b (?k b) True m))"
    if "m \<in> set (x_out ?x2)"
    using that scan_mismatch_provenance [of ?x1 c res] by blast
  moreover have "m \<in> set (x_out x) \<or> (\<not> matchIsMarker m \<and> (\<exists>b \<in> set (Streams res). reported c b (?k b) False m))"
    if "m \<in> set (x_out ?x1)"
    using that scan_list_provenance [of x c False ?es] by (auto simp: stream_entries_set)
  ultimately show ?thesis
    by (auto simp: marker_entries_def)
qed

section \<open>What a complete sweep has covered\<close>

















section \<open>From the sweep to the verdict\<close>



lemma finalScanVerdict_matches:
  assumes "finalScanVerdict env out inc cerr rawErr meta d mt = (ms, err, mt')"
  shows "set ms \<subseteq> insert scanIncompleteMatch (set out)"
  using assms by (auto simp: finalScanVerdict_def Let_def split: if_splits prod.splits)

definition feed_tag :: "string \<Rightarrow> bool" where
  "feed_tag t \<longleftrightarrow> t \<in> {''malwarebazaar'', ''urlhaus'', ''threatfox''}"

definition is_feed_match :: "Match \<Rightarrow> bool" where
  "is_feed_match m \<longleftrightarrow> Namespace m = [] \<and> (\<exists>t. lst (Tags m) = [t] \<and> feed_tag t)"

lemma feed_tags [simp]: "feed_tag ''malwarebazaar''" "feed_tag ''urlhaus''" "feed_tag ''threatfox''"
  by (simp_all add: feed_tag_def)

lemma feed_match_is_feed [simp]: "feed_tag tag \<Longrightarrow> is_feed_match (feed_match tag k h)"
  by (simp add: is_feed_match_def feed_match_def)

lemma mbazaar_loop_feed:
  "mbazaar_loop env chk d seen ms cs mt = (ms', inc, mt') \<Longrightarrow> \<forall>m \<in> set ms. is_feed_match m \<Longrightarrow> \<forall>m \<in> set ms'. is_feed_match m"
proof (induction cs arbitrary: seen ms mt)
  case (Cons c cs)
  have "\<forall>m \<in> set (ms @ map (feed_match ''malwarebazaar'' ''sha256'') hs). is_feed_match m" for hs
    using Cons.prems(2) by auto
  with Cons show ?case
    by (auto simp: Let_def split: prod.splits if_splits)
qed simp

lemma feed_dedup_feed:
  "feed_dedup tag seen ms hs = (seen', ms') \<Longrightarrow> feed_tag tag \<Longrightarrow>
   \<forall>m \<in> set ms. is_feed_match m \<Longrightarrow> \<forall>m \<in> set ms'. is_feed_match m"
proof (induction hs arbitrary: seen ms)
  case (Cons h hs)
  show ?case
  proof (cases "hit_ident h \<in> set seen")
    case True
    then have "feed_dedup tag seen ms hs = (seen', ms')"
      using Cons.prems(1) by simp
    from Cons.IH [OF this Cons.prems(2,3)] show ?thesis .
  next
    case False
    then have "feed_dedup tag (hit_ident h # seen) (ms @ [feed_match tag ''url'' h]) hs = (seen', ms')"
      using Cons.prems(1) by simp
    moreover have "\<forall>m \<in> set (ms @ [feed_match tag ''url'' h]). is_feed_match m"
      using Cons.prems(2,3) by auto
    ultimately show ?thesis
      using Cons.IH Cons.prems(2) by blast
  qed
qed simp

lemma addFeedHits_feed:
  assumes "\<forall>m \<in> set (snd (snd st)). is_feed_match m"
  shows "\<forall>m \<in> set (snd (snd (addFeedHits env s st b))). is_feed_match m"
proof -
  obtain su stf ms where st: "st = (su, stf, ms)"
    by (cases st)
  let ?maxN = "if threatfoxMax s > urlhausMax s then threatfoxMax s else urlhausMax s"
  let ?cands = "urlcand_Extract env b ?maxN"
  obtain su' ms1 where u: "(case uh_CheckCandidates env of
      Some chk \<Rightarrow> feed_dedup ''urlhaus'' su ms (chk ?cands (urlhausMax s)) | None \<Rightarrow> (su, ms)) = (su', ms1)"
    by fastforce
  obtain stf' ms2 where v: "(case tf_CheckCandidates env of
      Some chk \<Rightarrow> feed_dedup ''threatfox'' stf ms1 (chk ?cands (threatfoxMax s)) | None \<Rightarrow> (stf, ms1)) = (stf', ms2)"
    by fastforce
  have "\<forall>m \<in> set ms1. is_feed_match m"
    using u assms st feed_dedup_feed [OF _ feed_tags(2)] by (cases "uh_CheckCandidates env") fastforce+
  then have "\<forall>m \<in> set ms2. is_feed_match m"
    using v feed_dedup_feed [OF _ feed_tags(3)] by (cases "tf_CheckCandidates env") fastforce+
  moreover have "addFeedHits env s st b = (su', stf', ms2)"
    unfolding addFeedHits_def st prod.case Let_def u v by simp
  ultimately show ?thesis by simp
qed

lemma url_loop_feed:
  "url_loop env s d fed st es mt = (ms', inc, mt') \<Longrightarrow> \<forall>m \<in> set (snd (snd st)). is_feed_match m \<Longrightarrow>
   \<forall>m \<in> set ms'. is_feed_match m"
proof (induction es arbitrary: fed st mt)
  case (Cons e es)
  show ?case
    using Cons.prems(1) Cons.IH [OF _ Cons.prems(2)] Cons.IH [OF _ addFeedHits_feed [OF Cons.prems(2)]] Cons.prems(2)
    by (auto simp: Let_def split: prod.splits if_splits)
qed auto

lemma appendReputation_spec:
  assumes "appendReputationMatches env s out inc p buf res keys seed d mt = (out', inc', mt')"
  shows "(inc \<longrightarrow> inc') \<and> (\<exists>feeds. out' = out @ feeds \<and> (\<forall>m \<in> set feeds. is_feed_match m))"
proof -
  have mb: "\<forall>m \<in> set ms. is_feed_match m" if "mbazaarMatches env chk buf res d mt = (ms, l, mt1)" for chk ms l mt mt1
    using that mbazaar_loop_feed [of env chk d "[]" "[]"] by (auto simp: mbazaarMatches_def)
  have uf: "\<forall>m \<in> set ms. is_feed_match m" if "urlFeedMatches env s buf res keys seed d mt = (ms, l, mt1)" for ms l mt mt1
    using that url_loop_feed [of env s d "[seed]"] addFeedHits_feed [of "([], [], [])" env s buf]
    by (auto simp: urlFeedMatches_def)
  show ?thesis
    using assms unfolding appendReputationMatches_def Let_def
    by (auto split: prod.splits if_splits option.splits bool.splits dest!: mb uf)
qed

lemma scan_ctx_fields [simp]:
  "c_env (scan_ctx env s gen rules meta res d) = env" "c_cfg (scan_ctx env s gen rules meta res d) = s"
  "c_gen (scan_ctx env s gen rules meta res d) = gen" "c_rules (scan_ctx env s gen rules meta res d) = rules"
  "c_meta (scan_ctx env s gen rules meta res d) = meta" "c_vbaKeys (scan_ctx env s gen rules meta res d) = vbaKeySet env res"
  by (simp_all add: scan_ctx_def)

lemma scan_ctx_deadline:
  "entry_rules (scan_ctx env s gen rules meta res d) = entry_rules (scan_ctx env s gen rules meta res 0)"
  "stream_vars (scan_ctx env s gen rules meta res d) = stream_vars (scan_ctx env s gen rules meta res 0)"
  by (rule ext, rule ext, simp add: entry_rules_def cong: option.case_cong)
    (rule ext, rule ext, simp add: stream_vars_def)

lemma scan_ctx_reported:
  "reported (scan_ctx env s gen rules meta res d) = reported (scan_ctx env s gen rules meta res 0)"
  "marker_entries (scan_ctx env s gen rules meta res d) = marker_entries (scan_ctx env s gen rules meta res 0)"
  unfolding reported_def [abs_def] marker_entries_def [abs_def] scan_ctx_fields
  by (simp_all only: scan_ctx_deadline [of env s gen rules meta res d])

definition raw_rules :: "scanner_cfg \<Rightarrow> scannerGeneration \<Rightarrow> nat \<Rightarrow> byte list \<Rightarrow> nat" where
  "raw_rules s gen rules buf =
     (if bigFileThreshold s > 0 \<and> int (length buf) > bigFileThreshold s
      then (case g_bigRules gen of Some big \<Rightarrow> big | None \<Rightarrow> rules) else rules)"

lemma resolveScanSetup_rules: "rawRules (fst (resolveScanSetup env s rules buf meta gen mt)) = raw_rules s gen rules buf"
  by (simp add: resolveScanSetup_def raw_rules_def Let_def case_prod_beta split: option.splits)

definition raw_vars :: "ScanMeta \<Rightarrow> scanVars" where
  "raw_vars meta = \<lparr>vba = False, sv_filename = Filename meta, sv_extension = Extension meta, sv_fileType = FileType meta\<rparr>"

lemma scanRawChannel_cases:
  assumes "scanRawChannel env r buf meta p mt = (out, rawErr, mt')"
  obtains (failed) e where "rawErr = Some e" "out = []"
  | (scanned) t tmo ms where "rawErr = None" "ScanMem env t r buf (raw_vars meta) tmo = Inr ms"
      "out = filter (\<lambda>m. \<not> matchIsMarker m) (map match_of_yara ms)"
proof -
  let ?mt = "bump ''rawChannelScans'' 1 mt"
  show ?thesis
  proof (cases "ScanMem env (tick ?mt) r buf (raw_vars meta) (native_timeout (ScanTimeout p))")
    case (Inl e)
    then show ?thesis
      using assms by (intro failed [of "ErrNative e"])
        (simp_all add: scanRawChannel_def scanOne_def raw_vars_def filterMarkerChannel_filter)
  next
    case (Inr ms)
    then show ?thesis
      using assms by (intro scanned [OF _ Inr])
        (simp_all add: scanRawChannel_def scanOne_def raw_vars_def filterMarkerChannel_filter)
  qed
qed


text \<open>The stages of one scan, by name.\<close>

definition first_error :: "extraction \<Rightarrow> scan_err option \<Rightarrow> scan_err option" where
  "first_error res rawErr = (if (Failed res \<or> Panicked res) \<and> rawErr = None then Some ErrExtractor else rawErr)"

lemma scanGeneration_stages:
  assumes run: "scanGeneration env s buf meta gen mt = (ms, err, mt')" and rules: "g_rules gen = Some rules"
    and ext: "\<forall>xo. ExtractWithOptions env buf xo = res"
  obtains d p out rawErr mt1 mt2 xd mtx inc mt4 x out2 inc2 mt5 mt6 where
    "scanRawChannel env (raw_rules s gen rules buf) buf meta p mt1 = (out, rawErr, mt2)"
    "extractionIncomplete env res xd mtx = (inc, mt4)"
    "x = scanStreamLoop (scan_ctx env s gen rules meta res d) res (map (streamDedupKey env) (Streams res))
           (start_sweep (raw_seed env meta buf) out inc (first_error res rawErr) mt4)"
    "appendReputationMatches env s (filterDenied (x_out x) (g_deny gen)) (x_incomplete x) p buf res
       (map (streamDedupKey env) (Streams res)) (raw_seed env meta buf) d mt5 = (out2, inc2, mt6)"
    "finalScanVerdict env (applyResponseTags (allowlist s) (canary s) out2) inc2 (x_completionErr x) rawErr meta d mt6 = (ms, err, mt')"
proof -
  obtain su mt1 where st: "resolveScanSetup env s rules buf meta gen mt = (su, mt1)"
    by fastforce
  then have rr: "rawRules su = raw_rules s gen rules buf"
    using resolveScanSetup_rules [of env s rules buf meta gen mt] by simp
  obtain out rawErr mt2 where raw: "scanRawChannel env (raw_rules s gen rules buf) buf meta (profile su) mt1 = (out, rawErr, mt2)"
    by (metis prod.collapse)
  obtain xd mt3 where xd: "extract_deadline env (deadline su) mt2 = (xd, mt3)"
    by fastforce
  obtain inc mt4 where ei: "extractionIncomplete env res xd (observe (Streams res) mt3) = (inc, mt4)"
    by fastforce
  define x where "x = scanStreamLoop (scan_ctx env s gen rules meta res (deadline su)) res (map (streamDedupKey env) (Streams res))
    (start_sweep (raw_seed env meta buf) out inc (first_error res rawErr) mt4)"
  obtain out2 inc2 mt6 where rep: "appendReputationMatches env s (filterDenied (x_out x) (g_deny gen)) (x_incomplete x)
      (profile su) buf res (map (streamDedupKey env) (Streams res)) (raw_seed env meta buf) (deadline su)
      (recordTopMatches (filterDenied (x_out x) (g_deny gen)) (topEpoch gen) (x_mt x)) = (out2, inc2, mt6)"
    by (metis prod.collapse)
  have "finalScanVerdict env (applyResponseTags (allowlist s) (canary s) out2) inc2 (x_completionErr x) rawErr meta
      (deadline su) mt6 = (ms, err, mt')"
    using run unfolding scanGeneration_def rules option.case Let_def st prod.case rr raw xd
    by (simp only: ext ei prod.case first_error_def [symmetric] x_def [symmetric] rep)
  with raw ei x_def rep show ?thesis
    by (rule that)
qed

lemma Namespace_tag_match [simp]: "Namespace (tag_match al c m) = Namespace m"
  and Tags_tag_match [simp]: "Tags (tag_match al c m) = Tags m"
  by (simp_all add: tag_match_def Let_def)

lemma matchIsMarker_tag_match [simp]: "matchIsMarker (tag_match al c m) = matchIsMarker m"
  by (simp add: matchIsMarker_def)

lemma match_key_tag_match [simp]: "match_key (tag_match al c m) = match_key m"
  by (simp add: match_key_def)

lemma feed_not_marker: "is_feed_match m \<Longrightarrow> \<not> matchIsMarker m"
  by (auto simp: is_feed_match_def matchIsMarker_def feed_tag_def markerTag_def)

lemma incomplete_not_marker: "\<not> matchIsMarker scanIncompleteMatch"
  by (simp add: matchIsMarker_def scanIncompleteMatch_def markerTag_def)


lemma start_sweep_fields [simp]:
  "x_out (start_sweep seed out inc cerr mt) = out" "x_incomplete (start_sweep seed out inc cerr mt) = inc"
  "x_completionErr (start_sweep seed out inc cerr mt) = cerr"
  by (simp_all add: start_sweep_def)



lemma match_of_yara_fields [simp]: "Rule (match_of_yara y) = ym_Rule y" "Namespace (match_of_yara y) = ym_Namespace y"
  by (simp_all add: match_of_yara_def)

section \<open>Properties\<close>


text \<open>
  A small environment to evaluate scans in: no time limits, no feeds, a native scanner that
  reports rule \<open>R\<close> on every content entry and the marker rule \<open>M\<close> on every entry.
\<close>

definition ex_report :: "byte list \<Rightarrow> yara_match list" where
  "ex_report b =
     (if b = [] then [] else
      [\<lparr>ym_Rule = ''R'', ym_Namespace = ''N'', ym_Tags = NilSlice, ym_Metas = []\<rparr>,
       \<lparr>ym_Rule = ''M'', ym_Namespace = ''N'', ym_Tags = lit [''marker''], ym_Metas = []\<rparr>])"

definition ex_result :: "byte list list \<Rightarrow> byte list list \<Rightarrow> extraction" where
  "ex_result streams markers =
     \<lparr>Streams = streams, trustedMarkers = [], childOpts = None, Markers = markers, VBAStreams = [],
      MIMEAttachments = [], ContentStreams = 1, DecodedStreams = 0, TopType = [], IsDoc = False, IsRTF = False,
      IsMSI = False, IsLNK = False, IsOneNote = False, IsOLEPackage = False, IsMSG = False, IsPDF = False,
      IsArchive = False, IsSLK = False, Encrypted = False, DecryptedArchive = False, EncodedScript = False,
      HasDocProps = False, HasXLMFold = False, EncryptedArchive = False, Polyglot = False, IsXLL = False, IsTNEF = False, IsMIME = False,
      Retained = 0, probe = False, Failed = False, Panicked = False, RetainedTruncated = False, CapHits = []\<rparr>"

definition ex_env :: "byte list list \<Rightarrow> byte list list \<Rightarrow> scan_env" where
  "ex_env streams markers =
     \<lparr>clock = (\<lambda>n. int n), ScanMem = (\<lambda>t r b v d. Inr (ex_report b)), streamDedupKey = (\<lambda>b. of_nat (length b) + 1),
      Sum256 = (\<lambda>b. b), ExtractWithOptions = (\<lambda>b xo. ex_result streams markers), urlcand_Extract = (\<lambda>b n. []),
      mb_CheckDigest = None, uh_CheckCandidates = None, tf_CheckCandidates = None\<rparr>"

definition ex_cfg :: scanner_cfg where
  "ex_cfg = \<lparr>scanTimeout = 0, effortMax = 10, fma_fused = False, bigFileThreshold = 0, allowlist = [], canary = False,
     archivePW = False, archivePW_defaults = [], archivePW_wordlist = [], extractionRetainedBytes = 0,
     urlhausMax = 0, threatfoxMax = 0\<rparr>"

definition ex_gen :: scannerGeneration where
  "ex_gen = \<lparr>g_rules = Some 0, g_bigRules = None, g_markerRules = None, g_deny = None, topEpoch = 0\<rparr>"

definition ex_metrics :: metrics where
  "ex_metrics = \<lparr>tick = 0, ctr = (\<lambda>_. 0), bigNilWarned = False, Buckets = [0, 0, 0, 0, 0, 0, 0], hSum = 0, hCount = 0, topAdds = []\<rparr>"

lemmas ex_defs = ex_env_def ex_cfg_def ex_gen_def ex_result_def ex_metrics_def ex_report_def

lemma ScanTimeout_zero: "ScanTimeout (EffortProfileFor fused l m 0) = 0"
  by (simp add: EffortProfileFor_closed Let_def)

lemma extMismatch_no_extension: "extMismatch res [] = []"
  by (simp add: extMismatch_def)

lemma no_feeds:
  assumes "mb_CheckDigest env = None" "uh_CheckCandidates env = None" "tf_CheckCandidates env = None"
  shows "appendReputationMatches env s out inc p buf res keys seed d mt = (out, inc, mt)"
  using assms by (simp add: appendReputationMatches_def split: bool.split)

lemmas scan_eval = scanGeneration_def resolveScanSetup_def scanRawChannel_def scanOne_def filterMarkerChannel_def
  extract_deadline_def extractionIncomplete_def scanStreamLoop_def stream_entries_def streamScanOrder_def
  scan_mismatch_def extMismatch_no_extension scan_def entry_budget_def stream_rules_def stream_vars_def scan_merge_def
  start_sweep_def scan_ctx_def raw_seed_def no_feeds finalScanVerdict_def applyResponseTags_def filterDenied_def
  newMatchSeen_def match_key_def match_of_yara_def matchIsMarker_def markerTag_def vbaKeySet_def zeroScanMeta_def
  ScanTimeout_zero



text \<open>
  (C4) Marker rules fire on markers only. A match of a marker-tagged rule in any scan result,
  complete or not, was reported by the native scanner on one of the extractor's out-of-band
  markers (or the renamed-container marker), scanned without the message's name variables;
  bytes of the message or of an extracted stream never produce one.
\<close>

theorem marker_matches_come_from_markers:
  fixes env s gen rules meta res
  defines "c \<equiv> scan_ctx env s gen rules meta res 0"
  assumes ext: "\<forall>xo. ExtractWithOptions env buf xo = res" and rules: "g_rules gen = Some rules"
    and run: "scanGeneration env s buf meta gen mt = (ms, err, mt')"
    and m: "m \<in> set ms" "matchIsMarker m"
  shows "\<exists>b \<in> marker_entries c res. \<exists>m0. reported c b (streamDedupKey env b) True m0 \<and> match_key m0 = match_key m"
proof -
  let ?k = "streamDedupKey env"
  from run rules ext obtain d p out rawErr mt1 mt2 xd mtx inc mt4 x out2 inc2 mt5 mt6 where
    raw: "scanRawChannel env (raw_rules s gen rules buf) buf meta p mt1 = (out, rawErr, mt2)" and
    x: "x = scanStreamLoop (scan_ctx env s gen rules meta res d) res (map ?k (Streams res))
           (start_sweep (raw_seed env meta buf) out inc (first_error res rawErr) mt4)" and
    app: "appendReputationMatches env s (filterDenied (x_out x) (g_deny gen)) (x_incomplete x) p buf res
       (map ?k (Streams res)) (raw_seed env meta buf) d mt5 = (out2, inc2, mt6)" and
    fin: "finalScanVerdict env (applyResponseTags (allowlist s) (canary s) out2) inc2 (x_completionErr x) rawErr meta d mt6 = (ms, err, mt')"
    by (rule scanGeneration_stages)
  have "m \<in> set (applyResponseTags (allowlist s) (canary s) out2)"
    using finalScanVerdict_matches [OF fin] m incomplete_not_marker by auto
  then obtain m1 where m1: "m1 \<in> set out2" "m = tag_match (allowlist s) (canary s) m1"
    by (auto simp: applyResponseTags_map)
  then have mk1: "matchIsMarker m1" "match_key m1 = match_key m"
    using m(2) by simp_all
  have "m1 \<in> set (filterDenied (x_out x) (g_deny gen))"
    using appendReputation_spec [OF app] m1(1) mk1(1) feed_not_marker by auto
  then have "m1 \<in> set (x_out x)"
    by (simp add: filterDenied_filter)
  moreover have "m1 \<notin> set out"
    using raw mk1(1) by (cases rule: scanRawChannel_cases) auto
  ultimately obtain b where "b \<in> marker_entries (scan_ctx env s gen rules meta res d) res"
    "reported (scan_ctx env s gen rules meta res d) b (?k b) True m1"
    using scanStreamLoop_provenance [of m1 "scan_ctx env s gen rules meta res d" res
        "start_sweep (raw_seed env meta buf) out inc (first_error res rawErr) mt4"] mk1(1) x
    by auto
  then show ?thesis
    using mk1(2) unfolding c_def scan_ctx_reported [of env s gen rules meta res d] by blast
qed

lemma ex_scan_M:
  "fst (scanGeneration (ex_env [] [[1]]) ex_cfg [] zeroScanMeta ex_gen ex_metrics) =
     [\<lparr>Rule = ''M'', Namespace = ''N'', Tags = lit [''marker''], Meta = None\<rparr>]"
  by (simp add: scan_eval ex_defs Let_def lit_def recordTopMatches_def)

theorem marker_matches_come_from_markers_witness:
  "\<exists>b \<in> marker_entries (scan_ctx (ex_env [] [[1]]) ex_cfg ex_gen 0 zeroScanMeta (ex_result [] [[1]]) 0) (ex_result [] [[1]]).
     \<exists>m0. match_key m0 = (''N'', ''M'')"
proof -
  let ?m = "\<lparr>Rule = ''M'', Namespace = ''N'', Tags = lit [''marker''], Meta = None\<rparr>"
  have "\<exists>b \<in> marker_entries (scan_ctx (ex_env [] [[1]]) ex_cfg ex_gen 0 zeroScanMeta (ex_result [] [[1]]) 0) (ex_result [] [[1]]).
     \<exists>m0. reported (scan_ctx (ex_env [] [[1]]) ex_cfg ex_gen 0 zeroScanMeta (ex_result [] [[1]]) 0) b
            (streamDedupKey (ex_env [] [[1]]) b) True m0 \<and> match_key m0 = match_key ?m"
    by (rule marker_matches_come_from_markers [where m = ?m and buf = "[]" and mt = ex_metrics, OF _ _ surjective_pairing [THEN trans, OF arg_cong [where f = "Pair _"], OF surjective_pairing]])
      (simp_all add: ex_scan_M, simp_all add: ex_env_def ex_gen_def matchIsMarker_def markerTag_def)
  then show ?thesis
    by (auto simp: match_key_def)
qed







text \<open>
  (C38) Streams are visited smallest first. The order covers every extracted stream exactly
  once; the streams that came from the format extractors precede the decoder output and are
  sorted by size, equal sizes in extraction order; the decoder output keeps its order.
\<close>

theorem stream_order_smallest_first:
  assumes "0 \<le> n" and "n \<le> int (length streams)"
  shows "let order = streamScanOrder streams n
    in mset order = mset [0..<length streams] \<and>
       sorted (map (\<lambda>i. length (streams ! i)) (take (nat n) order)) \<and>
       set (take (nat n) order) = {0..<nat n} \<and>
       drop (nat n) order = [nat n..<length streams] \<and>
       (\<forall>sz. filter (\<lambda>i. length (streams ! i) = sz) (take (nat n) order) =
              filter (\<lambda>i. length (streams ! i) = sz) [0..<nat n])"
proof -
  let ?key = "\<lambda>i. length (streams ! i)"
  have nn: "nat n \<le> length streams"
    using assms by linarith
  then have tk: "take (nat n) [0..<length streams] = [0..<nat n]" "drop (nat n) [0..<length streams] = [nat n..<length streams]"
    by (simp_all add: take_upt drop_upt)
  have small: "sort_key ?key [0..<nat n] = [0..<nat n]" if "\<not> n > 1"
  proof -
    have "nat n = 0 \<or> nat n = 1"
      using that by linarith
    then show ?thesis by auto
  qed
  have order: "streamScanOrder streams n = sort_key ?key [0..<nat n] @ [nat n..<length streams]"
  proof (cases "n > 1")
    case True
    then show ?thesis
      using assms tk by (simp add: streamScanOrder_def Let_def min_def)
  next
    case False
    then show ?thesis
      using assms nn small upt_add_eq_append [of 0 "nat n" "length streams - nat n"]
      by (simp add: streamScanOrder_def Let_def min_def)
  qed
  have "filter (\<lambda>i. ?key i = sz) (sort_key ?key [0..<nat n]) = filter (\<lambda>i. ?key i = sz) [0..<nat n]" for sz
    by (rule sort_key_stable)
  moreover have "mset (streamScanOrder streams n) = mset [0..<length streams]"
    by (rule streamScanOrder_perm)
  ultimately show ?thesis
    by (simp add: Let_def order del: mset_upt)
qed

theorem stream_order_smallest_first_witness:
  "let order = streamScanOrder [[1, 2, 3], [4], [5, 6]] 2 in drop 2 order = [2]"
  using stream_order_smallest_first [of 2 "[[1, 2, 3], [4], [5, 6]]"] by (simp add: Let_def)


end
