(* ===== verification/Verdict_Cache.thy ===== *)
theory Verdict_Cache
  imports Strix_Matches
begin

text \<open>
  The verdict cache, \<^verbatim>\<open>src/internal/mailstrix/cache.go\<close>: an in-process LRU bounded by entries
  and by an estimate of the bytes it retains, with an optional shared Redis layer behind a
  circuit breaker. The doubly linked list of \<^verbatim>\<open>container/list\<close> is the list of its element
  addresses, most recent first; \<open>heap\<close> holds the entry of each element and \<open>items\<close> the
  index from keys to elements, so that the code's sharing between list and index is explicit.
  Clock readings are arguments. What the Redis server answers, the HMAC and the JSON
  codec are arguments too. The eviction loop is a partial function: not ending is \<open>None\<close>.
  \<open>recency\<close> maps the structure to the plain list of entries in recency order, on which the
  operations are specified.
\<close>

section \<open>Saturating arithmetic and the size estimate\<close>

definition saturatingAdd :: "u64 \<Rightarrow> u64 \<Rightarrow> u64" where
  "saturatingAdd a b = (if max_u64 - a < b then max_u64 else a + b)"

definition saturatingMul :: "u64 \<Rightarrow> u64 \<Rightarrow> u64" where
  "saturatingMul a b = (if a \<noteq> 0 \<and> b > max_u64 div a then max_u64 else a * b)"

text \<open>The sizes of the structures on a 64-bit target.\<close>

definition entryFixedBytes :: u64 where "entryFixedBytes = 72 + 40 + 16 + 8"
definition matchBytes :: u64 where "matchBytes = 64"
definition stringSlotBytes :: u64 where "stringSlotBytes = 16"
definition metaHeaderBytes :: u64 where "metaHeaderBytes = 8 + 8 + 4 * 8"
definition metaBucketBytes :: u64 where "metaBucketBytes = 8 + 16 * 16 + 8"

definition str_bytes :: "string \<Rightarrow> u64" where
  "str_bytes s = of_nat (length s)"

fun bucket_loop :: "nat \<Rightarrow> u64 \<Rightarrow> u64 \<Rightarrow> u64 option" where
  "bucket_loop 0 n buckets = None"
| "bucket_loop (Suc fuel) n buckets =
     (if n > saturatingMul buckets 13 div 2
      then (if buckets > max_u64 div 2 then Some max_u64 else bucket_loop fuel n (buckets * 2))
      else Some buckets)"

definition meta_bytes :: "u64 \<Rightarrow> (string \<times> string) list \<Rightarrow> u64 + u64" where
  "meta_bytes tot kvs =
     (let t1 = saturatingAdd tot metaHeaderBytes;
          t2 = (if length kvs > 0
                then (case bucket_loop 65 (of_nat (length kvs)) 1 of
                        Some buckets \<Rightarrow>
                          if buckets = max_u64 then Inl max_u64
                          else Inr (saturatingAdd t1 (saturatingMul buckets metaBucketBytes))
                      | None \<Rightarrow> Inl max_u64)
                else Inr t1)
      in case t2 of
           Inl r \<Rightarrow> Inl r
         | Inr t \<Rightarrow> Inr (foldl (\<lambda>a kv. saturatingAdd (saturatingAdd a (str_bytes (fst kv))) (str_bytes (snd kv))) t kvs))"

fun match_loop :: "u64 \<Rightarrow> Match list \<Rightarrow> u64" where
  "match_loop tot [] = tot"
| "match_loop tot (m # ms) =
     (let t1 = saturatingAdd tot (str_bytes (Rule m));
          t2 = saturatingAdd t1 (str_bytes (Namespace m));
          t3 = saturatingAdd t2 (saturatingMul (of_nat (length (cap_list (Tags m)))) stringSlotBytes);
          t4 = foldl (\<lambda>a tag. saturatingAdd a (str_bytes tag)) t3 (cap_list (Tags m))
      in case Meta m of
           None \<Rightarrow> match_loop t4 ms
         | Some kvs \<Rightarrow> (case meta_bytes t4 kvs of Inl r \<Rightarrow> r | Inr t5 \<Rightarrow> match_loop t5 ms))"

definition cacheEntryRetainedBytes :: "string \<Rightarrow> Match gslice \<Rightarrow> u64" where
  "cacheEntryRetainedBytes key ms =
     (let t1 = saturatingAdd entryFixedBytes (str_bytes key);
          t2 = saturatingAdd t1 (saturatingMul (of_nat (length (cap_list ms))) matchBytes)
      in if cap_list ms = [] then t2 else match_loop t2 (cap_list ms))"

text \<open>The bucket count doubles at most 63 times, so the fuel of \<open>meta_bytes\<close> is never used up.\<close>

lemma bucket_loop_enough_fuel:
  "k \<le> 63 \<Longrightarrow> 63 < fuel + k \<Longrightarrow> bucket_loop fuel n (2 ^ k) \<noteq> None"
proof (induction fuel n "2 ^ k :: u64" arbitrary: k rule: bucket_loop.induct)
  case (2 fuel n)
  show ?case
  proof (cases "k = 63")
    case True
    then show ?thesis
      by simp
  next
    case False
    then have "bucket_loop fuel n (2 ^ Suc k) \<noteq> None" if "n > saturatingMul (2 ^ k) 13 div 2" "\<not> (2 ^ k :: u64) > max_u64 div 2"
      using that "2.prems" by (intro "2.hyps") simp_all
    then show ?thesis
      by (simp add: mult.commute)
  qed
qed simp

section \<open>Circuit breaker\<close>

record redisBreaker =
  fails :: int
  openUntil :: gotime

definition breakerTrip :: int where "breakerTrip = 5"
definition breakerCooldown :: duration where "breakerCooldown = 5 * second"

definition br_allow :: "gotime \<Rightarrow> redisBreaker \<Rightarrow> bool" where
  "br_allow t b = (\<not> t < openUntil b)"

definition br_ok :: "redisBreaker \<Rightarrow> redisBreaker" where
  "br_ok b = b\<lparr>fails := 0, openUntil := 0\<rparr>"

definition br_fail :: "gotime \<Rightarrow> redisBreaker \<Rightarrow> redisBreaker" where
  "br_fail t b =
     (let b1 = b\<lparr>fails := fails b + 1\<rparr>
      in if fails b1 \<ge> breakerTrip then b1\<lparr>openUntil := t + breakerCooldown, fails := 0\<rparr> else b1)"

definition br_isOpen :: "gotime \<Rightarrow> redisBreaker \<Rightarrow> bool" where
  "br_isOpen t b = (t < openUntil b)"

section \<open>Framing of values in Redis\<close>

definition macVersion :: char where "macVersion = CHR 0x01"
definition macLen :: nat where "macLen = 32"

definition redisMAC :: "(string \<Rightarrow> string \<Rightarrow> string) \<Rightarrow> string \<Rightarrow> string \<Rightarrow> string \<Rightarrow> string" where
  "redisMAC hmac key redisKey v = hmac key (redisKey @ [CHR 0x00] @ v)"

definition sealRedisValue :: "(string \<Rightarrow> string \<Rightarrow> string) \<Rightarrow> string \<Rightarrow> string \<Rightarrow> string \<Rightarrow> string" where
  "sealRedisValue hmac key redisKey v =
     (if length key = 0 then v else [macVersion] @ redisMAC hmac key redisKey v @ v)"

definition openRedisValue :: "(string \<Rightarrow> string \<Rightarrow> string) \<Rightarrow> string \<Rightarrow> string \<Rightarrow> string \<Rightarrow> string option" where
  "openRedisValue hmac key redisKey framed =
     (if length key = 0 then Some framed
      else if length framed \<le> 1 + macLen \<or> hd framed \<noteq> macVersion then None
      else (let v = drop (1 + macLen) framed
            in if take macLen (drop 1 framed) \<noteq> redisMAC hmac key redisKey v then None else Some v))"

section \<open>Redis layer\<close>

datatype redis_reply = RNil | RError | RBytes string

record redisLayer =
  prefix :: string
  br :: redisBreaker
  macKey :: string
  warned :: bool
  sent :: "(string \<times> string \<times> duration) list"

text \<open>
  One round trip: when the breaker was consulted and when a failure was noted, what the
  server answered to the GET of a key, and whether a SET went through.
\<close>

record redis_io =
  t_allow :: gotime
  t_fail :: gotime
  rdb_Get :: "string \<Rightarrow> redis_reply"
  rdb_Set_ok :: bool

record codec =
  hmac :: "string \<Rightarrow> string \<Rightarrow> string"
  Marshal :: "Match gslice \<Rightarrow> string option"
  Unmarshal :: "string \<Rightarrow> Match gslice option"

definition redis_get :: "codec \<Rightarrow> redis_io \<Rightarrow> redisLayer \<Rightarrow> string \<Rightarrow> redisLayer \<times> Match gslice option" where
  "redis_get cd io r key =
     (if \<not> br_allow (t_allow io) (br r) then (r, None)
      else (let rk = prefix r @ key
            in case rdb_Get io rk of
                 RNil \<Rightarrow> (r\<lparr>br := br_ok (br r)\<rparr>, None)
               | RError \<Rightarrow> (r\<lparr>br := br_fail (t_fail io) (br r)\<rparr>, None)
               | RBytes b \<Rightarrow>
                   (let r1 = r\<lparr>br := br_ok (br r)\<rparr>
                    in case openRedisValue (hmac cd) (macKey r) rk b of
                         None \<Rightarrow> (r1\<lparr>warned := True\<rparr>, None)
                       | Some v \<Rightarrow> (r1, Unmarshal cd v))))"

definition redis_put :: "codec \<Rightarrow> redis_io \<Rightarrow> redisLayer \<Rightarrow> string \<Rightarrow> Match gslice \<Rightarrow> duration \<Rightarrow> redisLayer" where
  "redis_put cd io r key ms ttl' =
     (if \<not> br_allow (t_allow io) (br r) then r
      else (case Marshal cd ms of
              None \<Rightarrow> r
            | Some b \<Rightarrow>
                (let rk = prefix r @ key;
                     r1 = r\<lparr>sent := sent r @ [(rk, sealRedisValue (hmac cd) (macKey r) rk b, ttl')]\<rparr>
                 in if \<not> rdb_Set_ok io then r1\<lparr>br := br_fail (t_fail io) (br r1)\<rparr>
                    else r1\<lparr>br := br_ok (br r1)\<rparr>)))"

section \<open>The LRU\<close>

record entry =
  e_key :: string
  e_matches :: "Match gslice"
  e_expires :: gotime
  e_size :: u64

record lruCache =
  ttl :: duration
  maxEntries :: int
  maxBytes :: u64
  bytes :: u64
  ll :: "nat list"
  heap :: "nat \<Rightarrow> entry option"
  fresh :: nat
  items :: "string \<Rightarrow> nat option"
  redis :: "redisLayer option"
  evictions :: u64
  byteEvictions :: u64
  countEvictions :: u64
  oversized :: u64

datatype verdict_cache = NoopCache | Lru lruCache

definition MoveToFront :: "nat \<Rightarrow> lruCache \<Rightarrow> lruCache" where
  "MoveToFront el c = c\<lparr>ll := el # remove1 el (ll c)\<rparr>"

definition PushFront :: "entry \<Rightarrow> lruCache \<Rightarrow> nat \<times> lruCache" where
  "PushFront e c = (fresh c, c\<lparr>heap := (heap c)(fresh c := Some e), ll := fresh c # ll c, fresh := fresh c + 1\<rparr>)"

definition Back :: "lruCache \<Rightarrow> nat option" where
  "Back c = (if ll c = [] then None else Some (last (ll c)))"

definition recordEviction :: "bool \<Rightarrow> lruCache \<Rightarrow> lruCache" where
  "recordEviction byteCause c =
     (let c1 = c\<lparr>evictions := evictions c + 1\<rparr>
      in if byteCause then c1\<lparr>byteEvictions := byteEvictions c1 + 1\<rparr>
         else c1\<lparr>countEvictions := countEvictions c1 + 1\<rparr>)"

definition debit :: "u64 \<Rightarrow> lruCache \<Rightarrow> lruCache" where
  "debit n c = (if n > bytes c then c\<lparr>bytes := 0\<rparr> else c\<lparr>bytes := bytes c - n\<rparr>)"

definition removeElement :: "nat option \<Rightarrow> lruCache \<Rightarrow> lruCache" where
  "removeElement el c =
     (case el of
        None \<Rightarrow> c
      | Some a \<Rightarrow>
          (let c1 = c\<lparr>ll := remove1 a (ll c)\<rparr>; e = the (heap c1 a)
           in debit (e_size e) (c1\<lparr>items := (items c1)(e_key e := None)\<rparr>)))"

partial_function (option) evict_loop :: "lruCache \<Rightarrow> lruCache option" where
  "evict_loop c =
     (if bytes c > maxBytes c \<or> int (length (ll c)) > maxEntries c
      then evict_loop (recordEviction (bytes c > maxBytes c) (removeElement (Back c) c))
      else Some c)"

declare evict_loop.simps [code]

definition putLocal :: "gotime \<Rightarrow> string \<Rightarrow> Match gslice \<Rightarrow> lruCache \<Rightarrow> lruCache option" where
  "putLocal t key ms c =
     (let sz = cacheEntryRetainedBytes key ms
      in if sz > maxBytes c
         then (let c1 = c\<lparr>oversized := oversized c + 1\<rparr>
               in case items c1 key of
                    Some el \<Rightarrow> Some (recordEviction True (removeElement (Some el) c1))
                  | None \<Rightarrow> Some c1)
         else (case items c key of
                 Some el \<Rightarrow>
                   (let e = the (heap c el);
                        c1 = debit (e_size e) c;
                        c2 = c1\<lparr>heap := (heap c1)(el \<mapsto> e\<lparr>e_matches := ms, e_expires := t + ttl c, e_size := sz\<rparr>)\<rparr>;
                        c3 = c2\<lparr>bytes := saturatingAdd (bytes c2) sz\<rparr>
                    in evict_loop (MoveToFront el c3))
               | None \<Rightarrow>
                   (let (el, c1) = PushFront \<lparr>e_key = key, e_matches = ms, e_expires = t + ttl c, e_size = sz\<rparr> c;
                        c2 = c1\<lparr>items := (items c1)(key \<mapsto> el)\<rparr>
                    in evict_loop (c2\<lparr>bytes := saturatingAdd (bytes c2) sz\<rparr>))))"

text \<open>The first half of \<^verbatim>\<open>Get\<close>: a live entry moves to the front, an expired one is dropped.\<close>

definition get_local :: "gotime \<Rightarrow> string \<Rightarrow> lruCache \<Rightarrow> lruCache \<times> Match gslice option" where
  "get_local t key c =
     (case items c key of
        Some el \<Rightarrow>
          (let e = the (heap c el)
           in if t < e_expires e then (MoveToFront el c, Some (e_matches e))
              else (removeElement (Some el) c, None))
      | None \<Rightarrow> (c, None))"

definition lru_Get :: "codec \<Rightarrow> redis_io \<Rightarrow> gotime \<Rightarrow> gotime \<Rightarrow> string \<Rightarrow> lruCache \<Rightarrow> (lruCache \<times> Match gslice option) option" where
  "lru_Get cd io t t' key c =
     (case get_local t key c of
        (c1, Some m) \<Rightarrow> Some (c1, Some m)
      | (c1, None) \<Rightarrow>
          (case redis c1 of
             None \<Rightarrow> Some (c1, None)
           | Some r \<Rightarrow>
               (case redis_get cd io r key of
                  (r', Some m) \<Rightarrow> map_option (\<lambda>c2. (c2, Some m)) (putLocal t' key m (c1\<lparr>redis := Some r'\<rparr>))
                | (r', None) \<Rightarrow> Some (c1\<lparr>redis := Some r'\<rparr>, None))))"

definition lru_Put :: "codec \<Rightarrow> redis_io \<Rightarrow> gotime \<Rightarrow> string \<Rightarrow> Match gslice \<Rightarrow> lruCache \<Rightarrow> lruCache option" where
  "lru_Put cd io t key ms c =
     map_option (\<lambda>c1. case redis c1 of None \<Rightarrow> c1 | Some r \<Rightarrow> c1\<lparr>redis := Some (redis_put cd io r key ms (ttl c1))\<rparr>)
       (putLocal t key ms c)"

definition lru_Flush :: "lruCache \<Rightarrow> lruCache" where
  "lru_Flush c = c\<lparr>ll := [], items := Map.empty, bytes := 0\<rparr>"

definition lru_Degraded :: "gotime \<Rightarrow> lruCache \<Rightarrow> string" where
  "lru_Degraded t l =
     (case redis l of
        Some r \<Rightarrow> if br_isOpen t (br r) then ''redis breaker open'' else ''''
      | None \<Rightarrow> '''')"

definition defaultCacheMaxBytes :: int where "defaultCacheMaxBytes = 268435456"

record cache_cfg =
  CacheTTL :: duration
  CacheSize :: int
  CacheMaxBytes :: int

definition NewCache :: "cache_cfg \<Rightarrow> redisLayer option \<Rightarrow> verdict_cache" where
  "NewCache cfg rl =
     (if CacheTTL cfg \<le> 0 then NoopCache
      else (let maxE = (if CacheSize cfg < 1 then 65536 else CacheSize cfg);
                maxB = (if CacheMaxBytes cfg < 1 then defaultCacheMaxBytes else CacheMaxBytes cfg)
            in Lru \<lparr>ttl = CacheTTL cfg, maxEntries = maxE, maxBytes = of_int maxB, bytes = 0, ll = [],
                    heap = Map.empty, fresh = 0, items = Map.empty, redis = rl, evictions = 0,
                    byteEvictions = 0, countEvictions = 0, oversized = 0\<rparr>))"

text \<open>The operations of the \<^verbatim>\<open>Cache\<close> interface on either implementation.\<close>

fun cache_Get :: "codec \<Rightarrow> redis_io \<Rightarrow> gotime \<Rightarrow> gotime \<Rightarrow> string \<Rightarrow> verdict_cache \<Rightarrow> (verdict_cache \<times> Match gslice option) option" where
  "cache_Get cd io t t' key NoopCache = Some (NoopCache, None)"
| "cache_Get cd io t t' key (Lru c) = map_option (\<lambda>(c', r). (Lru c', r)) (lru_Get cd io t t' key c)"

fun cache_Put :: "codec \<Rightarrow> redis_io \<Rightarrow> gotime \<Rightarrow> string \<Rightarrow> Match gslice \<Rightarrow> verdict_cache \<Rightarrow> verdict_cache option" where
  "cache_Put cd io t key ms NoopCache = Some NoopCache"
| "cache_Put cd io t key ms (Lru c) = map_option Lru (lru_Put cd io t key ms c)"

fun cache_Flush :: "verdict_cache \<Rightarrow> verdict_cache" where
  "cache_Flush NoopCache = NoopCache"
| "cache_Flush (Lru c) = Lru (lru_Flush c)"

section \<open>Abstraction and invariant\<close>

definition recency :: "lruCache \<Rightarrow> entry list" where
  "recency c = map (\<lambda>a. the (heap c a)) (ll c)"

definition size_sum :: "entry list \<Rightarrow> nat" where
  "size_sum es = sum_list (map (\<lambda>e. unat (e_size e)) es)"

definition lru_wf :: "lruCache \<Rightarrow> bool" where
  "lru_wf c \<longleftrightarrow>
     distinct (ll c) \<and>
     (\<forall>a \<in> set (ll c). a < fresh c \<and> heap c a \<noteq> None \<and> items c (e_key (the (heap c a))) = Some a) \<and>
     (\<forall>k a. items c k = Some a \<longrightarrow> a \<in> set (ll c) \<and> e_key (the (heap c a)) = k) \<and>
     unat (bytes c) = size_sum (recency c)"

definition lru_limits :: "lruCache \<Rightarrow> bool" where
  "lru_limits c \<longleftrightarrow> 1 \<le> maxEntries c \<and> unat (maxBytes c) < 2 ^ 63"

definition lru_inv :: "lruCache \<Rightarrow> bool" where
  "lru_inv c \<longleftrightarrow> lru_wf c \<and> lru_limits c \<and> size_sum (recency c) \<le> unat (maxBytes c) \<and> int (length (recency c)) \<le> maxEntries c"

text \<open>The same data without pointers: drop the entry of a key, and drop from the cold end.\<close>

definition without :: "string \<Rightarrow> entry list \<Rightarrow> entry list" where
  "without k es = filter (\<lambda>e. e_key e \<noteq> k) es"

definition lookup :: "string \<Rightarrow> entry list \<Rightarrow> entry option" where
  "lookup k es = find (\<lambda>e. e_key e = k) es"

function trim :: "nat \<Rightarrow> int \<Rightarrow> entry list \<Rightarrow> entry list" where
  "trim maxB maxE es =
     (if es \<noteq> [] \<and> (size_sum es > maxB \<or> int (length es) > maxE) then trim maxB maxE (butlast es) else es)"
  by auto
termination
  by (relation "measure (\<lambda>(b, m, es). length es)") auto

declare trim.simps [simp del]

lemma size_sum_simps [simp]:
  "size_sum [] = 0" "size_sum (e # es) = unat (e_size e) + size_sum es" "size_sum (xs @ ys) = size_sum xs + size_sum ys"
  by (simp_all add: size_sum_def)

lemma length_recency [simp]: "length (recency c) = length (ll c)"
  by (simp add: recency_def)

lemma saturatingAdd_exact: "unat a + unat b < 2 ^ 64 \<Longrightarrow> unat (saturatingAdd a b) = unat a + unat b"
proof -
  assume sum: "unat a + unat b < 2 ^ 64"
  have "unat (max_u64 - a) = 2 ^ 64 - 1 - unat a"
    by (subst unat_minus_u64) (simp_all add: word_order.extremum)
  then have "\<not> max_u64 - a < b"
    using sum by (simp add: word_less_nat_alt)
  then show ?thesis
    using sum by (simp add: saturatingAdd_def unat_plus_u64)
qed

lemma lru_wf_heap: "lru_wf c \<Longrightarrow> a \<in> set (ll c) \<Longrightarrow> items c (e_key (the (heap c a))) = Some a"
  by (simp add: lru_wf_def)

lemma lru_wf_items:
  assumes "lru_wf c" and "items c k = Some a"
  shows "a \<in> set (ll c)" and "e_key (the (heap c a)) = k"
  using assms by (auto simp: lru_wf_def)

lemma lru_wf_key_inj:
  assumes "lru_wf c" "a \<in> set (ll c)" "b \<in> set (ll c)" "e_key (the (heap c a)) = e_key (the (heap c b))"
  shows "a = b"
proof -
  have "Some a = Some b"
    unfolding lru_wf_heap [OF assms(1,2), symmetric] lru_wf_heap [OF assms(1,3), symmetric] assms(4) ..
  then show ?thesis
    by (rule option.inject [THEN iffD1])
qed

lemma recency_keys_distinct:
  assumes "lru_wf c"
  shows "distinct (map e_key (recency c))"
proof -
  have "inj_on (\<lambda>a. e_key (the (heap c a))) (set (ll c))"
    by (intro inj_onI lru_wf_key_inj [OF assms])
  moreover have "distinct (ll c)"
    using assms by (simp add: lru_wf_def)
  ultimately show ?thesis
    by (simp add: recency_def o_def distinct_map)
qed

lemma recency_remove1:
  assumes "lru_wf c" "a \<in> set (ll c)"
  shows "map (\<lambda>x. the (heap c x)) (remove1 a (ll c)) = without (e_key (the (heap c a))) (recency c)"
proof -
  have "distinct (ll c)"
    using assms(1) by (simp add: lru_wf_def)
  then have "remove1 a (ll c) = filter (\<lambda>x. x \<noteq> a) (ll c)"
    by (simp add: distinct_remove1_removeAll removeAll_filter_not_eq eq_commute [of a])
  also have "\<dots> = filter (\<lambda>x. e_key (the (heap c x)) \<noteq> e_key (the (heap c a))) (ll c)"
    using lru_wf_key_inj [OF assms(1)] assms(2) by (intro filter_cong) auto
  finally show ?thesis
    by (simp add: without_def recency_def filter_map o_def)
qed

lemma size_sum_without:
  assumes "distinct (map e_key es)" "e \<in> set es"
  shows "size_sum (without (e_key e) es) + unat (e_size e) = size_sum es"
  using assms
proof (induction es)
  case (Cons x es)
  show ?case
  proof (cases "x = e")
    case True
    with Cons.prems(1) have "\<forall>y \<in> set es. e_key y \<noteq> e_key e"
      by (simp add: image_iff) metis
    then have "without (e_key e) es = es"
      by (simp add: without_def)
    with True show ?thesis
      by (simp add: without_def)
  next
    case False
    with Cons.prems have "e \<in> set es" "e_key x \<noteq> e_key e"
      by auto
    with Cons show ?thesis
      by (simp add: without_def)
  qed
qed simp

lemma lookup_items:
  assumes "lru_wf c"
  shows "lookup k (recency c) = map_option (\<lambda>a. the (heap c a)) (items c k)"
proof (cases "items c k")
  case None
  have "e_key (the (heap c a)) \<noteq> k" if "a \<in> set (ll c)" for a
    using lru_wf_heap [OF assms that] None by auto
  with None show ?thesis
    by (auto simp: lookup_def find_None_iff recency_def)
next
  case (Some a)
  note a = lru_wf_items [OF assms Some]
  have mem: "the (heap c a) \<in> set (recency c)"
    using a(1) by (simp add: recency_def)
  have "lookup (e_key e) es = Some e" if "distinct (map e_key es)" "e \<in> set es" for e es
    using that by (induction es) (auto simp: lookup_def)
  from this [OF recency_keys_distinct [OF assms] mem] a(2) Some show ?thesis
    by simp
qed

section \<open>Each pointer operation on the recency list\<close>

lemma removeElement_recency:
  assumes wf: "lru_wf c" and a: "a \<in> set (ll c)"
  shows "recency (removeElement (Some a) c) = without (e_key (the (heap c a))) (recency c)"
  using recency_remove1 [OF assms] by (simp add: removeElement_def debit_def Let_def recency_def)

lemma removeElement_wf:
  assumes wf: "lru_wf c" and a: "a \<in> set (ll c)"
  shows "lru_wf (removeElement (Some a) c)"
proof -
  let ?e = "the (heap c a)"
  let ?c = "removeElement (Some a) c"
  have mem: "?e \<in> set (recency c)"
    using a by (simp add: recency_def)
  have dist: "distinct (ll c)"
    using wf by (simp add: lru_wf_def)
  have sum: "size_sum (without (e_key ?e) (recency c)) + unat (e_size ?e) = unat (bytes c)"
    using size_sum_without [OF recency_keys_distinct [OF wf] mem] wf by (simp add: lru_wf_def)
  then have le: "e_size ?e \<le> bytes c"
    by (simp add: word_le_nat_alt)
  then have fields: "ll ?c = remove1 a (ll c)" "heap ?c = heap c" "fresh ?c = fresh c"
    "items ?c = (items c)(e_key ?e := None)" "unat (bytes ?c) = unat (bytes c) - unat (e_size ?e)"
    by (simp_all add: removeElement_def debit_def Let_def unat_minus_u64 not_less)
  have other: "items ?c (e_key (the (heap c b))) = Some b" if "b \<in> set (remove1 a (ll c))" for b
  proof -
    have b: "b \<in> set (ll c)" "b \<noteq> a"
      using that dist by (simp_all add: set_remove1_eq)
    then have "e_key (the (heap c b)) \<noteq> e_key ?e"
      using lru_wf_key_inj [OF wf b(1) a] by blast
    then show ?thesis
      using lru_wf_heap [OF wf b(1)] by (simp add: fields)
  qed
  have inv: "b \<in> set (remove1 a (ll c)) \<and> e_key (the (heap c b)) = k" if "items ?c k = Some b" for k b
  proof -
    have k: "items c k = Some b" "k \<noteq> e_key ?e"
      using that by (auto simp: fields split: if_splits)
    then show ?thesis
      using lru_wf_items [OF wf k(1)] dist by (auto simp: set_remove1_eq)
  qed
  have "unat (bytes ?c) = size_sum (recency ?c)"
    using removeElement_recency [OF assms] sum fields(5) by simp
  moreover have "\<forall>b \<in> set (remove1 a (ll c)). b < fresh c \<and> heap c b \<noteq> None"
    using wf by (auto simp: lru_wf_def dest: notin_set_remove1)
  ultimately show ?thesis
    unfolding lru_wf_def fields(1-3) using other inv dist by auto
qed

lemma removeElement_fields [simp]:
  "maxBytes (removeElement el c) = maxBytes c" "maxEntries (removeElement el c) = maxEntries c"
  "ttl (removeElement el c) = ttl c" "redis (removeElement el c) = redis c"
  by (simp_all add: removeElement_def debit_def Let_def split: option.split)

lemma recordEviction_fields [simp]:
  "maxBytes (recordEviction b c) = maxBytes c" "maxEntries (recordEviction b c) = maxEntries c"
  "ttl (recordEviction b c) = ttl c" "redis (recordEviction b c) = redis c"
  "recency (recordEviction b c) = recency c" "lru_wf (recordEviction b c) = lru_wf c" "ll (recordEviction b c) = ll c"
  "bytes (recordEviction b c) = bytes c"
  by (simp_all add: recordEviction_def Let_def recency_def lru_wf_def)

lemma MoveToFront_recency:
  assumes "lru_wf c" "a \<in> set (ll c)"
  shows "recency (MoveToFront a c) = the (heap c a) # without (e_key (the (heap c a))) (recency c)"
  using recency_remove1 [OF assms] by (simp add: MoveToFront_def recency_def)

lemma size_sum_front:
  assumes "lru_wf c" "a \<in> set (ll c)"
  shows "unat (e_size (the (heap c a))) + size_sum (without (e_key (the (heap c a))) (recency c)) = size_sum (recency c)"
  using size_sum_without [OF recency_keys_distinct [OF assms(1)], of "the (heap c a)"] assms(2)
  by (simp add: recency_def)

lemma MoveToFront_wf:
  assumes wf: "lru_wf c" and a: "a \<in> set (ll c)"
  shows "lru_wf (MoveToFront a c)"
proof -
  have set: "set (a # remove1 a (ll c)) = set (ll c)" and dist: "distinct (a # remove1 a (ll c))"
    using wf a by (auto simp: lru_wf_def set_remove1_eq)
  have "size_sum (recency (MoveToFront a c)) = size_sum (recency c)"
    using MoveToFront_recency [OF assms] size_sum_front [OF assms] by simp
  then have "size_sum (recency (c\<lparr>ll := a # remove1 a (ll c)\<rparr>)) = unat (bytes c)"
    using wf by (simp add: MoveToFront_def lru_wf_def)
  then show ?thesis
    using wf dist a unfolding lru_wf_def MoveToFront_def lruCache.simps set by auto
qed

section \<open>The eviction loop ends\<close>

lemma Back_last:
  assumes "lru_wf c" "ll c \<noteq> []"
  shows "recency (removeElement (Back c) c) = butlast (recency c)" and "lru_wf (removeElement (Back c) c)"
proof -
  have a: "last (ll c) \<in> set (ll c)"
    using assms(2) by simp
  have dist: "distinct (map e_key (recency c))"
    using assms(1) by (rule recency_keys_distinct)
  obtain es e where es: "recency c = es @ [e]"
    using assms(2) by (metis append_butlast_last_id length_0_conv length_recency)
  then have e: "the (heap c (last (ll c))) = e"
    using last_map [OF assms(2), of "\<lambda>a. the (heap c a)"] by (simp add: recency_def)
  have "\<forall>x \<in> set es. e_key x \<noteq> e_key e"
    using dist es by (force simp: image_iff)
  then have "without (e_key e) (recency c) = es"
    by (simp add: es without_def)
  then show "recency (removeElement (Back c) c) = butlast (recency c)"
    using removeElement_recency [OF assms(1) a] assms(2) by (simp add: Back_def e es)
  show "lru_wf (removeElement (Back c) c)"
    using removeElement_wf [OF assms(1) a] assms(2) by (simp add: Back_def)
qed

lemma evict_loop_trim:
  assumes "lru_wf c" and "0 \<le> maxEntries c"
  shows "\<exists>c'. evict_loop c = Some c' \<and> lru_wf c' \<and> recency c' = trim (unat (maxBytes c)) (maxEntries c) (recency c) \<and>
    maxBytes c' = maxBytes c \<and> maxEntries c' = maxEntries c \<and> ttl c' = ttl c \<and> redis c' = redis c"
  using assms
proof (induction "length (ll c)" arbitrary: c rule: less_induct)
  case less
  have sum: "unat (bytes c) = size_sum (recency c)"
    using less.prems(1) by (simp add: lru_wf_def)
  show ?case
  proof (cases "bytes c > maxBytes c \<or> int (length (ll c)) > maxEntries c")
    case False
    then have "\<not> (size_sum (recency c) > unat (maxBytes c) \<or> int (length (recency c)) > maxEntries c)"
      using sum by (simp add: word_less_nat_alt)
    then show ?thesis
      using False less.prems by (simp add: evict_loop.simps [of c] trim.simps [of _ _ "recency c"])
  next
    case True
    have ne: "ll c \<noteq> []"
      using True sum less.prems(2) by (auto simp: word_less_nat_alt recency_def)
    define d where "d = recordEviction (bytes c > maxBytes c) (removeElement (Back c) c)"
    have d: "lru_wf d" "recency d = butlast (recency c)" "maxBytes d = maxBytes c" "maxEntries d = maxEntries c"
      "ttl d = ttl c" "redis d = redis c"
      using Back_last [OF less.prems(1) ne] by (simp_all add: d_def)
    have "length (ll d) < length (ll c)"
      using arg_cong [OF d(2), of length] ne by simp
    from less.hyps [OF this d(1)] d less.prems(2) obtain c' where
      c': "evict_loop d = Some c'" "lru_wf c'" "recency c' = trim (unat (maxBytes c)) (maxEntries c) (butlast (recency c))"
        "maxBytes c' = maxBytes c" "maxEntries c' = maxEntries c" "ttl c' = ttl c" "redis c' = redis c"
      by auto
    have "evict_loop c = evict_loop d"
      using True by (simp add: evict_loop.simps [of c] d_def)
    moreover have "recency c \<noteq> [] \<and> (size_sum (recency c) > unat (maxBytes c) \<or> int (length (recency c)) > maxEntries c)"
      using True ne sum by (auto simp: word_less_nat_alt recency_def)
    then have "trim (unat (maxBytes c)) (maxEntries c) (recency c) = trim (unat (maxBytes c)) (maxEntries c) (butlast (recency c))"
      by (simp add: trim.simps [of _ _ "recency c"])
    ultimately show ?thesis
      using c' by simp
  qed
qed

section \<open>Put and Get on the recency list\<close>

text \<open>What \<^verbatim>\<open>putLocal\<close> does to the recency list, without pointers and without a running byte count.\<close>

definition put_spec :: "nat \<Rightarrow> int \<Rightarrow> entry \<Rightarrow> entry list \<Rightarrow> entry list" where
  "put_spec maxB maxE e es =
     (if unat (e_size e) > maxB then without (e_key e) es else trim maxB maxE (e # without (e_key e) es))"

lemma in_without [simp]: "x \<in> set (without k es) \<longleftrightarrow> x \<in> set es \<and> e_key x \<noteq> k"
  by (auto simp: without_def)

lemma length_without: "length (without k es) \<le> length es"
  by (simp add: without_def)

lemma size_sum_without_le: "size_sum (without k es) \<le> size_sum es"
  by (induction es) (auto simp: without_def)

lemma trim_stop: "\<not> (es \<noteq> [] \<and> (size_sum es > b \<or> int (length es) > m)) \<Longrightarrow> trim b m es = es"
  by (subst trim.simps) (rule if_not_P)

lemma trim_take: "\<exists>n. trim b m es = take n es"
proof (induction b m es rule: trim.induct)
  case (1 b m es)
  show ?case
  proof (cases "es \<noteq> [] \<and> (size_sum es > b \<or> int (length es) > m)")
    case True
    then have eq: "trim b m es = trim b m (butlast es)"
      by (simp add: trim.simps [of b m es])
    obtain n where "trim b m (butlast es) = take n (butlast es)"
      using "1.IH" [OF True] by blast
    then show ?thesis
      unfolding eq by (simp add: butlast_conv_take) blast
  next
    case False
    then have "trim b m es = take (length es) es"
      by (simp add: trim_stop)
    then show ?thesis ..
  qed
qed

lemma trim_subset: "set (trim b m es) \<subseteq> set es"
  using trim_take [of b m es] set_take_subset by metis

lemma trim_bounds:
  assumes "0 \<le> m"
  shows "size_sum (trim b m es) \<le> b \<and> int (length (trim b m es)) \<le> m"
  using assms
proof (induction b m es rule: trim.induct)
  case (1 b m es)
  show ?case
  proof (cases "es \<noteq> [] \<and> (size_sum es > b \<or> int (length es) > m)")
    case True
    then show ?thesis
      using "1.IH" [OF True "1.prems"] by (simp add: trim.simps [of b m es])
  next
    case False
    then have "trim b m es = es"
      by (rule trim_stop)
    then show ?thesis
      using False "1.prems" by (cases "es = []") auto
  qed
qed

lemma trim_head:
  assumes "unat (e_size e) \<le> b" "1 \<le> m"
  shows "\<exists>es'. trim b m (e # es) = e # es'"
proof (induction es rule: rev_induct)
  case Nil
  then show ?case
    using assms by (subst trim.simps) simp
next
  case (snoc x es)
  then show ?case
    using assms by (subst trim.simps) simp
qed

lemma debit_exact: "n \<le> bytes c \<Longrightarrow> debit n c = c\<lparr>bytes := bytes c - n\<rparr>"
  by (simp add: debit_def not_less [symmetric])

lemma size_le_bytes:
  assumes "lru_wf c" "a \<in> set (ll c)"
  shows "e_size (the (heap c a)) \<le> bytes c"
proof -
  have "unat (e_size (the (heap c a))) \<le> unat (bytes c)"
    using size_sum_front [OF assms] assms(1) by (simp add: lru_wf_def)
  then show ?thesis
    by (simp add: word_le_nat_alt)
qed

text \<open>The two ways an entry reaches the front: a new element, and an overwritten one.\<close>

definition pushed :: "entry \<Rightarrow> lruCache \<Rightarrow> lruCache" where
  "pushed e c = (let c1 = snd (PushFront e c); c2 = c1\<lparr>items := (items c1)(e_key e \<mapsto> fresh c)\<rparr>
                 in c2\<lparr>bytes := saturatingAdd (bytes c2) (e_size e)\<rparr>)"

definition overwritten :: "entry \<Rightarrow> nat \<Rightarrow> lruCache \<Rightarrow> lruCache" where
  "overwritten e el c =
     (let c1 = debit (e_size (the (heap c el))) c; c2 = c1\<lparr>heap := (heap c1)(el \<mapsto> e)\<rparr>
      in MoveToFront el (c2\<lparr>bytes := saturatingAdd (bytes c2) (e_size e)\<rparr>))"

lemma pushed_refines:
  assumes wf: "lru_wf c" and none: "items c (e_key e) = None" and room: "unat (bytes c) + unat (e_size e) < 2 ^ 64"
  shows "lru_wf (pushed e c)" and "recency (pushed e c) = e # without (e_key e) (recency c)"
proof -
  have old: "a < fresh c" "e_key (the (heap c a)) \<noteq> e_key e" if "a \<in> set (ll c)" for a
    using that wf none lru_wf_heap [OF wf that] by (auto simp: lru_wf_def)
  then have new: "fresh c \<notin> set (ll c)"
    by blast
  have "without (e_key e) (recency c) = recency c"
    using old(2) by (auto simp: without_def recency_def)
  then show rec: "recency (pushed e c) = e # without (e_key e) (recency c)"
    using new by (auto simp: pushed_def PushFront_def Let_def recency_def)
  have keys: "k \<noteq> e_key e" if "items c k = Some a" for k a
    using that none by auto
  have "unat (bytes (pushed e c)) = size_sum (recency (pushed e c))"
    using room wf \<open>without (e_key e) (recency c) = recency c\<close> rec
    by (simp add: pushed_def PushFront_def Let_def saturatingAdd_exact lru_wf_def)
  then show "lru_wf (pushed e c)"
    using wf old new keys unfolding lru_wf_def
    by (auto simp: pushed_def PushFront_def Let_def less_Suc_eq dest: lru_wf_items)
qed

lemma overwritten_refines:
  assumes wf: "lru_wf c" and el: "items c (e_key e) = Some el" and room: "unat (bytes c) + unat (e_size e) < 2 ^ 64"
  shows "lru_wf (overwritten e el c)" and "recency (overwritten e el c) = e # without (e_key e) (recency c)"
proof -
  have mem: "el \<in> set (ll c)" and key: "e_key (the (heap c el)) = e_key e"
    using lru_wf_items [OF wf el] by blast+
  have dist: "distinct (ll c)" and el_new: "el \<notin> set (remove1 el (ll c))"
    using wf by (simp_all add: lru_wf_def set_remove1_eq)
  note le = size_le_bytes [OF wf mem]
  have "map (\<lambda>a. the (((heap c)(el \<mapsto> e)) a)) (remove1 el (ll c)) = map (\<lambda>a. the (heap c a)) (remove1 el (ll c))"
    using el_new by (intro map_cong) auto
  then show rec: "recency (overwritten e el c) = e # without (e_key e) (recency c)"
    using recency_remove1 [OF wf mem]
    by (simp add: overwritten_def MoveToFront_def debit_exact [OF le] Let_def recency_def key)
  have bytes: "unat (bytes c - e_size (the (heap c el))) = size_sum (without (e_key e) (recency c))"
    using size_sum_front [OF wf mem] wf le by (simp add: unat_minus_u64 lru_wf_def key)
  have "unat (bytes (overwritten e el c)) = size_sum (recency (overwritten e el c))"
    using room bytes rec size_sum_without_le [of "e_key e" "recency c"] wf
    by (simp add: overwritten_def MoveToFront_def debit_exact [OF le] Let_def saturatingAdd_exact lru_wf_def)
  moreover have set: "set (el # remove1 el (ll c)) = set (ll c)" and "distinct (el # remove1 el (ll c))"
    using mem dist el_new by (auto simp: set_remove1_eq)
  moreover have "items c (e_key (the (((heap c)(el \<mapsto> e)) a))) = Some a" if "a \<in> set (ll c)" for a
    using that el lru_wf_heap [OF wf that] by (cases "a = el") simp_all
  moreover have "a \<in> set (ll c) \<and> e_key (the (((heap c)(el \<mapsto> e)) a)) = k" if "items c k = Some a" for k a
    using lru_wf_items [OF wf that] key by (cases "a = el") simp_all
  moreover have "a < fresh c \<and> ((heap c)(el \<mapsto> e)) a \<noteq> None" if "a \<in> set (ll c)" for a
    using wf that by (simp add: lru_wf_def)
  moreover have "ll (overwritten e el c) = el # remove1 el (ll c)" "heap (overwritten e el c) = (heap c)(el \<mapsto> e)"
    "items (overwritten e el c) = items c" "fresh (overwritten e el c) = fresh c"
    by (simp_all add: overwritten_def MoveToFront_def debit_exact [OF le] Let_def)
  ultimately show "lru_wf (overwritten e el c)"
    unfolding lru_wf_def by (metis (no_types, lifting))
qed

definition new_entry :: "gotime \<Rightarrow> string \<Rightarrow> Match gslice \<Rightarrow> lruCache \<Rightarrow> entry" where
  "new_entry t key ms c = \<lparr>e_key = key, e_matches = ms, e_expires = t + ttl c, e_size = cacheEntryRetainedBytes key ms\<rparr>"

lemma new_entry_simps [simp]:
  "e_key (new_entry t key ms c) = key" "e_matches (new_entry t key ms c) = ms"
  "e_expires (new_entry t key ms c) = t + ttl c" "e_size (new_entry t key ms c) = cacheEntryRetainedBytes key ms"
  by (simp_all add: new_entry_def)

text \<open>The fields that no operation of the local layer touches.\<close>

definition same_config :: "lruCache \<Rightarrow> lruCache \<Rightarrow> bool" where
  "same_config c c' \<longleftrightarrow> maxBytes c' = maxBytes c \<and> maxEntries c' = maxEntries c \<and> ttl c' = ttl c \<and> redis c' = redis c"

lemma same_config_trans: "same_config a b \<Longrightarrow> same_config b c \<Longrightarrow> same_config a c"
  by (simp add: same_config_def)

lemma putLocal_oversized:
  assumes "cacheEntryRetainedBytes key ms > maxBytes c"
  shows "putLocal t key ms c =
    (case items c key of
       None \<Rightarrow> Some (c\<lparr>oversized := oversized c + 1\<rparr>)
     | Some el \<Rightarrow> Some (recordEviction True (removeElement (Some el) (c\<lparr>oversized := oversized c + 1\<rparr>))))"
  using assms by (simp add: putLocal_def Let_def split: option.split)

lemma putLocal_fits:
  assumes "lru_wf c" "\<not> cacheEntryRetainedBytes key ms > maxBytes c"
  shows "putLocal t key ms c =
    evict_loop (case items c key of None \<Rightarrow> pushed (new_entry t key ms c) c
                | Some el \<Rightarrow> overwritten (new_entry t key ms c) el c)"
proof (cases "items c key")
  case None
  then show ?thesis
    using assms(2) by (simp add: putLocal_def pushed_def PushFront_def Let_def new_entry_def)
next
  case (Some el)
  have "e_key (the (heap c el)) = key"
    by (rule lru_wf_items [OF assms(1) Some])
  then have "(the (heap c el))\<lparr>e_matches := ms, e_expires := t + ttl c, e_size := cacheEntryRetainedBytes key ms\<rparr> =
      new_entry t key ms c"
    by (simp add: new_entry_def)
  then show ?thesis
    using assms(2) Some by (simp add: putLocal_def overwritten_def Let_def)
qed

lemma lru_inv_bytes: "lru_inv c \<Longrightarrow> unat (bytes c) \<le> unat (maxBytes c)"
  by (simp add: lru_inv_def lru_wf_def)

lemma oversized_only [simp]:
  "recency (c\<lparr>oversized := n\<rparr>) = recency c" "lru_wf (c\<lparr>oversized := n\<rparr>) = lru_wf c"
  by (simp_all add: recency_def lru_wf_def)

lemma lru_inv_subset:
  assumes "lru_inv c" "lru_wf c'" "same_config c c'" "size_sum (recency c') \<le> size_sum (recency c)"
    "length (recency c') \<le> length (recency c)"
  shows "lru_inv c'"
  using assms by (simp add: lru_inv_def same_config_def lru_limits_def)

lemma putLocal_refines:
  assumes inv: "lru_inv c"
  shows "\<exists>c'. putLocal t key ms c = Some c' \<and> lru_inv c' \<and> same_config c c' \<and>
    recency c' = put_spec (unat (maxBytes c)) (maxEntries c) (new_entry t key ms c) (recency c)"
proof -
  let ?e = "new_entry t key ms c"
  have wf: "lru_wf c" and lim: "1 \<le> maxEntries c" "unat (maxBytes c) < 2 ^ 63"
    using inv by (simp_all add: lru_inv_def lru_limits_def)
  show ?thesis
  proof (cases "cacheEntryRetainedBytes key ms > maxBytes c")
    case True
    define d where "d = c\<lparr>oversized := oversized c + 1\<rparr>"
    have d: "lru_wf d" "recency d = recency c" "same_config c d" "items d = items c" "heap d = heap c" "ll d = ll c"
      using wf by (simp_all add: d_def same_config_def)
    have spec: "put_spec (unat (maxBytes c)) (maxEntries c) ?e (recency c) = without key (recency c)"
      using True by (simp add: put_spec_def word_less_nat_alt)
    show ?thesis
    proof (cases "items c key")
      case None
      have "\<forall>a \<in> set (ll c). e_key (the (heap c a)) \<noteq> key"
        using lru_wf_heap [OF wf] None by auto
      then have "without key (recency c) = recency c"
        by (auto simp: without_def recency_def)
      moreover have "lru_inv d"
        by (rule lru_inv_subset [OF inv d(1) d(3)]) (simp_all add: d)
      ultimately show ?thesis
        using None d putLocal_oversized [OF True] spec by (simp add: d_def)
    next
      case (Some el)
      let ?r = "recordEviction True (removeElement (Some el) d)"
      have el: "el \<in> set (ll d)" "e_key (the (heap d el)) = key"
        using lru_wf_items [OF wf Some] d by simp_all
      have r: "lru_wf ?r" "recency ?r = without key (recency c)" "same_config c ?r"
        using removeElement_wf [OF d(1) el(1)] removeElement_recency [OF d(1) el(1)] el(2) d
        by (simp_all add: same_config_def)
      have "lru_inv ?r"
        by (rule lru_inv_subset [OF inv r(1) r(3)]) (simp_all only: r size_sum_without_le length_without)
      then show ?thesis
        using Some r putLocal_oversized [OF True] spec by (simp add: d_def)
    qed
  next
    case False
    define d where "d = (case items c key of None \<Rightarrow> pushed ?e c | Some el \<Rightarrow> overwritten ?e el c)"
    have room: "unat (bytes c) + unat (e_size ?e) < 2 ^ 64"
      using lru_inv_bytes [OF inv] False lim(2) by (simp add: word_less_nat_alt)
    have d: "lru_wf d" "recency d = ?e # without key (recency c)"
      using pushed_refines [OF wf _ room] overwritten_refines [OF wf _ room]
      by (simp_all add: d_def split: option.split)
    have cfg: "same_config c d"
      by (simp add: d_def same_config_def pushed_def overwritten_def PushFront_def MoveToFront_def debit_def Let_def split: option.split)
    obtain c' where c': "evict_loop d = Some c'" "lru_wf c'" "same_config d c'"
      "recency c' = trim (unat (maxBytes c)) (maxEntries c) (?e # without key (recency c))"
      using evict_loop_trim [OF d(1)] cfg lim(1) d(2) by (auto simp: same_config_def)
    have "lru_inv c'"
      using c' cfg lim trim_bounds [of "maxEntries c" "unat (maxBytes c)"]
      by (simp add: lru_inv_def lru_limits_def same_config_def)
    then show ?thesis
      using c' cfg False putLocal_fits [OF wf False]
      by (simp add: d_def put_spec_def word_less_nat_alt same_config_def)
  qed
qed

lemma lookup_member: "lookup k es = Some e \<Longrightarrow> e \<in> set es \<and> e_key e = k"
  by (auto simp: lookup_def find_Some_iff)

definition get_spec :: "gotime \<Rightarrow> string \<Rightarrow> entry list \<Rightarrow> entry list \<times> Match gslice option" where
  "get_spec t key es =
     (case lookup key es of
        None \<Rightarrow> (es, None)
      | Some e \<Rightarrow> if t < e_expires e then (e # without key es, Some (e_matches e)) else (without key es, None))"

lemma get_local_refines:
  assumes inv: "lru_inv c"
  shows "(recency (fst (get_local t key c)), snd (get_local t key c)) = get_spec t key (recency c)"
    and "lru_inv (fst (get_local t key c))" and "same_config c (fst (get_local t key c))"
proof -
  have wf: "lru_wf c"
    using inv by (simp add: lru_inv_def)
  note look = lookup_items [OF wf, of key]
  consider (absent) "items c key = None" | (present) el where "items c key = Some el" "el \<in> set (ll c)" "e_key (the (heap c el)) = key"
    using lru_wf_items [OF wf] by (cases "items c key") auto
  note cases = this
  show "(recency (fst (get_local t key c)), snd (get_local t key c)) = get_spec t key (recency c)"
    using look by (cases rule: cases)
      (simp_all add: get_local_def get_spec_def MoveToFront_recency [OF wf] removeElement_recency [OF wf] Let_def)
  show cfg: "same_config c (fst (get_local t key c))"
    by (simp add: get_local_def same_config_def MoveToFront_def Let_def split: option.split)
  have "size_sum (recency (fst (get_local t key c))) \<le> size_sum (recency c) \<and>
        length (recency (fst (get_local t key c))) \<le> length (recency c) \<and> lru_wf (fst (get_local t key c))"
  proof (cases rule: cases)
    case absent
    then show ?thesis
      using wf by (simp add: get_local_def)
  next
    case present
    have "ll c \<noteq> []"
      using present(2) by auto
    then have "length (ll (MoveToFront el c)) = length (ll c)"
      using present(2) by (simp add: MoveToFront_def length_remove1)
    moreover have "size_sum (recency (MoveToFront el c)) = size_sum (recency c)"
      using MoveToFront_recency [OF wf present(2)] size_sum_front [OF wf present(2)] by simp
    moreover have "length (ll (removeElement (Some el) c)) \<le> length (ll c)"
      by (simp add: removeElement_def debit_def Let_def length_remove1)
    ultimately show ?thesis
      using present MoveToFront_wf [OF wf present(2)] removeElement_wf [OF wf present(2)]
        removeElement_recency [OF wf present(2)]
      by (simp add: get_local_def Let_def size_sum_without_le)
  qed
  then show "lru_inv (fst (get_local t key c))"
    using lru_inv_subset [OF inv _ cfg] by blast
qed

section \<open>The cache interface\<close>

text \<open>
  What a caller of the cache relies on. \<open>holds c k m x\<close>: the cache can still answer \<open>m\<close> for
  \<open>k\<close> until time \<open>x\<close>. A get or put that does not return is \<open>None\<close>.
\<close>

datatype cache_event = EvGet gotime string | EvPut gotime string "Match gslice" | EvFlush

fun run_store :: "(gotime \<Rightarrow> string \<Rightarrow> 'c \<Rightarrow> ('c \<times> Match gslice option) option) \<Rightarrow>
    (gotime \<Rightarrow> string \<Rightarrow> Match gslice \<Rightarrow> 'c \<Rightarrow> 'c option) \<Rightarrow> ('c \<Rightarrow> 'c) \<Rightarrow> cache_event list \<Rightarrow> 'c \<Rightarrow> 'c option" where
  "run_store get put flush [] c = Some c"
| "run_store get put flush (EvGet t k # evs) c =
     (case get t k c of None \<Rightarrow> None | Some (c', r) \<Rightarrow> run_store get put flush evs c')"
| "run_store get put flush (EvPut t k m # evs) c =
     (case put t k m c of None \<Rightarrow> None | Some c' \<Rightarrow> run_store get put flush evs c')"
| "run_store get put flush (EvFlush # evs) c = run_store get put flush evs (flush c)"

text \<open>The write a key was last given, with its expiry; a flush forgets all of them.\<close>

fun last_write :: "duration \<Rightarrow> cache_event list \<Rightarrow> (string \<Rightarrow> (Match gslice \<times> gotime) option) \<Rightarrow> string \<Rightarrow> (Match gslice \<times> gotime) option" where
  "last_write d [] w = w"
| "last_write d (EvGet t k # evs) w = last_write d evs w"
| "last_write d (EvPut t k m # evs) w = last_write d evs (w(k \<mapsto> (m, t + d)))"
| "last_write d (EvFlush # evs) w = last_write d evs Map.empty"

locale verdict_store =
  fixes inv :: "'c \<Rightarrow> bool"
    and holds :: "'c \<Rightarrow> string \<Rightarrow> Match gslice \<Rightarrow> gotime \<Rightarrow> bool"
    and lifetime :: "'c \<Rightarrow> duration"
    and get :: "gotime \<Rightarrow> string \<Rightarrow> 'c \<Rightarrow> ('c \<times> Match gslice option) option"
    and put :: "gotime \<Rightarrow> string \<Rightarrow> Match gslice \<Rightarrow> 'c \<Rightarrow> 'c option"
    and flush :: "'c \<Rightarrow> 'c"
  assumes get_returns: "inv c \<Longrightarrow> \<exists>c' r. get t k c = Some (c', r) \<and> inv c' \<and> lifetime c' = lifetime c"
    and get_hit: "inv c \<Longrightarrow> get t k c = Some (c', Some m) \<Longrightarrow> \<exists>x. holds c k m x \<and> t < x"
    and get_keeps: "inv c \<Longrightarrow> get t k c = Some (c', r) \<Longrightarrow> holds c' k' m x \<Longrightarrow> holds c k' m x"
    and put_returns: "inv c \<Longrightarrow> \<exists>c'. put t k m c = Some c' \<and> inv c' \<and> lifetime c' = lifetime c"
    and put_replaces: "inv c \<Longrightarrow> put t k m c = Some c' \<Longrightarrow> holds c' k m' x \<Longrightarrow> m' = m \<and> x = t + lifetime c"
    and put_keeps: "inv c \<Longrightarrow> put t k m c = Some c' \<Longrightarrow> k' \<noteq> k \<Longrightarrow> holds c' k' m' x \<Longrightarrow> holds c k' m' x"
    and flush_empties: "inv c \<Longrightarrow> inv (flush c) \<and> lifetime (flush c) = lifetime c \<and> \<not> holds (flush c) k m x"
begin

lemma run_returns:
  "inv c \<Longrightarrow> \<exists>c'. run_store get put flush evs c = Some c' \<and> inv c' \<and> lifetime c' = lifetime c"
proof (induction evs arbitrary: c)
  case Nil
  then show ?case
    by simp
next
  case (Cons ev evs)
  show ?case
  proof (cases ev)
    case (EvGet t k)
    obtain c1 r where "get t k c = Some (c1, r)" "inv c1" "lifetime c1 = lifetime c"
      using get_returns [OF Cons.prems] by blast
    then show ?thesis
      using Cons.IH [of c1] EvGet by simp
  next
    case (EvPut t k m)
    obtain c1 where "put t k m c = Some c1" "inv c1" "lifetime c1 = lifetime c"
      using put_returns [OF Cons.prems] by blast
    then show ?thesis
      using Cons.IH [of c1] EvPut by simp
  next
    case EvFlush
    then show ?thesis
      using Cons.IH [of "flush c"] flush_empties [OF Cons.prems] by simp
  qed
qed

lemma run_content:
  assumes "inv c" "\<And>k m x. holds c k m x \<Longrightarrow> w k = Some (m, x)"
    "run_store get put flush evs c = Some c'" "holds c' k m x"
  shows "last_write (lifetime c) evs w k = Some (m, x)"
  using assms
proof (induction evs arbitrary: c w)
  case Nil
  then show ?case
    by simp
next
  case (Cons ev evs)
  note inv = Cons.prems(1) and hold = Cons.prems(2) and run = Cons.prems(3)
  show ?case
  proof (cases ev)
    case (EvGet t k1)
    obtain c1 r where c1: "get t k1 c = Some (c1, r)" "inv c1" "lifetime c1 = lifetime c"
      using get_returns [OF inv] by blast
    have "w k2 = Some (m2, x2)" if "holds c1 k2 m2 x2" for k2 m2 x2
      using hold get_keeps [OF inv c1(1) that] by blast
    then show ?thesis
      using Cons.IH [OF c1(2), of w] run Cons.prems(4) c1 EvGet by simp
  next
    case (EvPut t k1 m1)
    obtain c1 where c1: "put t k1 m1 c = Some c1" "inv c1" "lifetime c1 = lifetime c"
      using put_returns [OF inv] by blast
    have "(w(k1 \<mapsto> (m1, t + lifetime c))) k2 = Some (m2, x2)" if "holds c1 k2 m2 x2" for k2 m2 x2
      using hold put_keeps [OF inv c1(1), of k2 m2 x2] put_replaces [OF inv c1(1), of m2 x2] that
      by (cases "k2 = k1") simp_all
    moreover have "run_store get put flush evs c1 = Some c'"
      using run c1 EvPut by simp
    ultimately have "last_write (lifetime c1) evs (w(k1 \<mapsto> (m1, t + lifetime c))) k = Some (m, x)"
      using Cons.prems(4) by (rule Cons.IH [OF c1(2)])
    then show ?thesis
      using c1(3) EvPut by (simp only: last_write.simps)
  next
    case EvFlush
    then show ?thesis
      using Cons.IH [of "flush c" Map.empty] flush_empties [OF inv] run Cons.prems(4) by simp
  qed
qed

text \<open>A hit is the last write of its key, not expired and not flushed.\<close>

lemma hit_is_last_write:
  assumes "inv c" "\<And>k m x. \<not> holds c k m x" "run_store get put flush evs c = Some c1" "get t k c1 = Some (c2, Some m)"
  shows "\<exists>x. last_write (lifetime c) evs Map.empty k = Some (m, x) \<and> t < x"
proof -
  have "inv c1"
    using run_returns [OF assms(1), of evs] assms(3) by auto
  from get_hit [OF this assms(4)] obtain x where "holds c1 k m x" "t < x"
    by blast
  then show ?thesis
    using run_content [OF assms(1) _ assms(3)] assms(2) by blast
qed

end

text \<open>The in-process cache without a shared layer meets the interface, and so does the no-op cache.\<close>

fun cache_ok :: "verdict_cache \<Rightarrow> bool" where
  "cache_ok NoopCache = True"
| "cache_ok (Lru c) = (lru_inv c \<and> redis c = None)"

fun cache_holds :: "verdict_cache \<Rightarrow> string \<Rightarrow> Match gslice \<Rightarrow> gotime \<Rightarrow> bool" where
  "cache_holds NoopCache k m x = False"
| "cache_holds (Lru c) k m x = (\<exists>e \<in> set (recency c). e_key e = k \<and> e_matches e = m \<and> e_expires e = x)"

fun cache_ttl :: "verdict_cache \<Rightarrow> duration" where
  "cache_ttl NoopCache = 0"
| "cache_ttl (Lru c) = ttl c"

lemma lru_Get_local: "redis c = None \<Longrightarrow> lru_inv c \<Longrightarrow> lru_Get cd io t t' key c = Some (get_local t key c)"
  using get_local_refines(3) [of c t key] by (auto simp: lru_Get_def same_config_def split: prod.split option.split)

lemma lru_Put_local:
  assumes "redis c = None" "lru_inv c"
  shows "lru_Put cd io t key ms c = putLocal t key ms c"
proof -
  obtain c' where "putLocal t key ms c = Some c'" "redis c' = None"
    using putLocal_refines [OF assms(2), of t key ms] assms(1) by (auto simp: same_config_def)
  then show ?thesis
    by (simp add: lru_Put_def)
qed

lemma get_spec_subset: "set (fst (get_spec t key es)) \<subseteq> set es"
  by (auto simp: get_spec_def split: option.splits if_splits dest: lookup_member)

lemma get_spec_hit: "snd (get_spec t key es) = Some m \<Longrightarrow> \<exists>e \<in> set es. e_key e = key \<and> e_matches e = m \<and> t < e_expires e"
  by (auto simp: get_spec_def split: option.splits if_splits dest: lookup_member)

lemma put_spec_subset: "set (put_spec b m e es) \<subseteq> insert e (set (without (e_key e) es))"
  using trim_subset [of b m "e # without (e_key e) es"] by (auto simp: put_spec_def)

lemma lru_Flush_inv: "lru_inv c \<Longrightarrow> lru_inv (lru_Flush c)" and recency_Flush [simp]: "recency (lru_Flush c) = []"
  by (simp_all add: lru_inv_def lru_wf_def lru_limits_def lru_Flush_def recency_def)

lemma get_local_spec:
  assumes "lru_inv c" "get_local t k c = (c', r)"
  shows "recency c' = fst (get_spec t k (recency c))" "r = snd (get_spec t k (recency c))" "lru_inv c'" "same_config c c'"
  using get_local_refines [OF assms(1), of t k] assms(2) by (metis fst_conv snd_conv)+

interpretation vcache: verdict_store cache_ok cache_holds cache_ttl "\<lambda>t k c. cache_Get cd io t t k c" "cache_Put cd io" cache_Flush
  for cd io
proof
  fix c k t
  assume ok: "cache_ok c"
  show "\<exists>c' r. cache_Get cd io t t k c = Some (c', r) \<and> cache_ok c' \<and> cache_ttl c' = cache_ttl c"
  proof (cases c)
    case (Lru l)
    obtain l' r where g: "get_local t k l = (l', r)"
      by fastforce
    then show ?thesis
      using Lru ok get_local_spec [OF _ g] by (simp add: lru_Get_local same_config_def)
  qed simp
  fix c' m
  show "\<exists>x. cache_holds c k m x \<and> t < x" if hit: "cache_Get cd io t t k c = Some (c', Some m)"
  proof (cases c)
    case (Lru l)
    obtain l' where g: "get_local t k l = (l', Some m)"
      using hit Lru ok by (auto simp: lru_Get_local)
    then show ?thesis
      using Lru ok get_local_spec [OF _ g] get_spec_hit [of t k "recency l" m] by auto
  qed (use hit in simp)
  fix r k' x
  show "cache_holds c k' m x" if got: "cache_Get cd io t t k c = Some (c', r)" "cache_holds c' k' m x"
  proof (cases c)
    case (Lru l)
    obtain l' where g: "get_local t k l = (l', r)" and c': "c' = Lru l'"
      using got Lru ok by (auto simp: lru_Get_local)
    then show ?thesis
      using Lru ok got get_local_spec [OF _ g] get_spec_subset [of t k "recency l"] by auto
  qed (use got in simp)
next
  fix c k t m
  assume ok: "cache_ok c"
  have put: "\<exists>l'. cache_Put cd io t k m c = Some (Lru l') \<and> lru_inv l' \<and> same_config l l' \<and>
      (\<forall>e \<in> set (recency l'). e = new_entry t k m l \<or> e \<in> set (recency l) \<and> e_key e \<noteq> k)" if "c = Lru l" for l
    using ok that putLocal_refines [of l t k m] put_spec_subset [of _ _ "new_entry t k m l"]
    by (fastforce simp: lru_Put_local)
  show "\<exists>c'. cache_Put cd io t k m c = Some c' \<and> cache_ok c' \<and> cache_ttl c' = cache_ttl c"
    using ok put by (cases c) (auto simp: same_config_def)
  fix c' m' x
  assume c': "cache_Put cd io t k m c = Some c'"
  have came: "e = new_entry t k m l \<or> e \<in> set (recency l) \<and> e_key e \<noteq> k"
    if "c = Lru l" "c' = Lru l'" "e \<in> set (recency l')" for l l' e
    using put [OF that(1)] c' that(2,3) by auto
  have kind: "\<exists>l'. c' = Lru l'" if "c = Lru l" for l
    using put [OF that] c' by auto
  show "m' = m \<and> x = t + cache_ttl c" if held: "cache_holds c' k m' x"
  proof (cases c)
    case (Lru l)
    then obtain l' e where "c' = Lru l'" "e \<in> set (recency l')" "e_key e = k" "e_matches e = m'" "e_expires e = x"
      using kind held by auto
    then show ?thesis
      using came [OF Lru, of l' e] Lru by auto
  qed (use c' held in simp)
  show "cache_holds c k' m' x" if held: "k' \<noteq> k" "cache_holds c' k' m' x" for k'
  proof (cases c)
    case (Lru l)
    then obtain l' e where "c' = Lru l'" "e \<in> set (recency l')" "e_key e = k'" "e_matches e = m'" "e_expires e = x"
      using kind held by auto
    then show ?thesis
      using came [OF Lru, of l' e] held(1) Lru by auto
  qed (use c' held in simp)
next
  show "cache_ok (cache_Flush c) \<and> cache_ttl (cache_Flush c) = cache_ttl c \<and> \<not> cache_holds (cache_Flush c) k m x"
    if "cache_ok c" for c k m x
    using that lru_Flush_inv by (cases c) (auto simp: lru_Flush_def [THEN arg_cong [where f = ttl]] lru_Flush_def [THEN arg_cong [where f = redis]])
qed

section \<open>Properties\<close>

definition off_codec :: codec where
  "off_codec = \<lparr>hmac = \<lambda>k s. replicate 32 (CHR 0x00), Marshal = \<lambda>m. None, Unmarshal = \<lambda>s. None\<rparr>"

definition off_io :: redis_io where
  "off_io = \<lparr>t_allow = 0, t_fail = 0, rdb_Get = \<lambda>k. RError, rdb_Set_ok = False\<rparr>"

definition ex_match :: "string \<Rightarrow> Match gslice" where
  "ex_match r = lit [\<lparr>Rule = r, Namespace = '''', Tags = NilSlice, Meta = None\<rparr>]"

lemma NewCache_ok: "CacheMaxBytes cfg < 2 ^ 63 \<Longrightarrow> cache_ok (NewCache cfg None)"
proof -
  assume max: "CacheMaxBytes cfg < 2 ^ 63"
  have b: "unat (of_int n :: u64) < 2 ^ 63" if "1 \<le> n" "n < 2 ^ 63" for n
  proof -
    have "uint (of_int n :: u64) = n"
      using that by (simp add: unsigned_of_int take_bit_int_eq_self_iff)
    then show ?thesis
      using that by (simp add: unat_eq_nat_uint nat_less_iff)
  qed
  show ?thesis
    using max b [of "CacheMaxBytes cfg"]
    by (simp add: NewCache_def lru_inv_def lru_wf_def lru_limits_def recency_def defaultCacheMaxBytes_def)
qed

lemma NewCache_empty: "\<not> cache_holds (NewCache cfg None) k m x"
  by (simp add: NewCache_def recency_def)

lemma NewCache_ttl: "CacheTTL cfg > 0 \<Longrightarrow> cache_ttl (NewCache cfg rl) = CacheTTL cfg"
  by (simp add: NewCache_def)

text \<open>(C6) After any sequence of lookups, stores and flushes on a new in-process cache, a
  lookup returns, and a hit is exactly the verdict the key was last stored with: stored after the
  last flush, not overwritten since (not even by a value too large to keep), and not older
  than the configured lifetime.\<close>

theorem cache_hit_is_last_put:
  assumes "0 < CacheTTL cfg" and "CacheMaxBytes cfg < 2 ^ 63"
  shows "\<exists>c c' r. run_store (\<lambda>t k c. cache_Get cd io t t k c) (cache_Put cd io) cache_Flush evs (NewCache cfg None) = Some c \<and>
    cache_Get cd io t t key c = Some (c', r) \<and>
    (\<forall>m. r = Some m \<longrightarrow> (\<exists>x. last_write (CacheTTL cfg) evs Map.empty key = Some (m, x) \<and> t < x))"
proof -
  note ok = NewCache_ok [OF assms(2)]
  obtain c where c: "run_store (\<lambda>t k c. cache_Get cd io t t k c) (cache_Put cd io) cache_Flush evs (NewCache cfg None) = Some c" "cache_ok c"
    using vcache.run_returns [OF ok] by blast
  obtain c' r where got: "cache_Get cd io t t key c = Some (c', r)"
    using vcache.get_returns [OF c(2)] by blast
  have "\<exists>x. last_write (CacheTTL cfg) evs Map.empty key = Some (m, x) \<and> t < x" if "r = Some m" for m
    using vcache.hit_is_last_write [OF ok NewCache_empty c(1) got [unfolded that]]
    unfolding NewCache_ttl [OF assms(1)] .
  with c(1) got show ?thesis
    by blast
qed

theorem cache_hit_is_last_put_witness:
  "\<exists>c c' r. run_store (\<lambda>t k c. cache_Get off_codec off_io t t k c) (cache_Put off_codec off_io) cache_Flush
      [EvPut 5 ''a'' (ex_match ''A''), EvFlush, EvPut 6 ''a'' (ex_match ''B'')]
      (NewCache \<lparr>CacheTTL = 10, CacheSize = 2, CacheMaxBytes = 4096\<rparr> None) = Some c \<and>
    cache_Get off_codec off_io 9 9 ''a'' c = Some (c', r) \<and>
    (\<forall>m. r = Some m \<longrightarrow> (\<exists>x. last_write 10 [EvPut 5 ''a'' (ex_match ''A''), EvFlush, EvPut 6 ''a'' (ex_match ''B'')] Map.empty ''a'' = Some (m, x) \<and> 9 < x))"
  using cache_hit_is_last_put [of "\<lparr>CacheTTL = 10, CacheSize = 2, CacheMaxBytes = 4096\<rparr>" off_codec off_io
    "[EvPut 5 ''a'' (ex_match ''A''), EvFlush, EvPut 6 ''a'' (ex_match ''B'')]" 9 "''a''"] by simp

text \<open>(C7) Storing a verdict refines the pointer-free specification: the eviction loop ends, the
  new entry is at the front, only the coldest entries are dropped and only as many as the limits
  ask for, the byte count equals the sum of the entry sizes and both limits hold afterwards. A value
  larger than the whole budget only removes the previous entry of its key.\<close>

theorem putLocal_refines_spec:
  assumes "lru_inv c"
  shows "\<exists>c'. putLocal t key ms c = Some c' \<and> lru_inv c' \<and>
    recency c' = put_spec (unat (maxBytes c)) (maxEntries c) (new_entry t key ms c) (recency c) \<and>
    unat (bytes c') = size_sum (recency c') \<and> bytes c' \<le> maxBytes c \<and> int (length (ll c')) \<le> maxEntries c"
proof -
  obtain c' where c': "putLocal t key ms c = Some c'" "lru_inv c'" "same_config c c'"
    "recency c' = put_spec (unat (maxBytes c)) (maxEntries c) (new_entry t key ms c) (recency c)"
    using putLocal_refines [OF assms] by blast
  have "unat (bytes c') = size_sum (recency c') \<and> bytes c' \<le> maxBytes c \<and> int (length (ll c')) \<le> maxEntries c"
    using c'(2,3) by (simp add: lru_inv_def lru_wf_def same_config_def word_le_nat_alt)
  then show ?thesis
    using c' by blast
qed

definition ex_lru :: lruCache where
  "ex_lru = \<lparr>ttl = 10, maxEntries = 1, maxBytes = 4096, bytes = 0, ll = [], heap = Map.empty, fresh = 0,
    items = Map.empty, redis = None, evictions = 0, byteEvictions = 0, countEvictions = 0, oversized = 0\<rparr>"

theorem putLocal_refines_spec_witness:
  "lru_inv ex_lru \<and> (\<exists>c'. putLocal 3 ''k'' (ex_match ''A'') ex_lru = Some c' \<and> lru_inv c' \<and>
    recency c' = put_spec (unat (maxBytes ex_lru)) (maxEntries ex_lru) (new_entry 3 ''k'' (ex_match ''A'') ex_lru) (recency ex_lru) \<and>
    unat (bytes c') = size_sum (recency c') \<and> bytes c' \<le> maxBytes ex_lru \<and> int (length (ll c')) \<le> maxEntries ex_lru)"
proof -
  have inv: "lru_inv ex_lru"
    by (simp add: lru_inv_def lru_wf_def lru_limits_def ex_lru_def recency_def)
  show ?thesis
    using inv putLocal_refines_spec [OF inv, of 3 "''k''" "ex_match ''A''"] by (rule conjI)
qed

lemma open_seal_iff:
  assumes len: "\<And>k s. length (h k s) = macLen" and key: "key \<noteq> []"
  shows "openRedisValue h key rk framed = Some w \<longleftrightarrow> w \<noteq> [] \<and> framed = sealRedisValue h key rk w"
proof
  assume opened: "openRedisValue h key rk framed = Some w"
  then have w: "w = drop (1 + macLen) framed" "take macLen (drop 1 framed) = redisMAC h key rk w" "hd framed = macVersion"
    "1 + macLen < length framed"
    using key by (auto simp: openRedisValue_def Let_def split: if_splits)
  obtain a b where ab: "framed = a # b"
    using w(4) by (cases framed) simp_all
  have "b = redisMAC h key rk w @ w"
    using w(1,2) ab by (metis One_nat_def append_take_drop_id drop_Suc_Cons plus_1_eq_Suc drop0)
  then show "w \<noteq> [] \<and> framed = sealRedisValue h key rk w"
    using w key ab by (simp add: sealRedisValue_def)
next
  assume "w \<noteq> [] \<and> framed = sealRedisValue h key rk w"
  then show "openRedisValue h key rk framed = Some w"
    using key by (simp add: openRedisValue_def sealRedisValue_def redisMAC_def len)
qed

text \<open>(C8) A value sealed for Redis opens again to itself. With a key configured the reader
  accepts a stored value exactly when it is the seal of the returned payload under the same
  Redis key, so any change to the payload or the tag is refused; and a value copied to another
  Redis key is accepted only if the MAC collides on the two bound messages.\<close>

theorem redis_seal_exact:
  assumes len: "\<And>k s. length (h k s) = macLen" and v: "v \<noteq> []"
  shows "openRedisValue h key rk (sealRedisValue h key rk v) = Some v \<and>
    (key \<noteq> [] \<longrightarrow>
      (\<forall>framed w. openRedisValue h key rk framed = Some w \<longleftrightarrow> w \<noteq> [] \<and> framed = sealRedisValue h key rk w) \<and>
      (\<forall>rk'. openRedisValue h key rk' (sealRedisValue h key rk v) \<noteq> None \<longleftrightarrow>
             h key (rk @ [CHR 0x00] @ v) = h key (rk' @ [CHR 0x00] @ v)))"
proof -
  have "openRedisValue h key rk (sealRedisValue h key rk v) = Some v"
    using v by (simp add: openRedisValue_def sealRedisValue_def redisMAC_def len)
  moreover have "openRedisValue h key rk' (sealRedisValue h key rk v) \<noteq> None \<longleftrightarrow>
      h key (rk @ [CHR 0x00] @ v) = h key (rk' @ [CHR 0x00] @ v)" if "key \<noteq> []" for rk'
    using that v by (simp add: openRedisValue_def sealRedisValue_def redisMAC_def len)
  ultimately show ?thesis
    using open_seal_iff [of h, OF len] by blast
qed

theorem redis_seal_exact_witness:
  "openRedisValue (\<lambda>k s. take 32 (s @ k @ replicate 32 (CHR 0x00))) ''key'' ''mailstrix:1''
      (sealRedisValue (\<lambda>k s. take 32 (s @ k @ replicate 32 (CHR 0x00))) ''key'' ''mailstrix:1'' ''[]'') = Some ''[]''"
  using redis_seal_exact [of "\<lambda>k s. take 32 (s @ k @ replicate 32 (CHR 0x00))" "''[]''" "''key''" "''mailstrix:1''"]
  by (simp add: macLen_def del: append_assoc)

section \<open>Breaker\<close>

text \<open>Outcomes of attempts, oldest first: a success, or a failure noted at a time.\<close>

fun br_run :: "gotime option list \<Rightarrow> redisBreaker \<Rightarrow> redisBreaker" where
  "br_run [] b = b"
| "br_run (None # rs) b = br_run rs (br_ok b)"
| "br_run (Some t # rs) b = br_run rs (br_fail t b)"

text \<open>(C9) From a breaker with no failure on record,
  five consecutive failures leave the breaker closed to traffic for exactly the cooldown after
  the one that tripped it, during which neither a get nor a put reaches the server; and one success
  closes it again.\<close>

theorem breaker_trips_and_recovers:
  assumes "length ts = 5" and "fails b = 0" and "t < last ts + breakerCooldown"
  shows "let b' = br_run (map Some ts) b in
    fails b' = 0 \<and> openUntil b' = last ts + breakerCooldown \<and> br_isOpen t b' \<and> \<not> br_allow t b' \<and>
    br_allow (last ts + breakerCooldown) b' \<and>
    (t \<ge> 0 \<longrightarrow> br_allow t (br_run (map Some ts @ [None]) b)) \<and>
    (\<forall>r cd io key ms d. br r = b' \<and> t_allow io = t \<longrightarrow> redis_get cd io r key = (r, None) \<and> redis_put cd io r key ms d = r)"
proof -
  obtain t1 t2 t3 t4 t5 where "ts = [t1, t2, t3, t4, t5]"
    using assms(1) by (auto simp: numeral_eq_Suc length_Suc_conv)
  then show ?thesis
    using assms(2,3)
    by (auto simp: br_fail_def br_ok_def breakerTrip_def br_isOpen_def br_allow_def Let_def redis_get_def redis_put_def)
qed

theorem breaker_trips_and_recovers_witness:
  "let b' = br_run (map Some [1, 2, 3, 4, 5]) \<lparr>fails = 0, openUntil = 0\<rparr> in
    openUntil b' = 5 + breakerCooldown \<and> \<not> br_allow 6 b' \<and> br_allow (5 + breakerCooldown) b'"
  using breaker_trips_and_recovers [of "[1, 2, 3, 4, 5]" "\<lparr>fails = 0, openUntil = 0\<rparr>" 6]
  by (simp add: Let_def breakerCooldown_def)

end
