(* ===== verification/Flight_Group.thy ===== *)
theory Flight_Group
  imports Strix_Matches
begin

text \<open>
  Coalescing of concurrent scans, \<^verbatim>\<open>src/internal/mailstrix/flight.go\<close>. The callers of
  \<^verbatim>\<open>doScan\<close> run interleaved: each has a program counter, and a step is one critical section of
  \<^verbatim>\<open>g.mu\<close>, one channel operation, or what the scan function or a request context does. The
  flights live in a heap, the group maps a key to the address of the flight in progress.
  A scan function is free to return any outcome, to abort or to panic. Schedules are lists of
  steps, so that a property of every schedule is a property of every interleaving.
\<close>

record 'e scanOutcome =
  o_matches :: "Match gslice"
  o_err :: "'e option"

record 'e flight =
  started :: bool
  finished :: bool
  outcome :: "'e scanOutcome"
  joiners :: int
  shared :: bool
  aborted :: bool

text \<open>
  Where a caller of \<^verbatim>\<open>doScan\<close> is: at the top of the loop, in the select of a follower (with
  the started channel still selected on or not), inside the scan function, in the deferred call with the
  flight's entry still present, past the lock of \<^verbatim>\<open>finishLeader\<close>, before the last locked
  read, or out with a result, a context error or a re-raised panic.
\<close>

datatype 'e pc =
    AtStart
  | AtWait nat bool
  | AtFn nat
  | AtUnwind nat bool "'e scanOutcome option"
  | AtRelease nat "'e scanOutcome option"
  | AtRead nat "'e scanOutcome"
  | RetOutcome "'e scanOutcome" bool
  | RetCanceled
  | RetPanic

record 'e flightGroup =
  fm :: "string \<Rightarrow> nat option"
  flights :: "nat \<Rightarrow> 'e flight"
  next_flight :: nat
  pcs :: "nat \<Rightarrow> 'e pc"
  gone :: "nat \<Rightarrow> bool"
  notified :: "nat \<Rightarrow> nat"

datatype 'e flight_event =
    Enter nat
  | SeeStarted nat
  | SeeDone nat
  | SeeCancel nat
  | FnStarted nat
  | FnReturn nat "'e scanOutcome" bool
  | FnPanic nat
  | FinishLock nat
  | FinishClose nat
  | ReadShared nat
  | CtxDone nat

definition goto :: "nat \<Rightarrow> 'e pc \<Rightarrow> 'e flightGroup \<Rightarrow> 'e flightGroup" where
  "goto c p g = g\<lparr>pcs := (pcs g)(c := p)\<rparr>"

definition set_flight :: "nat \<Rightarrow> 'e flight \<Rightarrow> 'e flightGroup \<Rightarrow> 'e flightGroup" where
  "set_flight f fl g = g\<lparr>flights := (flights g)(f := fl)\<rparr>"

definition notify :: "nat \<Rightarrow> 'e flightGroup \<Rightarrow> 'e flightGroup" where
  "notify c g = g\<lparr>notified := (notified g)(c := notified g c + 1)\<rparr>"

definition new_flight :: "'e flight" where
  "new_flight = \<lparr>started = False, finished = False, outcome = \<lparr>o_matches = NilSlice, o_err = None\<rparr>, joiners = 0, shared = False, aborted = False\<rparr>"

text \<open>The first critical section: join the flight of the key, or publish a new one and lead it.\<close>

definition enter :: "string \<Rightarrow> nat \<Rightarrow> 'e flightGroup \<Rightarrow> 'e flightGroup" where
  "enter key c g =
     (case fm g key of
        Some f \<Rightarrow> goto c (AtWait f True) (set_flight f ((flights g f)\<lparr>joiners := joiners (flights g f) + 1\<rparr>) g)
      | None \<Rightarrow>
          goto c (AtFn (next_flight g))
            (set_flight (next_flight g) new_flight (g\<lparr>fm := (fm g)(key \<mapsto> next_flight g), next_flight := next_flight g + 1\<rparr>)))"

text \<open>The three branches of the follower's select.\<close>

definition see_started :: "nat \<Rightarrow> nat \<Rightarrow> 'e flightGroup \<Rightarrow> 'e flightGroup" where
  "see_started f c g = goto c (AtWait f False) (notify c g)"

definition see_cancel :: "nat \<Rightarrow> nat \<Rightarrow> 'e flightGroup \<Rightarrow> 'e flightGroup" where
  "see_cancel f c g = goto c RetCanceled (set_flight f ((flights g f)\<lparr>joiners := joiners (flights g f) - 1\<rparr>) g)"

definition see_done :: "nat \<Rightarrow> nat \<Rightarrow> 'e flightGroup \<Rightarrow> 'e flightGroup" where
  "see_done f c g =
     (if aborted (flights g f)
      then (if gone g c then goto c RetCanceled g else goto c AtStart g)
      else goto c (RetOutcome (outcome (flights g f)) True) g)"

text \<open>The leader: the callback it hands to the scan function, and how that function ends.\<close>

definition fn_started :: "nat \<Rightarrow> nat \<Rightarrow> 'e flightGroup \<Rightarrow> 'e flightGroup" where
  "fn_started f c g = notify c (set_flight f ((flights g f)\<lparr>started := True\<rparr>) g)"

definition fn_return :: "nat \<Rightarrow> nat \<Rightarrow> 'e scanOutcome \<Rightarrow> bool \<Rightarrow> 'e flightGroup \<Rightarrow> 'e flightGroup" where
  "fn_return f c r ab g = goto c (AtUnwind f ab (Some r)) (set_flight f ((flights g f)\<lparr>outcome := r\<rparr>) g)"

definition fn_panic :: "nat \<Rightarrow> nat \<Rightarrow> 'e flightGroup \<Rightarrow> 'e flightGroup" where
  "fn_panic f c g = goto c (AtUnwind f True None) g"

text \<open>\<^verbatim>\<open>finishLeader\<close>, in its two halves.\<close>

definition finish_lock :: "string \<Rightarrow> nat \<Rightarrow> bool \<Rightarrow> 'e scanOutcome option \<Rightarrow> nat \<Rightarrow> 'e flightGroup \<Rightarrow> 'e flightGroup" where
  "finish_lock key f ab r c g =
     goto c (AtRelease f r)
       ((set_flight f ((flights g f)\<lparr>aborted := ab, shared := joiners (flights g f) > 0\<rparr>) g)\<lparr>fm := (fm g)(key := None)\<rparr>)"

definition finish_close :: "nat \<Rightarrow> 'e scanOutcome option \<Rightarrow> nat \<Rightarrow> 'e flightGroup \<Rightarrow> 'e flightGroup" where
  "finish_close f r c g =
     goto c (case r of None \<Rightarrow> RetPanic | Some out \<Rightarrow> AtRead f out)
       (set_flight f ((flights g f)\<lparr>finished := True\<rparr>) g)"

definition read_shared :: "nat \<Rightarrow> 'e scanOutcome \<Rightarrow> nat \<Rightarrow> 'e flightGroup \<Rightarrow> 'e flightGroup" where
  "read_shared f out c g = goto c (RetOutcome out (shared (flights g f))) g"

text \<open>One step of \<^verbatim>\<open>doScan\<close>; \<open>None\<close> when the caller is not at a point where it can happen.
  Closing the started channel twice panics, so the scan function signals it at most once.\<close>

fun step :: "(nat \<Rightarrow> string) \<Rightarrow> 'e flight_event \<Rightarrow> 'e flightGroup \<Rightarrow> 'e flightGroup option" where
  "step key (Enter c) g = (if pcs g c = AtStart then Some (enter (key c) c g) else None)"
| "step key (SeeStarted c) g =
     (case pcs g c of AtWait f w \<Rightarrow> if w \<and> started (flights g f) then Some (see_started f c g) else None | _ \<Rightarrow> None)"
| "step key (SeeDone c) g =
     (case pcs g c of AtWait f w \<Rightarrow> if finished (flights g f) then Some (see_done f c g) else None | _ \<Rightarrow> None)"
| "step key (SeeCancel c) g =
     (case pcs g c of AtWait f w \<Rightarrow> if gone g c then Some (see_cancel f c g) else None | _ \<Rightarrow> None)"
| "step key (FnStarted c) g =
     (case pcs g c of AtFn f \<Rightarrow> if started (flights g f) then None else Some (fn_started f c g) | _ \<Rightarrow> None)"
| "step key (FnReturn c r ab) g = (case pcs g c of AtFn f \<Rightarrow> Some (fn_return f c r ab g) | _ \<Rightarrow> None)"
| "step key (FnPanic c) g = (case pcs g c of AtFn f \<Rightarrow> Some (fn_panic f c g) | _ \<Rightarrow> None)"
| "step key (FinishLock c) g = (case pcs g c of AtUnwind f ab r \<Rightarrow> Some (finish_lock (key c) f ab r c g) | _ \<Rightarrow> None)"
| "step key (FinishClose c) g = (case pcs g c of AtRelease f r \<Rightarrow> Some (finish_close f r c g) | _ \<Rightarrow> None)"
| "step key (ReadShared c) g = (case pcs g c of AtRead f r \<Rightarrow> Some (read_shared f r c g) | _ \<Rightarrow> None)"
| "step key (CtxDone c) g = Some (g\<lparr>gone := (gone g)(c := True)\<rparr>)"

definition idle :: "'e flightGroup" where
  "idle = \<lparr>fm = Map.empty, flights = (\<lambda>_. new_flight), next_flight = 0, pcs = (\<lambda>_. AtStart), gone = (\<lambda>_. False), notified = (\<lambda>_. 0)\<rparr>"

text \<open>The schedules and the states they lead to; the newest step is last.\<close>

inductive schedule :: "(nat \<Rightarrow> string) \<Rightarrow> 'e flight_event list \<Rightarrow> 'e flightGroup \<Rightarrow> bool" for key where
  start: "schedule key [] idle"
| more: "schedule key evs g \<Longrightarrow> step key e g = Some g' \<Longrightarrow> schedule key (evs @ [e]) g'"

section \<open>Who leads, who waits\<close>

fun lead_of :: "'e pc \<Rightarrow> nat option" where
  "lead_of (AtFn f) = Some f"
| "lead_of (AtUnwind f ab r) = Some f"
| "lead_of _ = None"

fun work_of :: "'e pc \<Rightarrow> nat option" where
  "work_of (AtFn f) = Some f"
| "work_of (AtUnwind f ab r) = Some f"
| "work_of (AtRelease f r) = Some f"
| "work_of _ = None"

fun wait_of :: "'e pc \<Rightarrow> nat option" where
  "wait_of (AtWait f w) = Some f"
| "wait_of _ = None"

definition waiters :: "nat \<Rightarrow> 'e flightGroup \<Rightarrow> nat set" where
  "waiters f g = {c. wait_of (pcs g c) = Some f}"

named_theorems flight_simps \<open>the step functions unfolded\<close>

declare goto_def [flight_simps] set_flight_def [flight_simps] notify_def [flight_simps] new_flight_def [flight_simps]
  enter_def [flight_simps] see_started_def [flight_simps] see_cancel_def [flight_simps] see_done_def [flight_simps]
  fn_started_def [flight_simps] fn_return_def [flight_simps] fn_panic_def [flight_simps] finish_lock_def [flight_simps]
  finish_close_def [flight_simps] read_shared_def [flight_simps]

lemma lead_work: "lead_of p = Some f \<Longrightarrow> work_of p = Some f"
  by (cases p) auto

text \<open>
  The invariant speaks of the key map, of the flight each caller leads, works on (until \<^verbatim>\<open>done\<close>
  is closed) or waits for, and of which flights are finished. Only five kinds of change matter to it.
\<close>

definition core_inv :: "(nat \<Rightarrow> string) \<Rightarrow> (string \<Rightarrow> nat option) \<Rightarrow> (nat \<Rightarrow> nat option) \<Rightarrow> (nat \<Rightarrow> nat option) \<Rightarrow> (nat \<Rightarrow> nat option) \<Rightarrow>
    (nat \<Rightarrow> bool) \<Rightarrow> nat \<Rightarrow> bool" where
  "core_inv key m L W X fin n \<longleftrightarrow>
     (\<forall>k f. m k = Some f \<longrightarrow> (\<exists>l. key l = k \<and> L l = Some f)) \<and>
     (\<forall>c f. L c = Some f \<longrightarrow> m (key c) = Some f \<and> W c = Some f) \<and>
     (\<forall>c f. W c = Some f \<longrightarrow> f < n \<and> \<not> fin f) \<and>
     (\<forall>c d f. W c = Some f \<longrightarrow> W d = Some f \<longrightarrow> c = d) \<and>
     (\<forall>c f. X c = Some f \<longrightarrow> f < n \<and> (fin f \<or> (\<exists>l. W l = Some f))) \<and>
     (\<forall>c l f. X c = Some f \<longrightarrow> W l = Some f \<longrightarrow> key l = key c)"

lemma core_invD:
  assumes "core_inv key m L W X fin n"
  shows "m k = Some f \<Longrightarrow> \<exists>l. key l = k \<and> L l = Some f" "L c = Some f \<Longrightarrow> m (key c) = Some f" "L c = Some f \<Longrightarrow> W c = Some f"
    "W c = Some f \<Longrightarrow> f < n" "W c = Some f \<Longrightarrow> \<not> fin f" "W c = Some f \<Longrightarrow> W d = Some f \<Longrightarrow> c = d"
    "X c = Some f \<Longrightarrow> f < n" "X c = Some f \<Longrightarrow> fin f \<or> (\<exists>l. W l = Some f)" "X c = Some f \<Longrightarrow> W l = Some f \<Longrightarrow> key l = key c"
  using assms unfolding core_inv_def by blast+

lemma core_join:
  assumes "core_inv key m L W X fin n" "m (key c) = Some f"
  shows "core_inv key m L W (X(c := Some f)) fin n"
proof -
  note D = core_invD [OF assms(1)]
  obtain l where l: "key l = key c" "W l = Some f"
    using D(1) [OF assms(2)] D(3) by blast
  have same: "key l' = key c" if "W l' = Some f" for l'
    using D(6) [OF l(2) that] l(1) by simp
  have "f < n" "\<exists>l. W l = Some f"
    using D(4) l(2) by blast+
  then show ?thesis
    using assms(1) same unfolding core_inv_def by simp
qed

lemma core_lead:
  assumes "core_inv key m L W X fin n" "m (key c) = None" "W c = None"
  shows "core_inv key (m(key c \<mapsto> n)) (L(c := Some n)) (W(c := Some n)) X (fin(n := False)) (Suc n)"
proof -
  note D = core_invD [OF assms(1)]
  have Lc: "L c = None"
    using D(3) [of c] assms(3) by (cases "L c") auto
  have "\<exists>l. key l = k \<and> (L(c := Some n)) l = Some f" if hit: "(m(key c \<mapsto> n)) k = Some f" for k f
  proof (cases "k = key c")
    case True
    then show ?thesis
      using hit by auto
  next
    case False
    then obtain l where "key l = k" "L l = Some f"
      using D(1) [of k f] hit by auto
    then show ?thesis
      using False by auto
  qed
  moreover have "(m(key c \<mapsto> n)) (key d) = Some f \<and> (W(c := Some n)) d = Some f" if "(L(c := Some n)) d = Some f" for d f
    using that D(2,3) [of d f] assms(2) by (cases "d = c") auto
  moreover have "f < Suc n \<and> \<not> (fin(n := False)) f" if "(W(c := Some n)) d = Some f" for d f
    using that D(4,5) [of d f] by (cases "d = c") auto
  moreover have "d = e" if "(W(c := Some n)) d = Some f" "(W(c := Some n)) e = Some f" for d e f
    using that D(4) [of d f] D(4) [of e f] D(6) [of d f e] by (cases "d = c"; cases "e = c") auto
  moreover have "f < Suc n \<and> ((fin(n := False)) f \<or> (\<exists>l. (W(c := Some n)) l = Some f))" if "X d = Some f" for d f
  proof -
    have "l \<noteq> c" if "W l = Some f" for l
      using that assms(3) by auto
    then have "f < n" "fin f \<or> (\<exists>l. l \<noteq> c \<and> W l = Some f)"
      using D(7,8) [OF that] by blast+
    then show ?thesis
      by auto
  qed
  moreover have "key l = key d" if "X d = Some f" "(W(c := Some n)) l = Some f" for d l f
    using that D(7) [of d f] D(9) [of d f l] by (cases "l = c") auto
  ultimately show ?thesis
    unfolding core_inv_def by blast
qed

lemma core_unwait: "core_inv key m L W X fin n \<Longrightarrow> core_inv key m L W (X(c := None)) fin n"
  unfolding core_inv_def by simp

lemma core_unlead:
  assumes "core_inv key m L W X fin n" "L c = Some f"
  shows "core_inv key (m(key c := None)) (L(c := None)) W X fin n"
proof -
  note D = core_invD [OF assms(1)]
  have "\<exists>l. key l = k \<and> (L(c := None)) l = Some f'" if "(m(key c := None)) k = Some f'" for k f'
  proof -
    have "k \<noteq> key c" "m k = Some f'"
      using that by (auto split: if_splits)
    then show ?thesis
      using D(1) by fastforce
  qed
  moreover have "(m(key c := None)) (key d) = Some f' \<and> W d = Some f'" if "(L(c := None)) d = Some f'" for d f'
  proof -
    have d: "d \<noteq> c" "L d = Some f'"
      using that by (auto split: if_splits)
    have "key d \<noteq> key c"
      using D(2) [OF d(2)] D(2) [OF assms(2)] D(3) [OF d(2)] D(3) [OF assms(2)] D(6) [of d f' c] d(1) by auto
    then show ?thesis
      using D(2,3) [OF d(2)] by simp
  qed
  ultimately show ?thesis
    using assms(1) unfolding core_inv_def by blast
qed

lemma core_close:
  assumes "core_inv key m L W X fin n" "L c = None" "W c = Some f"
  shows "core_inv key m L (W(c := None)) X (fin(f := True)) n"
proof -
  note D = core_invD [OF assms(1)]
  have "m (key d) = Some f' \<and> (W(c := None)) d = Some f'" if "L d = Some f'" for d f'
    using D(2,3) [OF that] that assms(2) by (cases "d = c") auto
  moreover have "f' < n \<and> \<not> (fin(f := True)) f'" if "(W(c := None)) d = Some f'" for d f'
  proof -
    have d: "d \<noteq> c" "W d = Some f'"
      using that by (auto split: if_splits)
    then have "f' \<noteq> f"
      using D(6) [OF assms(3)] by auto
    then show ?thesis
      using D(4,5) [OF d(2)] by simp
  qed
  moreover have "d = e" if "(W(c := None)) d = Some f'" "(W(c := None)) e = Some f'" for d e f'
    using that D(6) by (auto split: if_splits)
  moreover have "f' < n \<and> ((fin(f := True)) f' \<or> (\<exists>l. (W(c := None)) l = Some f'))" if "X d = Some f'" for d f'
  proof (cases "f' = f")
    case False
    then have "l \<noteq> c" if "W l = Some f'" for l
      using that assms(3) by auto
    then show ?thesis
      using D(7,8) [OF that] by auto
  qed (use D(7) [OF that] in simp)
  moreover have "key l = key d" if "X d = Some f'" "(W(c := None)) l = Some f'" for d l f'
    using that D(9) by (auto split: if_splits)
  ultimately show ?thesis
    using D(1) unfolding core_inv_def by blast
qed

definition flight_inv :: "(nat \<Rightarrow> string) \<Rightarrow> 'e flightGroup \<Rightarrow> bool" where
  "flight_inv key g \<longleftrightarrow>
     core_inv key (fm g) (\<lambda>c. lead_of (pcs g c)) (\<lambda>c. work_of (pcs g c)) (\<lambda>c. wait_of (pcs g c))
       (\<lambda>f. finished (flights g f)) (next_flight g)"

lemma flight_inv_idle: "flight_inv key idle"
  by (simp add: flight_inv_def core_inv_def idle_def)

lemma of_upd:
  "(\<lambda>d. lead_of (((pcs g)(c := p)) d)) = (\<lambda>d. lead_of (pcs g d))(c := lead_of p)"
  "(\<lambda>d. work_of (((pcs g)(c := p)) d)) = (\<lambda>d. work_of (pcs g d))(c := work_of p)"
  "(\<lambda>d. wait_of (((pcs g)(c := p)) d)) = (\<lambda>d. wait_of (pcs g d))(c := wait_of p)"
  by auto

lemma finished_upd: "(\<lambda>d. finished (((flights g)(f := fl)) d)) = (\<lambda>d. finished (flights g d))(f := finished fl)"
  by auto

lemma fun_upd_same: "h c = v \<Longrightarrow> h(c := v) = h"
  by auto

lemma step_cases:
  assumes "step key e g = Some g'"
  obtains (join) c f where "e = Enter c" "pcs g c = AtStart" "fm g (key c) = Some f" "g' = enter (key c) c g"
  | (lead) c where "e = Enter c" "pcs g c = AtStart" "fm g (key c) = None" "g' = enter (key c) c g"
  | (see_started) c f where "e = SeeStarted c" "pcs g c = AtWait f True" "g' = see_started f c g"
  | (see_done) c f w where "e = SeeDone c" "pcs g c = AtWait f w" "finished (flights g f)" "g' = see_done f c g"
  | (see_cancel) c f w where "e = SeeCancel c" "pcs g c = AtWait f w" "gone g c" "g' = see_cancel f c g"
  | (fn_started) c f where "e = FnStarted c" "pcs g c = AtFn f" "g' = fn_started f c g"
  | (fn_return) c f r ab where "e = FnReturn c r ab" "pcs g c = AtFn f" "g' = fn_return f c r ab g"
  | (fn_panic) c f where "e = FnPanic c" "pcs g c = AtFn f" "g' = fn_panic f c g"
  | (finish_lock) c f ab r where "e = FinishLock c" "pcs g c = AtUnwind f ab r" "g' = finish_lock (key c) f ab r c g"
  | (finish_close) c f r where "e = FinishClose c" "pcs g c = AtRelease f r" "g' = finish_close f r c g"
  | (read_shared) c f r where "e = ReadShared c" "pcs g c = AtRead f r" "g' = read_shared f r c g"
  | (ctx_done) c where "e = CtxDone c" "g' = g\<lparr>gone := (gone g)(c := True)\<rparr>"
proof (cases e)
  case (Enter c)
  then show thesis
    using assms join lead by (cases "fm g (key c)") (auto split: if_splits)
qed (use assms that in \<open>auto split: if_splits pc.splits\<close>)

lemma flight_inv_step:
  assumes "step key e g = Some g'" "flight_inv key g"
  shows "flight_inv key g'"
proof -
  note inv = assms(2) [unfolded flight_inv_def]
  note view = flight_inv_def flight_simps of_upd finished_upd fun_upd_same
  from assms(1) show ?thesis
  proof (cases rule: step_cases)
    case (join c f)
    then show ?thesis
      using core_join [OF inv, of c] by (simp add: view del: fun_upd_apply)
  next
    case (lead c)
    then show ?thesis
      using core_lead [OF inv, of c] by (simp add: view del: fun_upd_apply)
  next
    case (see_done c)
    then show ?thesis
      using core_unwait [OF inv, of c] by (simp add: view del: fun_upd_apply)
  next
    case (see_cancel c)
    then show ?thesis
      using core_unwait [OF inv, of c] by (simp add: view del: fun_upd_apply)
  next
    case (finish_lock c f ab r)
    then show ?thesis
      using core_unlead [OF inv, of c f] by (simp add: view del: fun_upd_apply)
  next
    case (finish_close c f r)
    then show ?thesis
      using core_close [OF inv, of c f] by (cases r) (simp_all add: view del: fun_upd_apply)
  qed (use inv in \<open>simp_all add: view del: fun_upd_apply\<close>)
qed

lemma schedule_inv: "schedule key evs g \<Longrightarrow> flight_inv key g"
  by (induction rule: schedule.induct) (simp_all add: flight_inv_idle flight_inv_step)

section \<open>Where outcomes come from\<close>

definition told :: "(nat \<Rightarrow> string) \<Rightarrow> 'e flight_event list \<Rightarrow> (nat \<Rightarrow> 'e flight) \<Rightarrow> nat \<Rightarrow> 'e pc \<Rightarrow> bool" where
  "told key evs fls c p =
     (case p of
        AtWait f w \<Rightarrow> finished (fls f) \<and> \<not> aborted (fls f) \<longrightarrow> (\<exists>l. key l = key c \<and> FnReturn l (outcome (fls f)) False \<in> set evs)
      | AtUnwind f ab r \<Rightarrow> (case r of None \<Rightarrow> ab | Some out \<Rightarrow> outcome (fls f) = out \<and> FnReturn c out ab \<in> set evs)
      | AtRelease f r \<Rightarrow> (case r of None \<Rightarrow> aborted (fls f) | Some out \<Rightarrow> outcome (fls f) = out \<and> FnReturn c out (aborted (fls f)) \<in> set evs)
      | AtRead f out \<Rightarrow> (\<exists>ab. FnReturn c out ab \<in> set evs)
      | RetOutcome out sh \<Rightarrow> (\<exists>l ab. key l = key c \<and> FnReturn l out ab \<in> set evs \<and> (ab \<longrightarrow> l = c))
      | _ \<Rightarrow> True)"

fun flight_of :: "'e pc \<Rightarrow> nat option" where
  "flight_of (AtWait f w) = Some f"
| "flight_of (AtUnwind f ab r) = Some f"
| "flight_of (AtRelease f r) = Some f"
| "flight_of _ = None"

lemma flight_of_cases: "flight_of p = Some f \<Longrightarrow> wait_of p = Some f \<or> work_of p = Some f"
  by (cases p) auto

text \<open>Only the outcome, the aborted mark and the closed channel of the caller's flight matter.\<close>

lemma told_frame:
  assumes "told key evs fls c p"
    and "\<And>f. flight_of p = Some f \<Longrightarrow> outcome (fls' f) = outcome (fls f) \<and> aborted (fls' f) = aborted (fls f) \<and> finished (fls' f) = finished (fls f)"
  shows "told key (evs @ [e]) fls' c p"
  using assms by (cases p) (auto simp: told_def split: option.splits)

lemma told_waiting: "\<not> finished (fls f) \<Longrightarrow> told key evs fls c (AtWait f w)"
  by (simp add: told_def)

lemma told_step:
  assumes step: "step key e g = Some g'" and inv: "flight_inv key g" and told: "\<And>d. told key evs (flights g) d (pcs g d)"
  shows "told key (evs @ [e]) (flights g') d (pcs g' d)"
proof -
  note D = core_invD [OF inv [unfolded flight_inv_def]]
  have same: "told key (evs @ [e]) fls d (pcs g d)"
    if "\<And>f. outcome (fls f) = outcome (flights g f) \<and> aborted (fls f) = aborted (flights g f) \<and> finished (fls f) = finished (flights g f)" for fls d
    using told_frame [OF told] that by blast
  text \<open>Another caller, when the leader \<open>c\<close> of \<open>f\<close> changes that flight.\<close>
  have other: "told key (evs @ [e]) ((flights g)(f := fl)) d (pcs g d)"
    if c: "work_of (pcs g c) = Some f" "d \<noteq> c" and wait: "\<And>w. pcs g d = AtWait f w \<Longrightarrow> told key (evs @ [e]) ((flights g)(f := fl)) d (AtWait f w)"
    for c f fl d
  proof (cases "flight_of (pcs g d) = Some f")
    case True
    then have "wait_of (pcs g d) = Some f"
      using flight_of_cases D(6) [OF c(1)] c(2) by blast
    then show ?thesis
      using wait by (cases "pcs g d") auto
  next
    case False
    then show ?thesis
      by (intro told_frame [OF told]) auto
  qed
  have unfinished: "\<not> finished (flights g f)" if "work_of (pcs g c) = Some f" for c f
    using D(5) [OF that] .
  from step show ?thesis
  proof (cases rule: step_cases)
    case (join c f)
    have "\<not> finished (flights g f)"
      using D(1) [OF join(3)] D(3,5) by blast
    then show ?thesis
      using same [of "flights g'" d] join by (cases "d = c") (simp_all add: flight_simps told_waiting)
  next
    case (lead c)
    have "flight_of (pcs g d) \<noteq> Some (next_flight g)"
      using flight_of_cases D(4) [of d "next_flight g"] D(7) [of d "next_flight g"] by blast
    then have "told key (evs @ [e]) ((flights g)(next_flight g := new_flight)) d (pcs g d)"
      by (intro told_frame [OF told]) auto
    then show ?thesis
      using lead by (cases "d = c") (simp_all add: flight_simps told_def)
  next
    case (see_started c f)
    then show ?thesis
      using same [of "flights g" d] by (cases "d = c") (simp_all add: flight_simps told_def)
  next
    case (see_done c f w)
    show ?thesis
    proof (cases "d = c")
      case True
      then show ?thesis
        using told [of c] see_done by (auto simp: flight_simps told_def)
    next
      case False
      then have "pcs g' d = pcs g d" "flights g' = flights g"
        using see_done by (simp_all add: flight_simps)
      then show ?thesis
        using same [of "flights g" d] by simp
    qed
  next
    case (see_cancel c f w)
    then show ?thesis
      using same [of "flights g'" d] by (cases "d = c") (simp_all add: flight_simps told_def)
  next
    case (fn_started c f)
    then show ?thesis
      using same [of "flights g'" d] by (simp add: flight_simps)
  next
    case (fn_return c f r ab)
    then show ?thesis
      using other [of c f d] unfinished [of c f] by (cases "d = c") (simp_all add: flight_simps told_def)
  next
    case (fn_panic c f)
    then show ?thesis
      using same [of "flights g" d] by (cases "d = c") (simp_all add: flight_simps told_def)
  next
    case (finish_lock c f ab r)
    then show ?thesis
      using other [of c f d] unfinished [of c f] told [of c]
      by (cases "d = c") (auto simp: flight_simps told_def split: option.splits)
  next
    case (finish_close c f r)
    have "told key (evs @ [e]) ((flights g)(f := (flights g f)\<lparr>finished := True\<rparr>)) d (AtWait f w)" if "pcs g d = AtWait f w" for w
      using told [of c] finish_close(2) D(9) [of d f c] that by (auto simp: told_def split: option.splits)
    then show ?thesis
      using finish_close other [of c f d] told [of c] by (cases "d = c"; cases r) (auto simp: flight_simps told_def)
  next
    case (read_shared c f r)
    then show ?thesis
      using same [of "flights g" d] told [of c] by (cases "d = c") (auto simp: flight_simps told_def)
  next
    case (ctx_done c)
    then show ?thesis
      using same [of "flights g" d] by simp
  qed
qed

lemma schedule_told: "schedule key evs g \<Longrightarrow> told key evs (flights g) d (pcs g d)"
proof (induction arbitrary: d rule: schedule.induct)
  case start
  then show ?case
    by (simp add: idle_def told_def)
next
  case (more evs g e g')
  then show ?case
    using told_step [OF _ schedule_inv] by blast
qed

section \<open>Counting followers\<close>

definition count_inv :: "'e flightGroup \<Rightarrow> bool" where
  "count_inv g \<longleftrightarrow> finite {c. pcs g c \<noteq> AtStart} \<and>
     (\<forall>f. int (card (waiters f g)) \<le> joiners (flights g f) \<and>
          (\<not> finished (flights g f) \<longrightarrow> joiners (flights g f) = int (card (waiters f g))))"

lemma finite_waiters: "finite {c. pcs g c \<noteq> AtStart} \<Longrightarrow> finite (waiters f g)"
  by (rule finite_subset [of _ "{c. pcs g c \<noteq> AtStart}"]) (auto simp: waiters_def)

lemma active_upd: "finite {c. pcs g c \<noteq> AtStart} \<Longrightarrow> finite {d. ((pcs g)(c := p)) d \<noteq> AtStart}"
  by (rule finite_subset [of _ "insert c {c. pcs g c \<noteq> AtStart}"]) auto

lemma waiters_upd:
  "pcs g' = (pcs g)(c := p) \<Longrightarrow> waiters f g' = (if wait_of p = Some f then insert c (waiters f g) else waiters f g - {c})"
  by (auto simp: waiters_def)

lemma count_inv_step:
  assumes step: "step key e g = Some g'" and inv: "flight_inv key g" and count: "count_inv g"
  shows "count_inv g'"
proof -
  note D = core_invD [OF inv [unfolded flight_inv_def]]
  have fin: "finite {c. pcs g c \<noteq> AtStart}"
    using count by (simp add: count_inv_def)
  have card: "int (card (waiters f g)) \<le> joiners (flights g f)" "\<not> finished (flights g f) \<Longrightarrow> joiners (flights g f) = int (card (waiters f g))" for f
    using count by (simp_all add: count_inv_def)
  have in_w: "c \<in> waiters f g \<longleftrightarrow> wait_of (pcs g c) = Some f" for c f
    by (simp add: waiters_def)
  have build: "count_inv g'"
    if "pcs g' = (pcs g)(c := p)" "\<And>f. joiners (flights g' f) = joiners (flights g f) + k f"
      "\<And>f. int (card (waiters f g')) = int (card (waiters f g)) + k f" "\<And>f. finished (flights g' f) = finished (flights g f)" for c p k
    using card active_upd [OF fin, of c p] that unfolding count_inv_def by simp
  text \<open>A step that moves no caller into or out of a wait and keeps the counts.\<close>
  have stay: "count_inv g'"
    if "pcs g' = (pcs g)(c := p)" "wait_of p = wait_of (pcs g c)"
      "\<And>f. joiners (flights g' f) = joiners (flights g f)" "\<And>f. finished (flights g f) \<Longrightarrow> finished (flights g' f)" for c p
  proof -
    have w: "waiters f g' = waiters f g" for f
      using that(1,2) by (auto simp: waiters_def)
    have "\<not> finished (flights g f)" if "\<not> finished (flights g' f)" for f
      using that \<open>\<And>f. finished (flights g f) \<Longrightarrow> finished (flights g' f)\<close> by blast
    then show ?thesis
      using card that(3) active_upd [OF fin, of c p] unfolding count_inv_def w that(1) by auto
  qed
  from step show ?thesis
  proof (cases rule: step_cases)
    case (join c f)
    have "waiters f' g' = (if f' = f then insert c (waiters f g) else waiters f' g)" for f'
      using join by (auto simp: flight_simps waiters_def)
    moreover have "c \<notin> waiters f g"
      using join by (simp add: in_w)
    ultimately have "int (card (waiters f' g')) = int (card (waiters f' g)) + (if f' = f then 1 else 0)" for f'
      using finite_waiters [OF fin] by simp
    then show ?thesis
      using join by (intro build [of c "AtWait f True" "\<lambda>f'. if f' = f then 1 else 0"]) (simp_all add: flight_simps)
  next
    case (lead c)
    have "waiters (next_flight g) g = {}"
      using D(7) by (auto simp: waiters_def)
    moreover have "waiters f' g' = waiters f' g" for f'
      using lead by (auto simp: flight_simps waiters_def)
    ultimately show ?thesis
      using lead card active_upd [OF fin] by (auto simp: count_inv_def flight_simps)
  next
    case (see_done c f w)
    have w: "waiters f' g' = waiters f' g - {c}" for f'
      using see_done by (auto simp: flight_simps waiters_def)
    have active: "finite {d. pcs g' d \<noteq> AtStart}"
      using see_done active_upd [OF fin] by (simp add: flight_simps)
    have fls: "flights g' = flights g"
      using see_done by (simp add: flight_simps)
    have "waiters f' g - {c} = waiters f' g" if "\<not> finished (flights g f')" for f'
      using see_done that by (auto simp: in_w)
    moreover have "int (card (waiters f' g - {c})) \<le> joiners (flights g f')" for f'
      by (rule order_trans [OF _ card(1)]) (simp add: card_Diff1_le finite_waiters [OF fin])
    ultimately show ?thesis
      using card(2) active unfolding count_inv_def w fls by simp
  next
    case (see_cancel c f w)
    have "waiters f' g' = (if f' = f then waiters f g - {c} else waiters f' g)" for f'
      using see_cancel by (auto simp: flight_simps waiters_def)
    moreover have "c \<in> waiters f g"
      using see_cancel by (simp add: in_w)
    ultimately have "int (card (waiters f' g')) = int (card (waiters f' g)) + (if f' = f then - 1 else 0)" for f'
      using finite_waiters [OF fin, of f] card_Suc_Diff1 [of "waiters f g" c] by simp
    then show ?thesis
      using see_cancel by (intro build [of c RetCanceled "\<lambda>f'. if f' = f then - 1 else 0"]) (simp_all add: flight_simps)
  next
    case (see_started c f)
    then show ?thesis
      by (intro stay [of c "AtWait f False"]) (auto simp: flight_simps fun_eq_iff)
  next
    case (fn_started c f)
    then show ?thesis
      by (intro stay [of c "pcs g c"]) (auto simp: flight_simps fun_eq_iff)
  next
    case (fn_return c f r ab)
    then show ?thesis
      by (intro stay [of c "AtUnwind f ab (Some r)"]) (auto simp: flight_simps fun_eq_iff)
  next
    case (fn_panic c f)
    then show ?thesis
      by (intro stay [of c "AtUnwind f True None"]) (auto simp: flight_simps fun_eq_iff)
  next
    case (finish_lock c f ab r)
    then show ?thesis
      by (intro stay [of c "AtRelease f r"]) (auto simp: flight_simps fun_eq_iff)
  next
    case (finish_close c f r)
    then show ?thesis
      by (intro stay [of c "case r of None \<Rightarrow> RetPanic | Some out \<Rightarrow> AtRead f out"]) (auto simp: flight_simps fun_eq_iff split: option.split)
  next
    case (read_shared c f r)
    then show ?thesis
      by (intro stay [of c "RetOutcome r (shared (flights g f))"]) (auto simp: flight_simps fun_eq_iff)
  next
    case (ctx_done c)
    then show ?thesis
      by (intro stay [of c "pcs g c"]) simp_all
  qed
qed

lemma schedule_count: "schedule key evs g \<Longrightarrow> count_inv g"
proof (induction rule: schedule.induct)
  case start
  then show ?case
    by (simp add: count_inv_def idle_def new_flight_def waiters_def)
next
  case (more evs g e g')
  then show ?case
    using count_inv_step schedule_inv by blast
qed

section \<open>Progress\<close>

text \<open>The steps a caller takes by itself once no scan function is running.\<close>

fun progress :: "'e flight_event \<Rightarrow> bool" where
  "progress (SeeDone c) = True"
| "progress (FinishLock c) = True"
| "progress (FinishClose c) = True"
| "progress (ReadShared c) = True"
| "progress _ = False"

fun rank :: "'e pc \<Rightarrow> nat" where
  "rank (AtUnwind f ab r) = 3"
| "rank (AtRelease f r) = 2"
| "rank (AtRead f r) = 1"
| "rank (AtWait f w) = 1"
| "rank _ = 0"

definition remaining :: "'e flightGroup \<Rightarrow> nat" where
  "remaining g = (\<Sum>c \<in> {c. pcs g c \<noteq> AtStart}. rank (pcs g c))"

fun run_events :: "(nat \<Rightarrow> string) \<Rightarrow> 'e flight_event list \<Rightarrow> 'e flightGroup \<Rightarrow> 'e flightGroup option" where
  "run_events key [] g = Some g"
| "run_events key (e # es) g = (case step key e g of None \<Rightarrow> None | Some g' \<Rightarrow> run_events key es g')"

definition out_of_fn :: "'e flightGroup \<Rightarrow> bool" where
  "out_of_fn g \<longleftrightarrow> (\<forall>c f. pcs g c \<noteq> AtFn f)"

text \<open>No flight in the map and every caller either outside the group or back with its result.\<close>

definition settled :: "'e flightGroup \<Rightarrow> bool" where
  "settled g \<longleftrightarrow> fm g = Map.empty \<and> (\<forall>c. work_of (pcs g c) = None \<and> wait_of (pcs g c) = None)"

lemma remaining_upd:
  assumes fin: "finite {c. pcs g c \<noteq> AtStart}" and upd: "pcs g' = (pcs g)(c := p)" and less: "rank p < rank (pcs g c)"
  shows "remaining g' < remaining g"
proof -
  let ?A = "{c. pcs g c \<noteq> AtStart}"
  have c: "c \<in> ?A"
    using less by auto
  have sub: "{d. pcs g' d \<noteq> AtStart} \<subseteq> ?A"
    using upd c by auto
  have "remaining g' = (\<Sum>d \<in> ?A. rank (pcs g' d))"
    unfolding remaining_def using fin sub by (intro sum.mono_neutral_left) auto
  also have "\<dots> < (\<Sum>d \<in> ?A. rank (pcs g d))"
    using fin c upd less by (intro sum_strict_mono_ex1) auto
  finally show ?thesis
    by (simp add: remaining_def)
qed

lemma progress_moves:
  assumes "step key e g = Some g'" "progress e"
  shows "\<exists>c p. pcs g' = (pcs g)(c := p) \<and> rank p < rank (pcs g c) \<and> (\<forall>f. p \<noteq> AtFn f)"
  using assms(1)
proof (cases rule: step_cases)
  case (see_done c f w)
  then show ?thesis
    by (intro exI [of _ c]) (auto simp: flight_simps)
next
  case (finish_lock c f ab r)
  then show ?thesis
    by (intro exI [of _ c]) (auto simp: flight_simps)
next
  case (finish_close c f r)
  then show ?thesis
    by (intro exI [of _ c]) (auto simp: flight_simps split: option.split)
next
  case (read_shared c f r)
  then show ?thesis
    by (intro exI [of _ c]) (auto simp: flight_simps)
qed (use assms(2) in simp_all)

lemma progress_remaining:
  assumes "schedule key evs g" "step key e g = Some g'" "progress e" "out_of_fn g"
  shows "remaining g' < remaining g" and "out_of_fn g'"
proof -
  obtain c p where c: "pcs g' = (pcs g)(c := p)" "rank p < rank (pcs g c)" "\<forall>f. p \<noteq> AtFn f"
    using progress_moves [OF assms(2,3)] by blast
  show "remaining g' < remaining g"
    using schedule_count [OF assms(1)] c(1,2) by (intro remaining_upd) (simp_all add: count_inv_def)
  show "out_of_fn g'"
    using assms(4) c(1,3) by (simp add: out_of_fn_def)
qed

lemma stuck_settled:
  assumes "schedule key evs g" "out_of_fn g" "\<And>e. progress e \<Longrightarrow> step key e g = None"
  shows "settled g"
proof -
  note D = core_invD [OF schedule_inv [OF assms(1), unfolded flight_inv_def]]
  have work: "work_of (pcs g c) = None" for c
    using assms(2) assms(3) [of "FinishLock c"] assms(3) [of "FinishClose c"] by (cases "pcs g c") (auto simp: out_of_fn_def)
  have "wait_of (pcs g c) = None" for c
  proof (cases "wait_of (pcs g c)")
    case (Some f)
    then have "finished (flights g f)"
      using D(8) work by auto
    then show ?thesis
      using assms(3) [of "SeeDone c"] Some by (cases "pcs g c") auto
  qed simp
  moreover have "fm g k = None" for k
    using D(1) [of k] D(3) work by (cases "fm g k") auto
  ultimately show ?thesis
    using work by (auto simp: settled_def)
qed

lemma run_progress:
  assumes "schedule key evs g" "out_of_fn g" "list_all progress es" "run_events key es g = Some g'"
  shows "length es + remaining g' \<le> remaining g \<and> out_of_fn g' \<and> schedule key (evs @ es) g'"
  using assms
proof (induction es arbitrary: evs g)
  case (Cons e es)
  then obtain g1 where g1: "step key e g = Some g1" "run_events key es g1 = Some g'"
    by (auto split: option.splits)
  have "progress e"
    using Cons.prems(3) by simp
  note less = progress_remaining [OF Cons.prems(1) g1(1) this Cons.prems(2)]
  have "schedule key (evs @ [e]) g1"
    using Cons.prems(1) g1(1) by (rule schedule.more)
  from Cons.IH [OF this less(2) _ g1(2)] Cons.prems(3) less(1) show ?case
    by simp
qed simp

section \<open>Properties\<close>

text \<open>(C14) In every interleaving at most one caller per key is inside the scan function at a time.\<close>

theorem one_scan_per_key:
  assumes "schedule key evs g" and "pcs g c = AtFn f" and "pcs g d = AtFn f'" and "key c = key d"
  shows "c = d"
proof -
  note D = core_invD [OF schedule_inv [OF assms(1), unfolded flight_inv_def]]
  have "f = f'"
    using D(2) [of c f] D(2) [of d f'] assms(2-4) by simp
  then show ?thesis
    using D(6) [of c f d] assms(2,3) by simp
qed

lemma schedule_run:
  assumes "schedule key evs g" and "run_events key es g = Some g'"
  shows "schedule key (evs @ es) g'"
  using assms
proof (induction es arbitrary: evs g)
  case (Cons e es)
  then obtain g1 where "step key e g = Some g1" "run_events key es g1 = Some g'"
    by (auto split: option.splits)
  then show ?case
    using Cons.IH [OF schedule.more [OF Cons.prems(1)]] by fastforce
qed simp

definition clean :: "nat scanOutcome" where
  "clean = \<lparr>o_matches = NilSlice, o_err = None\<rparr>"

definition ex_key :: "nat \<Rightarrow> string" where
  "ex_key c = ''k''"

lemmas flight_eval = ex_key_def clean_def idle_def flight_simps

definition ex_events :: "nat flight_event list" where
  "ex_events = [Enter 0, Enter 1, FnStarted 0, FnReturn 0 clean False, FinishLock 0]"

definition ex_group :: "nat flightGroup" where
  "ex_group = the (run_events ex_key ex_events idle)"

lemma ex_schedule: "schedule ex_key ex_events ex_group"
proof -
  have "run_events ex_key ex_events idle = Some ex_group"
    by (simp add: ex_group_def ex_events_def flight_eval)
  from schedule_run [OF schedule.start this] show ?thesis
    by simp
qed

definition ex_two :: "nat flightGroup" where
  "ex_two = enter ''k'' 1 (enter ''k'' 0 idle)"

lemma ex_two_schedule: "schedule ex_key [Enter 0, Enter 1] ex_two"
proof -
  have "run_events ex_key [Enter 0, Enter 1] idle = Some ex_two"
    by (simp add: ex_two_def flight_eval)
  from schedule_run [OF schedule.start this] show ?thesis
    by simp
qed

theorem one_scan_per_key_witness:
  "pcs ex_two 0 = AtFn 0 \<and> ex_key 0 = ex_key 1 \<and> pcs ex_two 1 \<noteq> AtFn 1"
proof -
  have lead: "pcs ex_two 0 = AtFn 0" and same: "ex_key 0 = ex_key 1"
    by (simp_all add: ex_two_def flight_eval)
  have "pcs ex_two 1 \<noteq> AtFn 1"
    using one_scan_per_key [OF ex_two_schedule lead _ same] by auto
  then show ?thesis
    using lead same by blast
qed

text \<open>(C12) In every interleaving, the outcome a caller is given was returned by a scan function run
  for the same key; and unless it is the caller's own, that run did not abort. So the
  non-verdict of a leader that gave up or panicked never reaches a follower.\<close>

theorem coalesced_outcome_genuine:
  assumes "schedule key evs g" and "pcs g c = RetOutcome out sh"
  shows "\<exists>l ab. key l = key c \<and> FnReturn l out ab \<in> set evs \<and> (ab \<longrightarrow> l = c)"
  using schedule_told [OF assms(1), of c] assms(2) by (simp add: told_def)

definition ex_rest :: "nat flight_event list" where
  "ex_rest = [FinishClose 0, SeeDone 1, ReadShared 0]"

definition ex_done :: "nat flightGroup" where
  "ex_done = the (run_events ex_key ex_rest ex_group)"

lemma ex_done_run: "run_events ex_key ex_rest ex_group = Some ex_done"
  by (simp add: ex_done_def ex_rest_def ex_group_def ex_events_def flight_eval)

lemma ex_done_pcs: "pcs ex_done 1 = RetOutcome clean True" "pcs ex_done 0 = RetOutcome clean True"
  by (simp_all add: ex_done_def ex_rest_def ex_group_def ex_events_def flight_eval)

theorem coalesced_outcome_genuine_witness:
  "pcs ex_done 1 = RetOutcome clean True \<and>
   (\<exists>l ab. ex_key l = ex_key 1 \<and> FnReturn l clean ab \<in> set (ex_events @ ex_rest) \<and> (ab \<longrightarrow> l = 1))"
  using coalesced_outcome_genuine [OF schedule_run [OF ex_schedule ex_done_run], of 1 clean True] ex_done_pcs(1) by blast

lemma ex_stuck: "progress e \<Longrightarrow> step ex_key e ex_done = None"
proof -
  have "pcs ex_done c = (if c = 0 \<or> c = 1 then RetOutcome clean True else AtStart)" for c
    by (simp add: ex_done_def ex_rest_def ex_group_def ex_events_def flight_eval)
  then show "progress e \<Longrightarrow> step ex_key e ex_done = None"
    by (cases e) simp_all
qed

text \<open>(C13) No follower is left behind. Once no scan function is running, whatever the schedule
  so far (returns, aborts and panics included), the callers' own steps form only finite runs, of a length
  bounded by the callers' positions, and a run that cannot be continued ends with the key map
  empty and no caller waiting or leading.\<close>

theorem followers_are_released:
  assumes "schedule key evs g" and "out_of_fn g"
  shows "list_all progress es \<longrightarrow> run_events key es g = Some g' \<longrightarrow>
    length es \<le> remaining g \<and> ((\<forall>e. progress e \<longrightarrow> step key e g' = None) \<longrightarrow> settled g')"
  using run_progress [OF assms] stuck_settled by fastforce

theorem followers_are_released_witness:
  "out_of_fn ex_group \<and> run_events ex_key ex_rest ex_group = Some ex_done \<and> length ex_rest \<le> remaining ex_group \<and> settled ex_done"
proof -
  have out: "out_of_fn ex_group"
    by (simp add: out_of_fn_def ex_group_def ex_events_def flight_eval)
  have "list_all progress ex_rest"
    by (simp add: ex_rest_def)
  then show ?thesis
    using out ex_done_run ex_stuck followers_are_released [OF ex_schedule out, of ex_rest ex_done] by blast
qed

text \<open>While a flight is open its follower count is the number of callers waiting on it, so the
  mark the leader publishes says whether a follower was still there.\<close>

lemma joiners_counted:
  assumes "schedule key evs g" and "\<not> finished (flights g f)"
  shows "finite (waiters f g) \<and> joiners (flights g f) = int (card (waiters f g)) \<and>
    (\<forall>c ab r. pcs g c = AtUnwind f ab r \<longrightarrow>
       shared (flights (finish_lock (key c) f ab r c g) f) = (waiters f g \<noteq> {}))"
proof -
  have count: "finite (waiters f g)" "joiners (flights g f) = int (card (waiters f g))"
    using schedule_count [OF assms(1)] assms(2) finite_waiters by (auto simp: count_inv_def)
  then show ?thesis
    by (auto simp: flight_simps card_gt_0_iff)
qed


end
