(* ===== verification/Native_Rules.thy ===== *)
theory Native_Rules
  imports Strix_Prelude "HOL-Library.Multiset"
begin

text \<open>
  Lifetime of compiled rule objects, \<^verbatim>\<open>src/internal/mailstrix/rule_generations.go\<close> and the pins of
  \<^verbatim>\<open>src/internal/mailstrix/generation.go\<close>. A native \<^verbatim>\<open>*yara.Rules\<close> is a number; the heap holds
  the owners (one reference count per object) and the generation pins, the observer's two maps
  say which objects are live and which owner manages them, and \<open>freed\<close> records the calls of
  \<^verbatim>\<open>Destroy\<close> in order. A panic is the left value of a result. Each operation is one step: the
  code's mutexes make its parts atomic, and a destruction is claimed under the lock that saw the last
  reference go. The removal of tombstones and the finalizers, which only run on unreachable
  objects, are outside the model; \<open>collected\<close> is what a weak pointer reports.
\<close>

section \<open>State\<close>

record nativeRulesOwner =
  ow_rules :: nat
  ow_refs :: nat
  ow_destroyed :: bool
  destroyClaimed :: bool
  lateTrim :: bool

record generationPin =
  pin_refs :: nat
  pin_owners :: "nat list"
  replaced :: "nat list"

record natives =
  owns :: "nat \<Rightarrow> nativeRulesOwner"
  n_own :: nat
  live :: "nat \<Rightarrow> bool option"
  liveCount :: u64
  managed :: "nat \<Rightarrow> nat option"
  collected :: "nat \<Rightarrow> bool"
  freed :: "nat list"
  trims :: nat
  pins :: "nat \<Rightarrow> generationPin"
  n_pin :: nat

definition set_owner :: "nat \<Rightarrow> nativeRulesOwner \<Rightarrow> natives \<Rightarrow> natives" where
  "set_owner o' v w = w\<lparr>owns := (owns w)(o' := v)\<rparr>"

definition set_pin :: "nat \<Rightarrow> generationPin \<Rightarrow> natives \<Rightarrow> natives" where
  "set_pin p v w = w\<lparr>pins := (pins w)(p := v)\<rparr>"

section \<open>Observer and owners\<close>

definition observe_rules :: "nat option \<Rightarrow> natives \<Rightarrow> natives" where
  "observe_rules r w =
     (case r of
        None \<Rightarrow> w
      | Some k \<Rightarrow> if live w k \<noteq> None then w
                  else w\<lparr>live := (live w)(k \<mapsto> False), liveCount := liveCount w + 1\<rparr>)"

definition obs_destroy :: "nat \<Rightarrow> natives \<Rightarrow> natives" where
  "obs_destroy r w =
     (case live w r of
        None \<Rightarrow> w
      | Some claimed \<Rightarrow>
          if claimed then w
          else (let w1 = w\<lparr>live := (live w)(r \<mapsto> True)\<rparr>;
                    w2 = w1\<lparr>freed := freed w1 @ [r]\<rparr>
                in w2\<lparr>liveCount := liveCount w2 - 1, managed := (managed w2)(r := None)\<rparr>))"

definition RuleGenerations :: "natives \<Rightarrow> u64" where
  "RuleGenerations w = liveCount w"

definition armLateTrim :: "nat option \<Rightarrow> natives \<Rightarrow> bool \<times> natives" where
  "armLateTrim o' w =
     (case o' of
        None \<Rightarrow> (False, w)
      | Some a \<Rightarrow> if destroyClaimed (owns w a) then (False, w)
                  else (True, set_owner a ((owns w a)\<lparr>lateTrim := True\<rparr>) w))"

definition ow_retain :: "nat option \<Rightarrow> natives \<Rightarrow> string + natives" where
  "ow_retain o' w =
     (case o' of
        None \<Rightarrow> Inr w
      | Some a \<Rightarrow> if ow_refs (owns w a) = 0 then Inl ''retaining destroyed native rules''
                  else Inr (set_owner a ((owns w a)\<lparr>ow_refs := ow_refs (owns w a) + 1\<rparr>) w))"

definition ow_destroy :: "nat \<Rightarrow> natives \<Rightarrow> natives" where
  "ow_destroy a w =
     (if destroyClaimed (owns w a) then w
      else (let w1 = set_owner a ((owns w a)\<lparr>destroyClaimed := True, ow_refs := 0\<rparr>) w;
                w2 = obs_destroy (ow_rules (owns w1 a)) w1;
                late = lateTrim (owns w2 a);
                w3 = set_owner a ((owns w2 a)\<lparr>ow_destroyed := True, lateTrim := False\<rparr>) w2
            in if late then w3\<lparr>trims := trims w3 + 1\<rparr> else w3))"

definition ow_release :: "nat option \<Rightarrow> natives \<Rightarrow> string + natives" where
  "ow_release o' w =
     (case o' of
        None \<Rightarrow> Inr w
      | Some a \<Rightarrow>
          if ow_refs (owns w a) = 0 then Inl ''unbalanced native rules release''
          else (let w1 = set_owner a ((owns w a)\<lparr>ow_refs := ow_refs (owns w a) - 1\<rparr>) w
                in Inr (if ow_refs (owns w1 a) = 0 then ow_destroy a w1 else w1)))"

definition adopt :: "nat option \<Rightarrow> natives \<Rightarrow> string + nat option \<times> natives" where
  "adopt rs w =
     (case rs of
        None \<Rightarrow> Inr (None, w)
      | Some r \<Rightarrow>
          if live w r = Some True then Inl ''adopting destroyed native rules''
          else (case managed w r of
                  Some a \<Rightarrow>
                    if collected w a then Inl ''adopting unreachable native rules owner''
                    else map_sum id (\<lambda>w1. (Some a, w1)) (ow_retain (Some a) w)
                | None \<Rightarrow>
                    (let a = n_own w;
                         w1 = (set_owner a \<lparr>ow_rules = r, ow_refs = 1, ow_destroyed = False, destroyClaimed = False, lateTrim = False\<rparr> w)\<lparr>n_own := a + 1\<rparr>;
                         w2 = (if live w1 r = None then w1\<lparr>live := (live w1)(r \<mapsto> False), liveCount := liveCount w1 + 1\<rparr> else w1)
                     in Inr (Some a, w2\<lparr>managed := (managed w2)(r \<mapsto> a)\<rparr>))))"

definition retainManaged :: "nat option \<Rightarrow> natives \<Rightarrow> string + nat option \<times> natives" where
  "retainManaged rs w =
     (case rs of
        None \<Rightarrow> Inr (None, w)
      | Some r \<Rightarrow>
          if live w r = Some True then Inl ''retaining destroyed native rules''
          else (case managed w r of
                  None \<Rightarrow> Inr (None, w)
                | Some a \<Rightarrow>
                    if collected w a then Inl ''retaining unreachable native rules owner''
                    else map_sum id (\<lambda>w1. (Some a, w1)) (ow_retain (Some a) w)))"

section \<open>Generation pins\<close>

definition pin_retain :: "nat option \<Rightarrow> natives \<Rightarrow> string + natives" where
  "pin_retain g w =
     (case g of
        None \<Rightarrow> Inr w
      | Some p \<Rightarrow> if pin_refs (pins w p) = 0 then Inl ''retaining retired rules generation''
                  else Inr (set_pin p ((pins w p)\<lparr>pin_refs := pin_refs (pins w p) + 1\<rparr>) w))"

fun release_all :: "nat list \<Rightarrow> natives \<Rightarrow> string + natives" where
  "release_all [] w = Inr w"
| "release_all (a # as) w = (case ow_release (Some a) w of Inl e \<Rightarrow> Inl e | Inr w1 \<Rightarrow> release_all as w1)"

definition pin_release :: "nat option \<Rightarrow> natives \<Rightarrow> string + natives" where
  "pin_release g w =
     (case g of
        None \<Rightarrow> Inr w
      | Some p \<Rightarrow>
          if pin_refs (pins w p) = 0 then Inl ''unbalanced generation release''
          else (let w1 = set_pin p ((pins w p)\<lparr>pin_refs := pin_refs (pins w p) - 1\<rparr>) w
                in if pin_refs (pins w1 p) = 0 then release_all (pin_owners (pins w1 p)) w1 else Inr w1))"

definition no_natives :: natives where
  "no_natives = \<lparr>owns = (\<lambda>_. \<lparr>ow_rules = 0, ow_refs = 0, ow_destroyed = False, destroyClaimed = False, lateTrim = False\<rparr>), n_own = 0,
    live = Map.empty, liveCount = 0, managed = Map.empty, collected = (\<lambda>_. False), freed = [], trims = 0,
    pins = (\<lambda>_. \<lparr>pin_refs = 0, pin_owners = [], replaced = []\<rparr>), n_pin = 0\<rparr>"

section \<open>Accounting invariant\<close>

text \<open>
  \<open>P\<close> is the multiset of owner references held outside the pins (candidates of a reload, native
  scanners, references in the hands of running code), \<open>Q\<close> the multiset of pin references (the
  publication root, leases, retired roots). Every count is what these holders account for.
\<close>

definition pin_holds :: "natives \<Rightarrow> nat \<Rightarrow> nat set" where
  "pin_holds w a = {p. p < n_pin w \<and> 0 < pin_refs (pins w p) \<and> a \<in> set (pin_owners (pins w p))}"

definition refs_ok :: "natives \<Rightarrow> nat multiset \<Rightarrow> bool" where
  "refs_ok w P \<longleftrightarrow> (\<forall>a \<in># P. a < n_own w) \<and>
     (\<forall>a < n_own w. ow_refs (owns w a) = card (pin_holds w a) + count P a)"

definition pins_ok :: "natives \<Rightarrow> nat multiset \<Rightarrow> bool" where
  "pins_ok w Q \<longleftrightarrow> (\<forall>p \<in># Q. p < n_pin w) \<and>
     (\<forall>p < n_pin w. pin_refs (pins w p) = count Q p \<and> distinct (pin_owners (pins w p)) \<and> set (pin_owners (pins w p)) \<subseteq> {..<n_own w})"

definition owners_ok :: "natives \<Rightarrow> bool" where
  "owners_ok w \<longleftrightarrow>
     (\<forall>a < n_own w. (ow_refs (owns w a) = 0 \<longleftrightarrow> destroyClaimed (owns w a)) \<and> ow_destroyed (owns w a) = destroyClaimed (owns w a) \<and>
        (if destroyClaimed (owns w a) then live w (ow_rules (owns w a)) = Some True
         else managed w (ow_rules (owns w a)) = Some a \<and> \<not> collected w a))"

definition managed_ok :: "natives \<Rightarrow> bool" where
  "managed_ok w \<longleftrightarrow>
     (\<forall>r a. managed w r = Some a \<longrightarrow> a < n_own w \<and> r = ow_rules (owns w a) \<and> \<not> destroyClaimed (owns w a) \<and> live w r = Some False)"

definition registry_ok :: "natives \<Rightarrow> bool" where
  "registry_ok w \<longleftrightarrow>
     (\<forall>a. n_own w \<le> a \<longrightarrow> \<not> collected w a) \<and> (\<forall>r. live w r = Some False \<longrightarrow> managed w r \<noteq> None) \<and>
     distinct (freed w) \<and> set (freed w) = {r. live w r = Some True} \<and>
     finite {r. live w r = Some False} \<and> liveCount w = of_nat (card {r. live w r = Some False})"

definition nat_inv :: "natives \<Rightarrow> nat multiset \<Rightarrow> nat multiset \<Rightarrow> bool" where
  "nat_inv w P Q \<longleftrightarrow> refs_ok w P \<and> pins_ok w Q \<and> owners_ok w \<and> managed_ok w \<and> registry_ok w"

lemma managed_okD:
  assumes "managed_ok w" "managed w r = Some a"
  shows "a < n_own w" "ow_rules (owns w a) = r" "\<not> destroyClaimed (owns w a)" "live w r = Some False"
  using assms unfolding managed_ok_def by blast+

lemma managed_okI:
  assumes "\<And>r a. managed w r = Some a \<Longrightarrow> a < n_own w \<and> ow_rules (owns w a) = r \<and> \<not> destroyClaimed (owns w a) \<and> live w r = Some False"
  shows "managed_ok w"
  using assms unfolding managed_ok_def by blast

lemma nat_inv_start: "nat_inv no_natives {#} {#}"
  by (simp add: nat_inv_def refs_ok_def pins_ok_def owners_ok_def managed_ok_def registry_ok_def no_natives_def)

lemma finite_pin_holds [simp]: "finite (pin_holds w a)"
  by (rule finite_subset [of _ "{..<n_pin w}"]) (auto simp: pin_holds_def)

lemma set_owner_simps [simp]:
  "owns (set_owner a v w) = (owns w)(a := v)" "n_own (set_owner a v w) = n_own w" "live (set_owner a v w) = live w"
  "liveCount (set_owner a v w) = liveCount w" "managed (set_owner a v w) = managed w" "collected (set_owner a v w) = collected w"
  "freed (set_owner a v w) = freed w" "pins (set_owner a v w) = pins w" "n_pin (set_owner a v w) = n_pin w"
  "trims (set_owner a v w) = trims w" "pin_holds (set_owner a v w) = pin_holds w"
  by (simp_all add: set_owner_def pin_holds_def fun_eq_iff)

lemma set_pin_simps [simp]:
  "owns (set_pin p v w) = owns w" "n_own (set_pin p v w) = n_own w" "live (set_pin p v w) = live w"
  "liveCount (set_pin p v w) = liveCount w" "managed (set_pin p v w) = managed w" "collected (set_pin p v w) = collected w"
  "freed (set_pin p v w) = freed w" "pins (set_pin p v w) = (pins w)(p := v)" "n_pin (set_pin p v w) = n_pin w"
  "owners_ok (set_pin p v w) = owners_ok w" "registry_ok (set_pin p v w) = registry_ok w"
  "managed_ok (set_pin p v w) = managed_ok w"
  by (simp_all add: set_pin_def owners_ok_def registry_ok_def managed_ok_def)

lemma managed_ok_owner:
  assumes "ow_rules v = ow_rules (owns w a)" "destroyClaimed v = destroyClaimed (owns w a)"
  shows "managed_ok (set_owner a v w) = managed_ok w"
proof -
  have "ow_rules (((owns w)(a := v)) x) = ow_rules (owns w x)" "destroyClaimed (((owns w)(a := v)) x) = destroyClaimed (owns w x)" for x
    using assms by simp_all
  then show ?thesis
    by (simp add: managed_ok_def del: fun_upd_apply)
qed

text \<open>What every operation keeps: addresses, the identities behind them and the objects already freed.\<close>

definition grows :: "natives \<Rightarrow> natives \<Rightarrow> bool" where
  "grows w w' \<longleftrightarrow> n_own w \<le> n_own w' \<and> n_pin w \<le> n_pin w' \<and>
     (\<forall>a < n_own w. ow_rules (owns w' a) = ow_rules (owns w a)) \<and>
     (\<forall>p < n_pin w. pin_owners (pins w' p) = pin_owners (pins w p)) \<and> set (freed w) \<subseteq> set (freed w')"

lemma grows_refl [simp]: "grows w w"
  by (simp add: grows_def)

lemma grows_trans: "grows u v \<Longrightarrow> grows v w \<Longrightarrow> grows u w"
  by (auto simp: grows_def)

lemma ow_retain_ok:
  assumes inv: "nat_inv w P Q" and a: "a < n_own w" "\<not> destroyClaimed (owns w a)"
  shows "\<exists>w'. ow_retain (Some a) w = Inr w' \<and> nat_inv w' (add_mset a P) Q \<and> grows w w' \<and> managed w' = managed w \<and> live w' = live w"
proof -
  let ?w = "set_owner a ((owns w a)\<lparr>ow_refs := ow_refs (owns w a) + 1\<rparr>) w"
  have "ow_refs (owns w a) \<noteq> 0"
    using inv a by (simp add: nat_inv_def owners_ok_def)
  then have "ow_retain (Some a) w = Inr ?w"
    by (simp add: ow_retain_def)
  moreover have "refs_ok ?w (add_mset a P)" "pins_ok ?w Q" "owners_ok ?w" "registry_ok ?w"
    using inv a by (auto simp: nat_inv_def refs_ok_def pins_ok_def owners_ok_def registry_ok_def)
  moreover have "managed_ok ?w"
    using inv by (simp add: nat_inv_def managed_ok_owner)
  ultimately have "ow_retain (Some a) w = Inr ?w" "nat_inv ?w (add_mset a P) Q"
    by (simp_all add: nat_inv_def)
  moreover have "grows w ?w" "managed ?w = managed w" "live ?w = live w"
    by (simp_all add: grows_def)
  ultimately show ?thesis
    by blast
qed

text \<open>Destroying an owner whose last reference is gone.\<close>

lemma ow_destroy_fields:
  assumes "\<not> destroyClaimed (owns w a)" and "live w (ow_rules (owns w a)) = Some False"
  defines "r \<equiv> ow_rules (owns w a)" and "w' \<equiv> ow_destroy a w"
  shows "owns w' = (owns w)(a := \<lparr>ow_rules = r, ow_refs = 0, ow_destroyed = True, destroyClaimed = True, lateTrim = False\<rparr>)"
    "n_own w' = n_own w" "live w' = (live w)(r \<mapsto> True)" "liveCount w' = liveCount w - 1" "managed w' = (managed w)(r := None)"
    "collected w' = collected w" "freed w' = freed w @ [r]" "pins w' = pins w" "n_pin w' = n_pin w"
  using assms(1,2) unfolding r_def w'_def by (auto simp: ow_destroy_def obs_destroy_def Let_def set_owner_def)

lemma claim_live:
  assumes "finite {r. L r = Some False}" "L r = Some False"
  shows "{x. (L(r \<mapsto> True)) x = Some False} = {x. L x = Some False} - {r}"
    and "(of_nat (card {x. (L(r \<mapsto> True)) x = Some False}) :: u64) = of_nat (card {x. L x = Some False}) - 1"
proof -
  show eq: "{x. (L(r \<mapsto> True)) x = Some False} = {x. L x = Some False} - {r}"
    by auto
  have "card {x. L x = Some False} = Suc (card ({x. L x = Some False} - {r}))"
    using card_Suc_Diff1 [OF assms(1), of r] assms(2) by simp
  then show "(of_nat (card {x. (L(r \<mapsto> True)) x = Some False}) :: u64) = of_nat (card {x. L x = Some False}) - 1"
    unfolding eq by simp
qed

lemma ow_release_ok:
  assumes inv: "nat_inv w (add_mset a P) Q"
  shows "\<exists>w'. ow_release (Some a) w = Inr w' \<and> nat_inv w' P Q \<and> grows w w' \<and> pins w' = pins w \<and> n_pin w' = n_pin w"
proof -
  let ?w = "set_owner a ((owns w a)\<lparr>ow_refs := ow_refs (owns w a) - Suc 0\<rparr>) w"
  have a: "a < n_own w" and refs: "ow_refs (owns w a) = card (pin_holds w a) + count P a + 1"
    using inv by (auto simp: nat_inv_def refs_ok_def)
  have "(ow_refs (owns w a) = 0) = destroyClaimed (owns w a)"
    using inv a by (simp add: nat_inv_def owners_ok_def)
  then have claimed: "\<not> destroyClaimed (owns w a)"
    using refs by simp
  have managed: "managed w (ow_rules (owns w a)) = Some a"
    using inv a claimed by (simp add: nat_inv_def owners_ok_def)
  have live: "live w (ow_rules (owns w a)) = Some False"
    using inv managed by (auto simp: nat_inv_def dest: managed_okD)
  have refs_P: "refs_ok ?w P"
    using inv by (auto simp: nat_inv_def refs_ok_def)
  show ?thesis
  proof (cases "ow_refs (owns w a) = 1")
    case False
    then have more: "ow_refs (owns w a) - 1 \<noteq> 0" "ow_refs (owns w a) \<noteq> 0"
      using refs by linarith+
    then have "ow_release (Some a) w = Inr ?w"
      by (simp add: ow_release_def Let_def)
    moreover have "pins_ok ?w Q" "registry_ok ?w"
      using inv by (simp_all add: nat_inv_def pins_ok_def registry_ok_def)
    moreover have "owners_ok ?w"
      using inv more claimed by (auto simp: nat_inv_def owners_ok_def)
    moreover have "managed_ok ?w"
      using inv by (simp add: nat_inv_def managed_ok_owner)
    moreover have "grows w ?w"
      by (simp add: grows_def)
    ultimately show ?thesis
      using refs_P by (auto simp: nat_inv_def)
  next
    case True
    let ?d = "ow_destroy a ?w"
    have eq: "ow_release (Some a) w = Inr ?d"
      using True by (simp add: ow_release_def)
    note d = ow_destroy_fields [of ?w a, simplified, OF claimed live]
    have other: "ow_rules (owns w b) \<noteq> ow_rules (owns w a)" if "b < n_own w" "b \<noteq> a" "\<not> destroyClaimed (owns w b)" for b
      using inv that managed by (auto simp: nat_inv_def owners_ok_def)
    have holds: "pin_holds ?d = pin_holds w"
      by (simp add: pin_holds_def d fun_eq_iff)
    have "card (pin_holds w a) = 0" "count P a = 0"
      using refs True by linarith+
    then have "refs_ok ?d P"
      using refs_P by (auto simp: refs_ok_def holds d)
    moreover have "pins_ok ?d Q"
      using inv by (simp add: nat_inv_def pins_ok_def d)
    moreover have "owners_ok ?d"
      using inv other by (auto simp: nat_inv_def owners_ok_def d)
    moreover have "managed_ok ?d"
      using inv by (intro managed_okI) (auto simp: nat_inv_def d split: if_splits dest: managed_okD)
    moreover have "registry_ok ?d"
    proof -
      have reg: "registry_ok w"
        using inv by (simp add: nat_inv_def)
      then have fin: "finite {r. live w r = Some False}"
        by (simp add: registry_ok_def)
      have new: "ow_rules (owns w a) \<notin> set (freed w)"
        using reg live by (simp add: registry_ok_def)
      have "finite {r. live ?d r = Some False}" "liveCount ?d = of_nat (card {r. live ?d r = Some False})"
        unfolding d(3,4) using reg claim_live [of "live w", OF fin live] fin by (simp_all add: registry_ok_def del: fun_upd_apply)
      moreover have "set (freed ?d) = {r. live ?d r = Some True}" "distinct (freed ?d)"
        using reg new by (auto simp: registry_ok_def d)
      moreover have "\<forall>r. live ?d r = Some False \<longrightarrow> managed ?d r \<noteq> None"
        using reg by (auto simp: registry_ok_def d)
      ultimately show ?thesis
        using reg unfolding registry_ok_def d(6) d(2) by blast
    qed
    moreover have "grows w ?d"
      by (auto simp: grows_def d)
    ultimately show ?thesis
      using eq d(8,9) by (auto simp: nat_inv_def)
  qed
qed

lemma managed_owner:
  assumes "nat_inv w P Q" "managed w r = Some a"
  shows "a < n_own w" "\<not> destroyClaimed (owns w a)" "ow_rules (owns w a) = r" "\<not> collected w a" "live w r = Some False"
  using assms managed_okD [OF _ assms(2)] by (auto simp: nat_inv_def owners_ok_def)

lemma new_live:
  assumes "finite {r. L r = Some False}" "L r = None"
  shows "{x. (L(r \<mapsto> False)) x = Some False} = insert r {x. L x = Some False}"
    and "(of_nat (card {x. (L(r \<mapsto> False)) x = Some False}) :: u64) = of_nat (card {x. L x = Some False}) + 1"
proof -
  show eq: "{x. (L(r \<mapsto> False)) x = Some False} = insert r {x. L x = Some False}"
    by auto
  show "(of_nat (card {x. (L(r \<mapsto> False)) x = Some False}) :: u64) = of_nat (card {x. L x = Some False}) + 1"
    using assms unfolding eq by simp
qed

text \<open>Adopting an object that was not destroyed gives one more reference to its only owner.\<close>

lemma adopt_ok:
  assumes inv: "nat_inv w P Q" and r: "live w r \<noteq> Some True"
  shows "\<exists>a w'. adopt (Some r) w = Inr (Some a, w') \<and> nat_inv w' (add_mset a P) Q \<and> grows w w' \<and>
    ow_rules (owns w' a) = r \<and> managed w' r = Some a \<and> (\<forall>k. k \<noteq> r \<longrightarrow> live w' k = live w k) \<and>
    pins w' = pins w \<and> n_pin w' = n_pin w"
proof (cases "managed w r")
  case (Some a)
  note a = managed_owner [OF inv Some]
  obtain w' where w': "ow_retain (Some a) w = Inr w'" "nat_inv w' (add_mset a P) Q" "grows w w'" "managed w' = managed w" "live w' = live w"
    using ow_retain_ok [OF inv a(1,2)] by blast
  then have "pins w' = pins w" "n_pin w' = n_pin w"
    by (auto simp: ow_retain_def split: if_splits)
  then show ?thesis
    using Some w' a r by (auto simp: adopt_def grows_def)
next
  case None
  let ?o = "\<lparr>ow_rules = r, ow_refs = 1, ow_destroyed = False, destroyClaimed = False, lateTrim = False\<rparr>"
  define a where "a = n_own w"
  define w1 where "w1 = (set_owner a ?o w)\<lparr>n_own := a + 1\<rparr>"
  define w2 where "w2 = (if live w r = None then w1\<lparr>live := (live w)(r \<mapsto> False), liveCount := liveCount w + 1\<rparr> else w1)"
  define w' where "w' = w2\<lparr>managed := (managed w)(r \<mapsto> a)\<rparr>"
  have eq: "adopt (Some r) w = Inr (Some a, w')"
    using None r by (simp add: adopt_def a_def w1_def w2_def w'_def Let_def)
  have fields: "owns w' = (owns w)(a := ?o)" "n_own w' = Suc a" "managed w' = (managed w)(r \<mapsto> a)" "collected w' = collected w"
    "freed w' = freed w" "pins w' = pins w" "n_pin w' = n_pin w" "live w' = (live w)(r \<mapsto> False)"
    "liveCount w' = (if live w r = None then liveCount w + 1 else liveCount w)"
    using r by (auto simp: w'_def w2_def w1_def fun_eq_iff)
  have holds: "pin_holds w' = pin_holds w"
    by (simp add: pin_holds_def fields fun_eq_iff)
  have pins: "pins_ok w Q"
    using inv by (simp add: nat_inv_def)
  then have "pin_holds w a = {}" "count P a = 0"
    using inv by (auto simp: pin_holds_def pins_ok_def a_def nat_inv_def refs_ok_def count_eq_zero_iff)
  then have "refs_ok w' (add_mset a P)"
    using inv by (auto simp: nat_inv_def refs_ok_def holds fields less_Suc_eq a_def)
  moreover have "pins_ok w' Q"
  proof -
    have "set (pin_owners (pins w p)) \<subseteq> {..<Suc a}" if "p < n_pin w" for p
      using pins that by (fastforce simp: pins_ok_def a_def)
    then show ?thesis
      using pins by (simp add: pins_ok_def fields)
  qed
  moreover have other: "ow_rules (owns w b) \<noteq> r \<or> destroyClaimed (owns w b) \<and> live w r = Some True" if "b < a" for b
    using inv that None by (auto simp: nat_inv_def owners_ok_def a_def split: if_splits)
  then have "owners_ok w'"
    using inv r by (auto simp: nat_inv_def owners_ok_def registry_ok_def fields a_def less_Suc_eq)
  moreover have "managed_ok w'"
  proof (rule managed_okI)
    fix k b
    assume k: "managed w' k = Some b"
    show "b < n_own w' \<and> ow_rules (owns w' b) = k \<and> \<not> destroyClaimed (owns w' b) \<and> live w' k = Some False"
    proof (cases "k = r")
      case True
      then show ?thesis
        using k by (simp add: fields)
    next
      case False
      then have "managed w k = Some b"
        using k by (simp add: fields)
      from managed_owner [OF inv this] False show ?thesis
        by (simp add: fields a_def)
    qed
  qed
  moreover have "registry_ok w'"
  proof -
    have reg: "registry_ok w"
      using inv by (simp add: nat_inv_def)
    then have fin: "finite {k. live w k = Some False}"
      by (simp add: registry_ok_def)
    have "finite {k. live w' k = Some False} \<and> liveCount w' = of_nat (card {k. live w' k = Some False})"
    proof (cases "live w r")
      case None
      then show ?thesis
        using reg new_live [of "live w", OF fin None] fin by (simp add: fields registry_ok_def del: fun_upd_apply)
    next
      case (Some b)
      then have "live w' = live w"
        using r by (auto simp: fields fun_eq_iff)
      then show ?thesis
        using Some reg by (simp add: fields(9) registry_ok_def)
    qed
    moreover have "{k. live w' k = Some True} = {k. live w k = Some True}" "\<forall>k. live w' k = Some False \<longrightarrow> managed w' k \<noteq> None"
      using r reg by (auto simp: fields registry_ok_def)
    ultimately show ?thesis
      using reg by (auto simp: registry_ok_def fields(2,4,5) a_def)
  qed
  moreover have "grows w w'"
    by (auto simp: grows_def fields a_def)
  ultimately show ?thesis
    using eq fields by (auto simp: nat_inv_def)
qed

lemma retainManaged_ok:
  assumes inv: "nat_inv w P Q" and r: "managed w r = Some a"
  shows "\<exists>w'. retainManaged (Some r) w = Inr (Some a, w') \<and> nat_inv w' (add_mset a P) Q \<and> grows w w' \<and>
    managed w' = managed w \<and> live w' = live w"
proof -
  note a = managed_owner [OF inv r]
  obtain w' where "ow_retain (Some a) w = Inr w'" "nat_inv w' (add_mset a P) Q" "grows w w'" "managed w' = managed w" "live w' = live w"
    using ow_retain_ok [OF inv a(1,2)] by blast
  then show ?thesis
    using r a(4,5) by (auto simp: retainManaged_def)
qed

section \<open>Pins\<close>

lemma release_all_ok:
  assumes "nat_inv w (mset as + P) Q"
  shows "\<exists>w'. release_all as w = Inr w' \<and> nat_inv w' P Q \<and> grows w w' \<and> pins w' = pins w \<and> n_pin w' = n_pin w"
  using assms
proof (induction as arbitrary: w)
  case Nil
  then show ?case
    by simp
next
  case (Cons a as)
  obtain w1 where w1: "ow_release (Some a) w = Inr w1" "nat_inv w1 (mset as + P) Q" "grows w w1" "pins w1 = pins w" "n_pin w1 = n_pin w"
    using ow_release_ok [of w a "mset as + P"] Cons.prems by auto
  then show ?case
    using Cons.IH [OF w1(2)] grows_trans [OF w1(3)] by auto
qed

lemma pin_retain_ok:
  assumes inv: "nat_inv w P Q" and p: "p \<in># Q"
  shows "\<exists>w'. pin_retain (Some p) w = Inr w' \<and> nat_inv w' P (add_mset p Q) \<and> grows w w'"
proof -
  let ?w = "set_pin p ((pins w p)\<lparr>pin_refs := pin_refs (pins w p) + 1\<rparr>) w"
  have refs: "p < n_pin w" "pin_refs (pins w p) = count Q p" "0 < count Q p"
    using inv p by (auto simp: nat_inv_def pins_ok_def)
  then have "pin_retain (Some p) w = Inr ?w"
    by (simp add: pin_retain_def)
  moreover have "pin_holds ?w = pin_holds w"
    using refs by (auto simp: pin_holds_def fun_eq_iff)
  then have "refs_ok ?w P"
    using inv by (simp add: nat_inv_def refs_ok_def)
  moreover have "pins_ok ?w (add_mset p Q)"
    using inv refs by (auto simp: nat_inv_def pins_ok_def)
  moreover have "grows w ?w"
    by (auto simp: grows_def)
  ultimately show ?thesis
    using inv by (auto simp: nat_inv_def)
qed

lemma pin_release_ok:
  assumes inv: "nat_inv w P (add_mset p Q)"
  shows "\<exists>w'. pin_release (Some p) w = Inr w' \<and> nat_inv w' P Q \<and> grows w w'"
proof -
  let ?w = "set_pin p ((pins w p)\<lparr>pin_refs := pin_refs (pins w p) - Suc 0\<rparr>) w"
  have p: "p < n_pin w" "pin_refs (pins w p) = Suc (count Q p)" "distinct (pin_owners (pins w p))"
      "set (pin_owners (pins w p)) \<subseteq> {..<n_own w}"
    using inv by (auto simp: nat_inv_def pins_ok_def)
  have pins: "pins_ok ?w Q" and "grows w ?w"
    using inv p by (auto simp: nat_inv_def pins_ok_def grows_def)
  show ?thesis
  proof (cases "count Q p = 0")
    case False
    then have "pin_release (Some p) w = Inr ?w"
      using p by (simp add: pin_release_def Let_def count_eq_zero_iff)
    moreover have "pin_holds ?w = pin_holds w"
      using p(2) False by (auto simp: pin_holds_def fun_eq_iff)
    then have "refs_ok ?w P"
      using inv by (simp add: nat_inv_def refs_ok_def)
    ultimately show ?thesis
      using inv pins \<open>grows w ?w\<close> by (auto simp: nat_inv_def)
  next
    case True
    then have eq: "pin_release (Some p) w = release_all (pin_owners (pins w p)) ?w"
      using p by (simp add: pin_release_def Let_def)
    let ?os = "pin_owners (pins w p)"
    have holds: "card (pin_holds w a) = card (pin_holds ?w a) + count (mset ?os) a" for a
    proof (cases "a \<in> set ?os")
      case in_os: True
      then have "pin_holds w a = insert p (pin_holds ?w a)" "p \<notin> pin_holds ?w a"
        using p True by (auto simp: pin_holds_def)
      then show ?thesis
        using in_os p(3) by (simp add: distinct_count_atmost_1 count_mset_set)
    next
      case False
      then have "pin_holds w a = pin_holds ?w a"
        using p True by (auto simp: pin_holds_def)
      then show ?thesis
        using False by (simp add: count_mset_0_iff)
    qed
    have "refs_ok ?w (mset ?os + P)"
      using inv p(4) holds by (auto simp: nat_inv_def refs_ok_def)
    then have "nat_inv ?w (mset ?os + P) Q"
      using inv pins by (simp add: nat_inv_def)
    from release_all_ok [OF this] show ?thesis
      using eq grows_trans [OF \<open>grows w ?w\<close>] by auto
  qed
qed

text \<open>What a pin reference protects.\<close>

lemma pinned_not_freed:
  assumes inv: "nat_inv w P Q" and p: "p \<in># Q" and a: "a \<in> set (pin_owners (pins w p))"
  shows "a < n_own w" "\<not> destroyClaimed (owns w a)" "ow_rules (owns w a) \<notin> set (freed w)" "managed w (ow_rules (owns w a)) = Some a"
proof -
  have pn: "p < n_pin w" "0 < pin_refs (pins w p)" "set (pin_owners (pins w p)) \<subseteq> {..<n_own w}"
    using inv p by (auto simp: nat_inv_def pins_ok_def)
  then show own: "a < n_own w"
    using a by blast
  have "p \<in> pin_holds w a"
    using pn a by (simp add: pin_holds_def)
  then have "0 < card (pin_holds w a)"
    using card_gt_0_iff finite_pin_holds by blast
  then show live: "\<not> destroyClaimed (owns w a)"
    using inv own by (auto simp: nat_inv_def refs_ok_def owners_ok_def)
  then show m: "managed w (ow_rules (owns w a)) = Some a"
    using inv own by (simp add: nat_inv_def owners_ok_def)
  show "ow_rules (owns w a) \<notin> set (freed w)"
    using managed_owner(5) [OF inv m] inv by (simp add: nat_inv_def registry_ok_def)
qed

lemma nat_inv_pin_meta:
  assumes "nat_inv w P Q" "pin_refs v = pin_refs (pins w p)" "pin_owners v = pin_owners (pins w p)"
  shows "nat_inv (set_pin p v w) P Q" "grows w (set_pin p v w)"
proof -
  have "pin_holds (set_pin p v w) = pin_holds w"
    using assms(2,3) by (auto simp: pin_holds_def fun_eq_iff)
  moreover have "pins_ok (set_pin p v w) Q"
    using assms by (auto simp: nat_inv_def pins_ok_def)
  ultimately show "nat_inv (set_pin p v w) P Q"
    using assms(1) by (simp add: nat_inv_def refs_ok_def)
  show "grows w (set_pin p v w)"
    using assms(3) by (simp add: grows_def)
qed

text \<open>A new pin takes over references in hand.\<close>

lemma new_pin_ok:
  assumes inv: "nat_inv w (mset as + P) Q" and dist: "distinct as"
  defines "w' \<equiv> (set_pin (n_pin w) \<lparr>pin_refs = 1, pin_owners = as, replaced = []\<rparr> w)\<lparr>n_pin := n_pin w + 1\<rparr>"
  shows "nat_inv w' P (add_mset (n_pin w) Q)" "grows w w'"
proof -
  have holds: "card (pin_holds w' a) = card (pin_holds w a) + count (mset as) a" for a
  proof -
    have "pin_holds w' a = (if a \<in> set as then insert (n_pin w) (pin_holds w a) else pin_holds w a)"
      by (auto simp: pin_holds_def w'_def less_Suc_eq)
    moreover have "n_pin w \<notin> pin_holds w a"
      by (simp add: pin_holds_def)
    ultimately show ?thesis
      using dist by (simp add: distinct_count_atmost_1 count_mset_0_iff)
  qed
  have "set as \<subseteq> {..<n_own w}"
    using inv by (auto simp: nat_inv_def refs_ok_def)
  moreover have "count Q (n_pin w) = 0"
    using inv by (auto simp: nat_inv_def pins_ok_def count_eq_zero_iff)
  ultimately have "pins_ok w' (add_mset (n_pin w) Q)"
    using inv dist by (auto simp: nat_inv_def pins_ok_def w'_def less_Suc_eq)
  moreover have "owns w' = owns w" "n_own w' = n_own w"
    by (simp_all add: w'_def)
  then have "refs_ok w' P"
    using inv holds by (simp add: nat_inv_def refs_ok_def)
  moreover have "owners_ok w'" "managed_ok w'" "registry_ok w'"
    using inv by (simp_all add: nat_inv_def owners_ok_def managed_ok_def registry_ok_def w'_def)
  ultimately show "nat_inv w' P (add_mset (n_pin w) Q)"
    by (simp add: nat_inv_def)
  show "grows w w'"
    by (simp add: grows_def w'_def)
qed

lemma armLateTrim_ok:
  assumes "nat_inv w P Q"
  shows "nat_inv (snd (armLateTrim (Some a) w)) P Q" "grows w (snd (armLateTrim (Some a) w))"
  using assms by (auto simp: armLateTrim_def nat_inv_def refs_ok_def pins_ok_def owners_ok_def registry_ok_def managed_ok_owner grows_def)

lemma armLateTrim_all_ok:
  assumes "nat_inv w P Q"
  shows "nat_inv (fold (\<lambda>a w. snd (armLateTrim (Some a) w)) as w) P Q \<and> grows w (fold (\<lambda>a w. snd (armLateTrim (Some a) w)) as w)"
  using assms
proof (induction as arbitrary: w)
  case (Cons a as)
  then show ?case
    using Cons.IH [OF armLateTrim_ok(1) [OF Cons.prems, of a]] grows_trans [OF armLateTrim_ok(2) [OF Cons.prems, of a]] by simp
qed simp

end
