(* ===== verification/Top_Matches.thy ===== *)
theory Top_Matches
  imports Strix_Prelude "HOL-Library.Multiset"
begin

text \<open>
  The bounded per-rule hit counter, \<^verbatim>\<open>src/internal/mailstrix/topmatch.go\<close>. A Go map is an
  association list with distinct keys; the order in which \<^verbatim>\<open>range\<close> visits it is an argument
  \<open>iter\<close>, any function that permutes the entries. Counts and the epoch are 64-bit words. The eviction
  loop is a partial function; \<^verbatim>\<open>sort.Slice\<close> is a stable sort of the visited order, which
  gives every order an unstable sort can give.
\<close>

type_synonym counts = "(string \<times> u64) list"

definition matchCounterCap :: int where "matchCounterCap = 1024"

record matchCounter =
  counts :: counts
  cmax :: int
  epoch :: u64

definition newMatchCounter :: "int \<Rightarrow> matchCounter" where
  "newMatchCounter mx = \<lparr>counts = [], cmax = mx, epoch = 0\<rparr>"

definition Epoch :: "matchCounter \<Rightarrow> u64" where
  "Epoch c = epoch c"

fun bump :: "string \<Rightarrow> counts \<Rightarrow> counts" where
  "bump r [] = [(r, 1)]"
| "bump r ((k, v) # kvs) = (if k = r then (k, v + 1) # kvs else (k, v) # bump r kvs)"

fun min_entry :: "string \<Rightarrow> u64 \<Rightarrow> counts \<Rightarrow> string" where
  "min_entry minK minV [] = minK"
| "min_entry minK minV ((k, v) # kvs) = (if v < minV then min_entry k v kvs else min_entry minK minV kvs)"

definition evict :: "(counts \<Rightarrow> counts) \<Rightarrow> matchCounter \<Rightarrow> matchCounter" where
  "evict iter c =
     (let minK = min_entry '''' max_u64 (iter (counts c))
      in c\<lparr>counts := filter (\<lambda>kv. fst kv \<noteq> minK) (counts c)\<rparr>)"

partial_function (option) evict_while :: "(counts \<Rightarrow> counts) \<Rightarrow> matchCounter \<Rightarrow> matchCounter option" where
  "evict_while iter c = (if int (length (counts c)) > cmax c then evict_while iter (evict iter c) else Some c)"

declare evict_while.simps [code]

definition add_hits :: "(counts \<Rightarrow> counts) \<Rightarrow> string list \<Rightarrow> u64 option \<Rightarrow> matchCounter \<Rightarrow> matchCounter option" where
  "add_hits iter rules ep c =
     (if rules = [] then Some c
      else if ep \<noteq> None \<and> the ep \<noteq> epoch c then Some c
      else evict_while iter (c\<lparr>counts := fold bump rules (counts c)\<rparr>))"

definition Add :: "(counts \<Rightarrow> counts) \<Rightarrow> string list \<Rightarrow> matchCounter \<Rightarrow> matchCounter option" where
  "Add iter rules c = add_hits iter rules None c"

definition AddAt :: "(counts \<Rightarrow> counts) \<Rightarrow> u64 \<Rightarrow> string list \<Rightarrow> matchCounter \<Rightarrow> matchCounter option" where
  "AddAt iter ep rules c = add_hits iter rules (Some ep) c"

definition TopN :: "(counts \<Rightarrow> counts) \<Rightarrow> nat \<Rightarrow> matchCounter \<Rightarrow> counts" where
  "TopN iter n c = take (min n (length (counts c))) (sort_key (\<lambda>kv. max_u64 - snd kv) (iter (counts c)))"

definition Reset :: "matchCounter \<Rightarrow> matchCounter" where
  "Reset c = c\<lparr>counts := [], epoch := epoch c + 1\<rparr>"

section \<open>Well-formedness\<close>

definition counter_ok :: "matchCounter \<Rightarrow> bool" where
  "counter_ok c \<longleftrightarrow> distinct (map fst (counts c)) \<and> 0 \<le> cmax c"

lemma bump_keys: "set (map fst (bump r kvs)) = insert r (set (map fst kvs))"
  by (induction r kvs rule: bump.induct) auto

lemma bump_distinct: "distinct (map fst kvs) \<Longrightarrow> distinct (map fst (bump r kvs))"
proof (induction r kvs rule: bump.induct)
  case (2 r k v kvs)
  then show ?case
    using bump_keys [of r kvs] by auto
qed simp

lemma fold_bump_distinct: "distinct (map fst kvs) \<Longrightarrow> distinct (map fst (fold bump rules kvs))"
  by (induction rules arbitrary: kvs) (simp_all add: bump_distinct)

lemma min_entry_least:
  "(min_entry k m kvs = k \<and> (\<forall>kv \<in> set kvs. m \<le> snd kv)) \<or>
   (\<exists>v. (min_entry k m kvs, v) \<in> set kvs \<and> v < m \<and> (\<forall>kv \<in> set kvs. v \<le> snd kv))"
proof (induction k m kvs rule: min_entry.induct)
  case (2 minK minV k v kvs)
  show ?case
  proof (cases "v < minV")
    case True
    then show ?thesis
      using "2.IH"(1) by (auto intro: order.trans less_imp_le less_trans)
  next
    case False
    then have "minV \<le> v"
      by simp
    then show ?thesis
      using "2.IH"(2) False by (auto intro: order.trans less_imp_le)
  qed
qed simp

lemma filter_key_length:
  "distinct (map fst kvs) \<Longrightarrow> k \<in> set (map fst kvs) \<Longrightarrow> Suc (length (filter (\<lambda>kv. fst kv \<noteq> k) kvs)) = length kvs"
proof (induction kvs)
  case (Cons kv kvs)
  show ?case
  proof (cases "fst kv = k")
    case True
    then have "filter (\<lambda>kv. fst kv \<noteq> k) kvs = kvs"
      using Cons.prems by (auto simp: filter_id_conv image_iff)
    then show ?thesis
      using True by simp
  next
    case False
    then show ?thesis
      using Cons by auto
  qed
qed simp

lemma evict_shrinks:
  assumes perm: "\<And>kvs. mset (iter kvs) = mset kvs" and c: "counter_ok c" and below: "\<exists>kv \<in> set (counts c). snd kv < max_u64"
  shows "counter_ok (evict iter c)" and "Suc (length (counts (evict iter c))) = length (counts c)"
    and "set (counts (evict iter c)) \<subseteq> set (counts c)"
    and "x \<in> set (counts c) \<Longrightarrow> x \<notin> set (counts (evict iter c)) \<Longrightarrow> y \<in> set (counts c) \<Longrightarrow> snd x \<le> snd y"
proof -
  let ?k = "min_entry '''' max_u64 (iter (counts c))"
  have set: "set (iter (counts c)) = set (counts c)"
    using perm [of "counts c"] by (metis set_mset_mset)
  have dist: "distinct (map fst (counts c))"
    using c by (simp add: counter_ok_def)
  obtain v where v: "(?k, v) \<in> set (counts c)" "\<forall>kv \<in> set (counts c). v \<le> snd kv"
    using min_entry_least [of "''''" max_u64 "iter (counts c)"] below by (auto simp: set not_less [symmetric])
  then have k: "?k \<in> set (map fst (counts c))"
    by force
  show "Suc (length (counts (evict iter c))) = length (counts c)"
    using filter_key_length [OF dist k] by (simp add: evict_def)
  show "counter_ok (evict iter c)"
    using c by (auto simp: evict_def counter_ok_def distinct_map inj_on_def)
  show "set (counts (evict iter c)) \<subseteq> set (counts c)"
    by (auto simp: evict_def)
  show "snd x \<le> snd y" if x: "x \<in> set (counts c)" "x \<notin> set (counts (evict iter c))" and y: "y \<in> set (counts c)"
  proof -
    have "fst x = ?k"
      using x by (simp add: evict_def)
    then have "x = (?k, v)"
      using x(1) v(1) dist by (metis eq_key_imp_eq_value prod.collapse)
    then show ?thesis
      using v(2) y by simp
  qed
qed

lemma evict_keeps [simp]: "cmax (evict iter c) = cmax c" "epoch (evict iter c) = epoch c"
  by (simp_all add: evict_def)

lemma evict_while_ok:
  assumes perm: "\<And>kvs. mset (iter kvs) = mset kvs" and "counter_ok c" and "\<forall>kv \<in> set (counts c). snd kv < max_u64"
  shows "\<exists>c'. evict_while iter c = Some c' \<and> counter_ok c' \<and> int (length (counts c')) \<le> cmax c \<and> cmax c' = cmax c \<and> epoch c' = epoch c \<and>
    set (counts c') \<subseteq> set (counts c) \<and> (\<forall>x \<in> set (counts c) - set (counts c'). \<forall>y \<in> set (counts c'). snd x \<le> snd y)"
  using assms(2,3)
proof (induction "length (counts c)" arbitrary: c)
  case 0
  then show ?case
    by (subst evict_while.simps) (simp add: counter_ok_def)
next
  case (Suc n)
  show ?case
  proof (cases "int (length (counts c)) > cmax c")
    case False
    then show ?thesis
      using Suc.prems by (subst evict_while.simps) simp
  next
    case True
    obtain kv where "kv \<in> set (counts c)"
      using Suc.hyps(2) by (cases "counts c") auto
    then have below: "\<exists>kv \<in> set (counts c). snd kv < max_u64"
      using Suc.prems(2) by blast
    note e = evict_shrinks [OF perm Suc.prems(1) below]
    have "n = length (counts (evict iter c))" "\<forall>kv \<in> set (counts (evict iter c)). snd kv < max_u64"
      using e(2,3) Suc.hyps(2) Suc.prems(2) by auto
    from Suc.hyps(1) [OF this(1) e(1) this(2)] obtain c' where
      c': "evict_while iter (evict iter c) = Some c'" "counter_ok c'" "int (length (counts c')) \<le> cmax c" "cmax c' = cmax c"
        "epoch c' = epoch c" "set (counts c') \<subseteq> set (counts (evict iter c))"
        "\<forall>x \<in> set (counts (evict iter c)) - set (counts c'). \<forall>y \<in> set (counts c'). snd x \<le> snd y"
      by auto
    have "snd x \<le> snd y" if "x \<in> set (counts c) - set (counts c')" "y \<in> set (counts c')" for x y
      using that c'(6,7) e(3) e(4) [of x y] by blast
    then show ?thesis
      using c' True e(3) by (subst evict_while.simps) auto
  qed
qed

section \<open>Hits\<close>

definition hits_of :: "string \<Rightarrow> counts \<Rightarrow> u64" where
  "hits_of r kvs = (case map_of kvs r of None \<Rightarrow> 0 | Some v \<Rightarrow> v)"

lemma hits_bump: "hits_of k (bump r kvs) = hits_of k kvs + (if k = r then 1 else 0)"
  by (induction r kvs rule: bump.induct) (auto simp: hits_of_def)

lemma hits_fold: "hits_of k (fold bump rules kvs) = hits_of k kvs + of_nat (count_list rules k)"
  by (induction rules arbitrary: kvs) (auto simp: hits_bump)

lemma hits_member: "distinct (map fst kvs) \<Longrightarrow> (k, v) \<in> set kvs \<Longrightarrow> hits_of k kvs = v"
  by (simp add: hits_of_def)

text \<open>Counts below \<open>2\<^sup>6\<^sup>4 - 1\<close> keep the eviction loop from spinning on an empty name.\<close>

definition room_for :: "nat \<Rightarrow> counts \<Rightarrow> bool" where
  "room_for n kvs \<longleftrightarrow> n < 2 ^ 64 - 1 \<and> (\<forall>kv \<in> set kvs. unat (snd kv) + n < 2 ^ 64 - 1)"

lemma count_list_le: "count_list xs x \<le> length xs"
  by (induction xs) auto

lemma fold_bump_below:
  assumes dist: "distinct (map fst kvs)" and room: "room_for (length rules) kvs"
  shows "\<forall>kv \<in> set (fold bump rules kvs). snd kv < max_u64"
proof
  fix kv
  assume kv: "kv \<in> set (fold bump rules kvs)"
  obtain k v where kv_eq: "kv = (k, v)"
    by (cases kv)
  have v: "v = hits_of k kvs + of_nat (count_list rules k)"
    using hits_member [OF fold_bump_distinct [OF dist], of k v rules] kv by (simp add: kv_eq hits_fold)
  have "unat (hits_of k kvs) + length rules < 2 ^ 64 - 1"
    using room by (auto simp: room_for_def hits_of_def split: option.splits dest!: map_of_SomeD)
  moreover have "unat v \<le> unat (hits_of k kvs) + count_list rules k"
    unfolding v by (simp add: unat_word_ariths unat_of_nat)
  ultimately have "unat v < 2 ^ 64 - 1"
    using count_list_le [of rules k] by linarith
  then show "snd kv < max_u64"
    by (simp add: kv_eq word_less_nat_alt)
qed

section \<open>Properties\<close>

text \<open>(C28) Recording the hits of a scan always ends with at most the configured number of names,
  drops only names whose count is no larger than any count kept, and keeps an exact count
  for every name that stays; a scan that pinned an earlier epoch changes nothing, so names of a replaced rule
  generation never reach the new counters.\<close>

theorem hits_recorded_within_cap:
  assumes perm: "\<And>kvs. mset (iter kvs) = mset kvs" and ok: "counter_ok c"
    and room: "room_for (length rules) (counts c)" and small: "int (length (counts c)) \<le> cmax c"
  shows "\<exists>c'. AddAt iter ep rules c = Some c' \<and> counter_ok c' \<and> int (length (counts c')) \<le> cmax c \<and>
    (ep \<noteq> epoch c \<longrightarrow> c' = c) \<and>
    (ep = epoch c \<longrightarrow>
       (\<forall>(k, v) \<in> set (counts c'). v = hits_of k (counts c) + of_nat (count_list rules k)) \<and>
       (\<forall>x \<in> set (fold bump rules (counts c)) - set (counts c'). \<forall>y \<in> set (counts c'). snd x \<le> snd y))"
proof (cases "rules = [] \<or> ep \<noteq> epoch c")
  case True
  then have "AddAt iter ep rules c = Some c"
    by (auto simp: AddAt_def add_hits_def)
  then show ?thesis
    using True ok small hits_member by (auto simp: counter_ok_def)
next
  case False
  let ?d = "c\<lparr>counts := fold bump rules (counts c)\<rparr>"
  have dist: "distinct (map fst (counts c))"
    using ok by (simp add: counter_ok_def)
  have d: "counter_ok ?d" "\<forall>kv \<in> set (counts ?d). snd kv < max_u64"
    using ok fold_bump_distinct [OF dist] fold_bump_below [OF dist room] by (simp_all add: counter_ok_def)
  obtain c' where c': "evict_while iter ?d = Some c'" "counter_ok c'" "int (length (counts c')) \<le> cmax c"
    "set (counts c') \<subseteq> set (fold bump rules (counts c))"
    "\<forall>x \<in> set (fold bump rules (counts c)) - set (counts c'). \<forall>y \<in> set (counts c'). snd x \<le> snd y"
    using evict_while_ok [OF perm d] by auto
  have "v = hits_of k (counts c) + of_nat (count_list rules k)" if "(k, v) \<in> set (counts c')" for k v
    using hits_member [OF fold_bump_distinct [OF dist], of k v rules] that c'(4) by (auto simp: hits_fold)
  then show ?thesis
    using c' False by (auto simp: AddAt_def add_hits_def)
qed

theorem hits_recorded_within_cap_witness:
  "\<exists>c'. AddAt rev 0 [''a'', ''b'', ''a''] (newMatchCounter 1) = Some c' \<and> counter_ok c' \<and> int (length (counts c')) \<le> 1 \<and>
    (\<forall>(k, v) \<in> set (counts c'). v = hits_of k [] + of_nat (count_list [''a'', ''b'', ''a''] k))"
  using hits_recorded_within_cap [of rev "newMatchCounter 1" "[''a'', ''b'', ''a'']" 0]
  by (simp add: newMatchCounter_def counter_ok_def room_for_def) blast

text \<open>(C29) The list of top rules has distinct names, is sorted by descending count, has as many entries
  as asked for or as there are, and no rule left out has a larger count than one listed.\<close>

theorem TopN_is_top:
  assumes perm: "\<And>kvs. mset (iter kvs) = mset kvs" and ok: "counter_ok c"
  shows "let top = TopN iter n c in
    distinct (map fst top) \<and> sorted_wrt (\<lambda>x y. snd y \<le> snd x) top \<and> length top = min n (length (counts c)) \<and>
    set top \<subseteq> set (counts c) \<and> (\<forall>x \<in> set (counts c) - set top. \<forall>y \<in> set top. snd x \<le> snd y)"
proof -
  let ?s = "sort_key (\<lambda>kv. max_u64 - snd kv) (iter (counts c))"
  let ?m = "min n (length (counts c))"
  have mset: "mset ?s = mset (counts c)"
    using perm by simp
  then have set: "set ?s = set (counts c)" and len: "length ?s = length (counts c)"
    by (metis set_mset_mset, metis size_mset)
  have flip: "max_u64 - snd x \<le> max_u64 - snd y \<longleftrightarrow> snd y \<le> snd x" for x y :: "string \<times> u64"
  proof -
    have minus: "unat (max_u64 - v) = 2 ^ 64 - 1 - unat v" for v :: u64
      by (subst unat_minus_u64) (simp_all add: word_order.extremum)
    show ?thesis
      using u64_bound [of "snd x"] u64_bound [of "snd y"] unfolding word_le_nat_alt minus by linarith
  qed
  have sorted: "sorted_wrt (\<lambda>x y. snd y \<le> snd x) ?s"
    using sorted_sort_key [of "\<lambda>kv. max_u64 - snd kv" "iter (counts c)"] by (simp add: sorted_map flip)
  have "distinct (map fst ?s)"
    using ok mset_eq_imp_distinct_iff [of "map fst ?s" "map fst (counts c)"] mset by (simp add: counter_ok_def)
  moreover have "sorted_wrt (\<lambda>x y. snd y \<le> snd x) (take ?m ?s @ drop ?m ?s)"
    using sorted by simp
  then have "sorted_wrt (\<lambda>x y. snd y \<le> snd x) (take ?m ?s)" "\<forall>y \<in> set (take ?m ?s). \<forall>x \<in> set (drop ?m ?s). snd x \<le> snd y"
    by (simp_all only: sorted_wrt_append) blast
  moreover have "set (counts c) = set (take ?m ?s) \<union> set (drop ?m ?s)"
    using set by (metis append_take_drop_id set_append)
  ultimately show ?thesis
    using len by (auto simp: TopN_def Let_def take_map [symmetric])
qed

theorem TopN_is_top_witness:
  "let top = TopN rev 1 \<lparr>counts = [(''a'', 2), (''b'', 7)], cmax = 4, epoch = 0\<rparr> in
    distinct (map fst top) \<and> sorted_wrt (\<lambda>x y. snd y \<le> snd x) top"
  using TopN_is_top [of rev "\<lparr>counts = [(''a'', 2), (''b'', 7)], cmax = 4, epoch = 0\<rparr>" 1]
  by (simp add: Let_def counter_ok_def)

end
