(* ===== verification/Scanner_Generations.thy ===== *)
theory Scanner_Generations
  imports Native_Rules Top_Matches
begin

text \<open>
  Publication, leasing and pooling of rule generations: \<^verbatim>\<open>acquireScanLease\<close> and
  \<^verbatim>\<open>scanLease.release\<close> of \<^verbatim>\<open>src/internal/mailstrix/generation.go\<close>, and of
  \<^verbatim>\<open>src/internal/mailstrix/scanner.go\<close> the scanner pools (\<^verbatim>\<open>scannerGen\<close>, \<^verbatim>\<open>getScanner\<close>,
  \<^verbatim>\<open>putScanner\<close>), \<^verbatim>\<open>publishReload\<close>, the reload around it and \<^verbatim>\<open>Close\<close>. A native scanner and
  a pool are numbers; \<open>dead_sc\<close> records the native scanners destroyed. What loading and compiling
  rules gives is an argument. Each function is one step, so a compare-and-swap succeeds at its
  first try; between steps any number of leases, scans and reloads are in flight.
\<close>

section \<open>State\<close>

record scannerGen =
  sg_rules :: nat
  free :: "nat list"
  dependencies :: "(nat \<times> nat option) list"
  retired :: bool

record scanner =
  nat_w :: natives
  s_rules :: "nat option"
  s_bigRules :: "nat option"
  s_markerRules :: "nat option"
  s_scanners :: "nat option"
  s_bigScanners :: "nat option"
  gens :: "nat \<Rightarrow> scannerGen"
  n_gen :: nat
  n_sc :: nat
  dead_sc :: "nat list"
  generation :: "nat option"
  s_closed :: bool
  s_fp :: "string option"
  s_contentFP :: "string option"
  s_denylistFP :: "string option"
  reloadPrevFP :: "string option"
  s_denylist :: "string list option"
  s_bigContent :: string
  s_markerContent :: string
  s_count :: int
  loadedManifest :: "nat option"
  rulesModUnix :: int
  topMatches :: matchCounter
  reloadAttempts :: u64
  reloadOK :: u64
  reloadFail :: u64

definition maxPooledScanners :: nat where "maxPooledScanners = 6"

definition set_gen :: "nat \<Rightarrow> scannerGen \<Rightarrow> scanner \<Rightarrow> scanner" where
  "set_gen g v s = s\<lparr>gens := (gens s)(g := v)\<rparr>"

text \<open>The two pool slots, with the live rules each of them is for.\<close>

datatype slot = MainSlot | BigSlot

fun slot_gen :: "slot \<Rightarrow> scanner \<Rightarrow> nat option" where
  "slot_gen MainSlot s = s_scanners s"
| "slot_gen BigSlot s = s_bigScanners s"

fun set_slot :: "slot \<Rightarrow> nat option \<Rightarrow> scanner \<Rightarrow> scanner" where
  "set_slot MainSlot g s = s\<lparr>s_scanners := g\<rparr>"
| "set_slot BigSlot g s = s\<lparr>s_bigScanners := g\<rparr>"

fun slot_live :: "slot \<Rightarrow> scanner \<Rightarrow> nat option" where
  "slot_live MainSlot s = s_rules s"
| "slot_live BigSlot s = s_bigRules s"

definition lift_nat :: "scanner \<Rightarrow> string + natives \<Rightarrow> string + scanner" where
  "lift_nat s r = map_sum id (\<lambda>w. s\<lparr>nat_w := w\<rparr>) r"

section \<open>Scanner pools\<close>

definition sg_get :: "nat \<Rightarrow> scanner \<Rightarrow> nat option \<times> scanner" where
  "sg_get g s =
     (if free (gens s g) \<noteq> []
      then (Some (last (free (gens s g))), set_gen g ((gens s g)\<lparr>free := butlast (free (gens s g))\<rparr>) s)
      else (None, s))"

definition sg_put :: "nat \<Rightarrow> nat \<Rightarrow> scanner \<Rightarrow> bool \<times> scanner" where
  "sg_put g sc s =
     (if retired (gens s g) \<or> length (free (gens s g)) \<ge> maxPooledScanners then (False, s)
      else (True, set_gen g ((gens s g)\<lparr>free := free (gens s g) @ [sc]\<rparr>) s))"

definition dep_destroy :: "nat \<Rightarrow> nat option \<Rightarrow> scanner \<Rightarrow> string + scanner" where
  "dep_destroy sc own s =
     (let s1 = s\<lparr>dead_sc := dead_sc s @ [sc]\<rparr> in lift_nat s1 (ow_release own (nat_w s1)))"

definition destroyScanner :: "nat \<Rightarrow> nat \<Rightarrow> scanner \<Rightarrow> string + scanner" where
  "destroyScanner g sc s =
     (let dependency = map_of (dependencies (gens s g)) sc;
          s1 = set_gen g ((gens s g)\<lparr>dependencies := filter (\<lambda>d. fst d \<noteq> sc) (dependencies (gens s g))\<rparr>) s
      in case dependency of
           Some own \<Rightarrow> dep_destroy sc own s1
         | None \<Rightarrow> Inr (s1\<lparr>dead_sc := dead_sc s1 @ [sc]\<rparr>))"

fun destroy_each :: "nat \<Rightarrow> nat list \<Rightarrow> scanner \<Rightarrow> string + scanner" where
  "destroy_each g [] s = Inr s"
| "destroy_each g (sc # scs) s = (case destroyScanner g sc s of Inl e \<Rightarrow> Inl e | Inr s1 \<Rightarrow> destroy_each g scs s1)"

definition retire :: "nat \<Rightarrow> scanner \<Rightarrow> string + scanner" where
  "retire g s =
     (let out = free (gens s g); s1 = set_gen g ((gens s g)\<lparr>free := [], retired := True\<rparr>) s
      in destroy_each g out s1)"

definition retireStale :: "slot \<Rightarrow> scanner \<Rightarrow> string + scanner" where
  "retireStale sl s =
     (case slot_gen sl s of
        None \<Rightarrow> Inr s
      | Some g \<Rightarrow> if Some (sg_rules (gens s g)) \<noteq> slot_live sl s then retire g (set_slot sl None s) else Inr s)"

definition new_gen :: "nat \<Rightarrow> bool \<Rightarrow> scanner \<Rightarrow> nat \<times> scanner" where
  "new_gen r ret s =
     (n_gen s, (set_gen (n_gen s) \<lparr>sg_rules = r, free = [], dependencies = [], retired = ret\<rparr> s)\<lparr>n_gen := n_gen s + 1\<rparr>)"

definition installGen :: "slot option \<Rightarrow> nat \<Rightarrow> scanner \<Rightarrow> string + nat \<times> scanner" where
  "installGen slt r s =
     (case slt of
        None \<Rightarrow> Inr (new_gen r True s)
      | Some sl \<Rightarrow>
          if slot_live sl s \<noteq> Some r then Inr (new_gen r True s)
          else (case slot_gen sl s of
                  Some g \<Rightarrow>
                    if sg_rules (gens s g) = r then Inr (g, s)
                    else (let (f, s1) = new_gen r False s
                          in map_sum id (\<lambda>s2. (f, s2)) (retire g (set_slot sl (Some f) s1)))
                | None \<Rightarrow> (let (f, s1) = new_gen r False s in Inr (f, set_slot sl (Some f) s1))))"

definition select_slot :: "nat \<Rightarrow> scanner \<Rightarrow> slot option" where
  "select_slot r s =
     (if s_rules s = Some r then Some MainSlot else if s_bigRules s = Some r then Some BigSlot else None)"

definition sum_bind :: "string + 'a \<Rightarrow> ('a \<Rightarrow> string + 'b) \<Rightarrow> string + 'b" where
  "sum_bind x f = (case x of Inl e \<Rightarrow> Inl e | Inr v \<Rightarrow> f v)"

text \<open>The native constructor may fail; then the extra reference on the rules goes back.\<close>

definition construct :: "bool \<Rightarrow> nat \<Rightarrow> nat \<Rightarrow> scanner \<Rightarrow> string + (nat \<times> nat) option \<times> scanner" where
  "construct alloc_ok r g s =
     (case retainManaged (Some r) (nat_w s) of
        Inl e \<Rightarrow> Inl e
      | Inr (own, w1) \<Rightarrow>
          if \<not> alloc_ok then map_sum id (\<lambda>s2. (None, s2)) (lift_nat s (ow_release own w1))
          else (let sc = n_sc s;
                    s1 = s\<lparr>nat_w := w1, n_sc := sc + 1\<rparr>;
                    s2 = set_gen g ((gens s1 g)\<lparr>dependencies := (sc, own) # dependencies (gens s1 g)\<rparr>) s1
                in Inr (Some (sc, g), s2)))"

definition getScanner :: "bool \<Rightarrow> nat \<Rightarrow> scanner \<Rightarrow> string + (nat \<times> nat) option \<times> scanner" where
  "getScanner alloc_ok r s =
     (let slt = select_slot r s
      in sum_bind (retireStale MainSlot s) (\<lambda>s1.
         sum_bind (retireStale BigSlot s1) (\<lambda>s2.
         sum_bind (installGen slt r s2) (\<lambda>(g, s3).
           case sg_get g s3 of
             (Some sc, s4) \<Rightarrow> Inr (Some (sc, g), s4)
           | (None, s4) \<Rightarrow> construct alloc_ok r g s4))))"

definition putScanner :: "nat \<Rightarrow> nat \<Rightarrow> scanner \<Rightarrow> string + scanner" where
  "putScanner sc g s = (case sg_put g sc s of (ok, s1) \<Rightarrow> if ok then Inr s1 else destroyScanner g sc s1)"

section \<open>Leases\<close>

record scanLease =
  l_closed :: bool
  l_fingerprint :: string
  l_rules :: "nat option"
  l_bigRules :: "nat option"
  l_markerRules :: "nat option"
  l_deny :: "string list option"
  l_topEpoch :: u64
  l_pin :: "nat option"

definition fingerprintLocked :: "string \<Rightarrow> string \<Rightarrow> scanner \<Rightarrow> string" where
  "fingerprintLocked version policyFP s =
     (let str = (\<lambda>x. case x of None \<Rightarrow> '''' | Some v \<Rightarrow> v)
      in version @ '':'' @ str (s_fp s) @ '':'' @ str (s_contentFP s) @ '':'' @ str (s_denylistFP s) @ '':'' @ policyFP)"

definition acquireScanLease :: "string \<Rightarrow> string \<Rightarrow> scanner \<Rightarrow> string + scanLease \<times> scanner" where
  "acquireScanLease version policyFP s =
     (if s_closed s
      then Inr (\<lparr>l_closed = True, l_fingerprint = fingerprintLocked version policyFP s, l_rules = None, l_bigRules = None,
                 l_markerRules = None, l_deny = None, l_topEpoch = 0, l_pin = None\<rparr>, s)
      else map_sum id (\<lambda>w. (\<lparr>l_closed = False, l_fingerprint = fingerprintLocked version policyFP s, l_rules = s_rules s,
                             l_bigRules = s_bigRules s, l_markerRules = s_markerRules s, l_deny = s_denylist s,
                             l_topEpoch = Epoch (topMatches s), l_pin = generation s\<rparr>, s\<lparr>nat_w := w\<rparr>))
             (pin_retain (generation s) (nat_w s)))"

text \<open>The once of the release token: a lease is released by the holder that still has it.\<close>

definition lease_release :: "scanLease \<Rightarrow> scanner \<Rightarrow> string + scanner" where
  "lease_release l s = lift_nat s (pin_release (l_pin l) (nat_w s))"

section \<open>Publication\<close>

record reloadBundle =
  b_rules :: nat
  b_bigRules :: "nat option"
  b_markerRules :: "nat option"
  b_bigContent :: string
  b_markerContent :: string
  b_list :: int
  b_fp :: string
  b_ch :: string
  b_deny :: "string list"
  b_dlFP :: string
  b_manifest :: "nat option"
  b_modUnix :: int

text \<open>The owner list of the new pin: the main rules, then each auxiliary that is not a duplicate.\<close>

definition adopt_more :: "nat \<Rightarrow> nat option \<Rightarrow> nat list \<times> natives \<Rightarrow> string + nat list \<times> natives" where
  "adopt_more mainR r ow =
     (if r = Some mainR \<or> r = None then Inr ow
      else if \<exists>a \<in> set (fst ow). ow_rules (owns (snd ow) a) = the r then Inr ow
      else sum_bind (adopt r (snd ow)) (\<lambda>(own, w). Inr (fst ow @ (case own of None \<Rightarrow> [] | Some a \<Rightarrow> [a]), w)))"

definition publishReload :: "reloadBundle \<Rightarrow> scanner \<Rightarrow> string + nat option \<times> scanner" where
  "publishReload b s =
     sum_bind (adopt (Some (b_rules b)) (nat_w s)) (\<lambda>(own, w1).
     sum_bind (adopt_more (b_rules b) (b_bigRules b) (case own of None \<Rightarrow> [] | Some a \<Rightarrow> [a], w1)) (\<lambda>ow2.
     sum_bind (adopt_more (b_rules b) (b_markerRules b) ow2) (\<lambda>(owners, w3).
       let w4 = (case generation s of
                   None \<Rightarrow> w3
                 | Some p \<Rightarrow> set_pin p ((pins w3 p)\<lparr>replaced := replaced (pins w3 p) @
                                filter (\<lambda>old. old \<notin> set owners) (pin_owners (pins w3 p))\<rparr>) w3);
           pin = n_pin w4;
           w5 = (set_pin pin \<lparr>pin_refs = 1, pin_owners = owners, replaced = []\<rparr> w4)\<lparr>n_pin := pin + 1\<rparr>
       in Inr (generation s,
            s\<lparr>nat_w := w5, generation := Some pin,
              reloadPrevFP := (case s_fp s of None \<Rightarrow> reloadPrevFP s | Some old \<Rightarrow> Some old),
              s_rules := Some (b_rules b), s_bigRules := b_bigRules b, s_markerRules := b_markerRules b,
              s_bigContent := b_bigContent b, s_markerContent := b_markerContent b, s_count := b_list b,
              s_fp := Some (b_fp b), s_contentFP := Some (b_ch b), s_denylist := Some (b_deny b),
              s_denylistFP := Some (b_dlFP b), loadedManifest := b_manifest b, rulesModUnix := b_modUnix b,
              topMatches := Reset (topMatches s)\<rparr>))))"

definition publishDenylist :: "string list \<Rightarrow> string \<Rightarrow> scanner \<Rightarrow> scanner" where
  "publishDenylist deny fp s = s\<lparr>s_denylist := Some deny, s_denylistFP := Some fp\<rparr>"

text \<open>
  The part of a reload under the preparation lock. \<open>load\<close> is what loading gives: nothing when
  the main rules do not load, with the denylist to publish anyway, or the bundle.
  The candidates keep one reference each until the deferred part has run.
\<close>

datatype reload_load = LoadFailed "(string list \<times> string) option" | Loaded reloadBundle

record reload_state =
  rs_retired :: "nat option"
  rs_candidates :: "nat option list"
  rs_reloaded :: bool

definition reload_locked :: "reload_load \<Rightarrow> scanner \<Rightarrow> string + reload_state \<times> scanner" where
  "reload_locked load s =
     (if s_closed s then Inr (\<lparr>rs_retired = None, rs_candidates = [], rs_reloaded = False\<rparr>, s)
      else (let s0 = s\<lparr>reloadAttempts := reloadAttempts s + 1\<rparr>
            in case load of
                 LoadFailed dl \<Rightarrow>
                   (let s1 = s0\<lparr>reloadFail := reloadFail s0 + 1\<rparr>
                    in Inr (\<lparr>rs_retired = None, rs_candidates = [], rs_reloaded = False\<rparr>,
                            case dl of None \<Rightarrow> s1 | Some (deny, fp) \<Rightarrow> publishDenylist deny fp s1))
               | Loaded b \<Rightarrow>
                   sum_bind (adopt (Some (b_rules b)) (nat_w s0)) (\<lambda>(c1, w1).
                   sum_bind (adopt (b_bigRules b) w1) (\<lambda>(c2, w2).
                   sum_bind (adopt (b_markerRules b) w2) (\<lambda>(c3, w3).
                   sum_bind (publishReload b (s0\<lparr>nat_w := w3\<rparr>)) (\<lambda>(old, s1).
                     Inr (\<lparr>rs_retired = old, rs_candidates = [c1, c2, c3], rs_reloaded = True\<rparr>,
                          s1\<lparr>reloadOK := reloadOK s1 + 1\<rparr>)))))))"

fun release_opts :: "nat option list \<Rightarrow> natives \<Rightarrow> string + natives" where
  "release_opts [] w = Inr w"
| "release_opts (c # cs) w = (case ow_release c w of Inl e \<Rightarrow> Inl e | Inr w1 \<Rightarrow> release_opts cs w1)"

text \<open>The deferred part, after both locks are free.\<close>

definition reload_finish :: "reload_state \<Rightarrow> scanner \<Rightarrow> string + scanner" where
  "reload_finish rs s =
     sum_bind (if rs_retired rs = None then Inr s else sum_bind (retireStale MainSlot s) (retireStale BigSlot)) (\<lambda>s1.
     sum_bind (lift_nat s1 (pin_release (rs_retired rs) (nat_w s1))) (\<lambda>s2.
       let s3 = (case rs_retired rs of
                   None \<Rightarrow> s2
                 | Some p \<Rightarrow> if rs_reloaded rs
                             then s2\<lparr>nat_w := fold (\<lambda>a w. snd (armLateTrim (Some a) w)) (replaced (pins (nat_w s2) p)) (nat_w s2)\<rparr>
                             else s2)
       in lift_nat s3 (release_opts (rs_candidates rs) (nat_w s3))))"

definition Close :: "scanner \<Rightarrow> string + scanner" where
  "Close s =
     (let root = generation s;
          s1 = s\<lparr>generation := None, s_closed := True, s_rules := None, s_bigRules := None, s_markerRules := None\<rparr>;
          drop = (\<lambda>sl s. case slot_gen sl s of None \<Rightarrow> Inr s | Some g \<Rightarrow> retire g (set_slot sl None s))
      in sum_bind (drop MainSlot s1) (\<lambda>s2.
         sum_bind (drop BigSlot s2) (\<lambda>s3. lift_nat s3 (pin_release root (nat_w s3)))))"

definition new_scanner :: scanner where
  "new_scanner = \<lparr>nat_w = no_natives, s_rules = None, s_bigRules = None, s_markerRules = None, s_scanners = None,
    s_bigScanners = None, gens = (\<lambda>_. \<lparr>sg_rules = 0, free = [], dependencies = [], retired = True\<rparr>), n_gen = 0, n_sc = 0, dead_sc = [],
    generation = None, s_closed = False, s_fp = None, s_contentFP = None, s_denylistFP = None, reloadPrevFP = None,
    s_denylist = None, s_bigContent = '''', s_markerContent = '''', s_count = 0, loadedManifest = None, rulesModUnix = 0,
    topMatches = newMatchCounter matchCounterCap, reloadAttempts = 0, reloadOK = 0, reloadFail = 0\<rparr>"

section \<open>Invariant\<close>

text \<open>The owner references the native scanners of all pools hold.\<close>

definition deps_of :: "scannerGen \<Rightarrow> nat multiset" where
  "deps_of v = mset (List.map_filter snd (dependencies v))"

definition all_deps :: "scanner \<Rightarrow> nat multiset" where
  "all_deps s = (\<Sum>g < n_gen s. deps_of (gens s g))"

definition root_ref :: "scanner \<Rightarrow> nat multiset" where
  "root_ref s = (case generation s of None \<Rightarrow> {#} | Some p \<Rightarrow> {#p#})"

definition keys :: "scanner \<Rightarrow> nat \<Rightarrow> nat set" where
  "keys s g = fst ` set (dependencies (gens s g))"

text \<open>
  \<open>O'\<close> is the set of scanners checked out, each with its pool. Every scanner of a pool has a
  reference on the pool's rules, and is either idle there or checked out.
\<close>

definition gen_ok :: "scanner \<Rightarrow> (nat \<times> nat) set \<Rightarrow> nat \<Rightarrow> bool" where
  "gen_ok s O' g \<longleftrightarrow>
     distinct (map fst (dependencies (gens s g))) \<and>
     (\<forall>d \<in> set (dependencies (gens s g)). fst d < n_sc s \<and> fst d \<notin> set (dead_sc s) \<and>
        (\<exists>a. snd d = Some a \<and> a < n_own (nat_w s) \<and> ow_rules (owns (nat_w s) a) = sg_rules (gens s g))) \<and>
     distinct (free (gens s g)) \<and>
     keys s g = set (free (gens s g)) \<union> {sc. (sc, g) \<in> O'} \<and> (\<forall>sc \<in> set (free (gens s g)). (sc, g) \<notin> O') \<and>
     (retired (gens s g) \<longrightarrow> free (gens s g) = [])"

definition slots_ok :: "scanner \<Rightarrow> bool" where
  "slots_ok s \<longleftrightarrow>
     (\<forall>sl g. slot_gen sl s = Some g \<longrightarrow> g < n_gen s \<and> \<not> retired (gens s g)) \<and>
     (\<forall>g < n_gen s. \<not> retired (gens s g) \<longrightarrow> (\<exists>sl. slot_gen sl s = Some g)) \<and>
     (\<forall>g. slot_gen MainSlot s = Some g \<longrightarrow> slot_gen BigSlot s \<noteq> Some g)"

definition pools_ok :: "scanner \<Rightarrow> (nat \<times> nat) set \<Rightarrow> bool" where
  "pools_ok s O' \<longleftrightarrow>
     (\<forall>g < n_gen s. gen_ok s O' g) \<and> (\<forall>x \<in> O'. snd x < n_gen s) \<and>
     (\<forall>x g h. g < n_gen s \<longrightarrow> h < n_gen s \<longrightarrow> x \<in> keys s g \<longrightarrow> x \<in> keys s h \<longrightarrow> g = h) \<and>
     distinct (dead_sc s) \<and> (\<forall>sc \<in> set (dead_sc s). sc < n_sc s)"

definition covered :: "natives \<Rightarrow> nat \<Rightarrow> nat option \<Rightarrow> bool" where
  "covered w p r \<longleftrightarrow> (\<forall>x. r = Some x \<longrightarrow> p < n_pin w \<and> (\<exists>a \<in> set (pin_owners (pins w p)). a < n_own w \<and> ow_rules (owns w a) = x))"

definition root_ok :: "scanner \<Rightarrow> bool" where
  "root_ok s \<longleftrightarrow>
     (generation s = None \<longrightarrow> s_rules s = None \<and> s_bigRules s = None \<and> s_markerRules s = None) \<and>
     (\<forall>p. generation s = Some p \<longrightarrow>
        covered (nat_w s) p (s_rules s) \<and> covered (nat_w s) p (s_bigRules s) \<and> covered (nat_w s) p (s_markerRules s)) \<and>
     (s_closed s \<longrightarrow> generation s = None)"

definition scan_inv :: "scanner \<Rightarrow> nat multiset \<Rightarrow> nat multiset \<Rightarrow> (nat \<times> nat) set \<Rightarrow> bool" where
  "scan_inv s C L O' \<longleftrightarrow>
     nat_inv (nat_w s) (all_deps s + C) (root_ref s + L) \<and> slots_ok s \<and> pools_ok s O' \<and> root_ok s"

lemma scan_inv_start: "scan_inv new_scanner {#} {#} {}"
proof -
  have "slot_gen sl new_scanner = None" for sl
    by (cases sl) (simp_all add: new_scanner_def)
  then show ?thesis
    using nat_inv_start unfolding scan_inv_def slots_ok_def pools_ok_def root_ok_def
    by (simp add: all_deps_def root_ref_def new_scanner_def)
qed

lemma set_gen_simps [simp]:
  "gens (set_gen g v s) = (gens s)(g := v)" "n_gen (set_gen g v s) = n_gen s" "nat_w (set_gen g v s) = nat_w s"
  "n_sc (set_gen g v s) = n_sc s" "dead_sc (set_gen g v s) = dead_sc s"
  "generation (set_gen g v s) = generation s" "root_ref (set_gen g v s) = root_ref s"
  "root_ok (set_gen g v s) = root_ok s" "s_rules (set_gen g v s) = s_rules s" "s_bigRules (set_gen g v s) = s_bigRules s"
  "s_markerRules (set_gen g v s) = s_markerRules s" "s_closed (set_gen g v s) = s_closed s"
  by (simp_all add: set_gen_def root_ref_def root_ok_def)

lemma set_gen_slots [simp]: "slot_gen sl (set_gen g v s) = slot_gen sl s \<and> slot_live sl (set_gen g v s) = slot_live sl s"
  by (cases sl) (simp_all add: set_gen_def)

lemma set_slot_simps [simp]:
  "gens (set_slot sl x s) = gens s \<and> n_gen (set_slot sl x s) = n_gen s \<and> nat_w (set_slot sl x s) = nat_w s \<and>
   n_sc (set_slot sl x s) = n_sc s \<and> dead_sc (set_slot sl x s) = dead_sc s \<and> generation (set_slot sl x s) = generation s \<and>
   s_rules (set_slot sl x s) = s_rules s \<and> s_bigRules (set_slot sl x s) = s_bigRules s \<and>
   s_markerRules (set_slot sl x s) = s_markerRules s \<and> s_closed (set_slot sl x s) = s_closed s"
  by (cases sl) simp_all

lemma set_slot_root [simp]: "root_ref (set_slot sl x s) = root_ref s" "root_ok (set_slot sl x s) = root_ok s"
  by (simp_all add: root_ref_def root_ok_def)

lemma set_slot_deps [simp]: "all_deps (set_slot sl x s) = all_deps s" "keys (set_slot sl x s) = keys s"
  by (simp_all add: all_deps_def keys_def fun_eq_iff)

lemma set_slot_live [simp]: "slot_live sl' (set_slot sl x s) = slot_live sl' s"
  by (cases sl') simp_all

lemma slot_gen_set_slot [simp]: "slot_gen sl' (set_slot sl x s) = (if sl' = sl then x else slot_gen sl' s)"
  by (cases sl; cases sl') simp_all

lemma keys_set_gen: "keys (set_gen g v s) h = (if h = g then fst ` set (dependencies v) else keys s h)"
  by (simp add: keys_def)

lemma all_deps_set_gen:
  assumes "g < n_gen s"
  shows "all_deps (set_gen g v s) + deps_of (gens s g) = all_deps s + deps_of v"
proof -
  have rest: "(\<Sum>h \<in> {..<n_gen s} - {g}. deps_of (((gens s)(g := v)) h)) = (\<Sum>h \<in> {..<n_gen s} - {g}. deps_of (gens s h))"
    by (intro sum.cong) auto
  have "all_deps (set_gen g v s) = deps_of v + (\<Sum>h \<in> {..<n_gen s} - {g}. deps_of (gens s h))"
    unfolding all_deps_def using assms rest by (simp add: sum.remove [of _ g])
  moreover have "all_deps s = deps_of (gens s g) + (\<Sum>h \<in> {..<n_gen s} - {g}. deps_of (gens s h))"
    unfolding all_deps_def using assms by (simp add: sum.remove [of _ g])
  ultimately show ?thesis
    by simp
qed


definition scan_core :: "scanner \<Rightarrow> nat multiset \<Rightarrow> nat multiset \<Rightarrow> (nat \<times> nat) set \<Rightarrow> bool" where
  "scan_core s C L O' \<longleftrightarrow> nat_inv (nat_w s) (all_deps s + C) (root_ref s + L) \<and> pools_ok s O' \<and> root_ok s"

lemma scan_inv_core: "scan_inv s C L O' \<longleftrightarrow> scan_core s C L O' \<and> slots_ok s"
  by (auto simp: scan_inv_def scan_core_def)

lemma covered_grows:
  assumes "covered w p r" "grows w w'"
  shows "covered w' p r"
proof (cases r)
  case (Some x)
  obtain a where a: "p < n_pin w" "a \<in> set (pin_owners (pins w p))" "a < n_own w" "ow_rules (owns w a) = x"
    using assms(1) Some by (auto simp: covered_def)
  then have "pin_owners (pins w' p) = pin_owners (pins w p)" "ow_rules (owns w' a) = x" "p < n_pin w'" "a < n_own w'"
    using assms(2) by (auto simp: grows_def)
  then show ?thesis
    using a(2) Some by (auto simp: covered_def)
qed (simp add: covered_def)

lemma root_ok_grows:
  assumes "root_ok s" "grows (nat_w s) (nat_w s')" "generation s' = generation s" "s_rules s' = s_rules s"
    "s_bigRules s' = s_bigRules s" "s_markerRules s' = s_markerRules s" "s_closed s' = s_closed s"
  shows "root_ok s'"
proof -
  have "covered (nat_w s') p r" if "covered (nat_w s) p r" for p r
    using covered_grows [OF that assms(2)] .
  then show ?thesis
    using assms by (simp add: root_ok_def)
qed

lemma gen_ok_frame:
  assumes "gen_ok s O' g" "gens s' g = gens s g" "n_sc s \<le> n_sc s'" "\<And>x. x \<in> keys s g \<Longrightarrow> x \<notin> set (dead_sc s) \<Longrightarrow> x \<notin> set (dead_sc s')"
    "grows (nat_w s) (nat_w s')" "\<And>x. (x, g) \<in> O'' \<longleftrightarrow> (x, g) \<in> O'"
  shows "gen_ok s' O'' g"
proof -
  have d: "fst d < n_sc s' \<and> fst d \<notin> set (dead_sc s') \<and>
      (\<exists>a. snd d = Some a \<and> a < n_own (nat_w s') \<and> ow_rules (owns (nat_w s') a) = sg_rules (gens s g))"
    if "d \<in> set (dependencies (gens s g))" for d
  proof -
    have "fst d \<in> keys s g"
      using that by (simp add: keys_def)
    moreover have "fst d < n_sc s" "fst d \<notin> set (dead_sc s)"
      using assms(1) that by (simp_all add: gen_ok_def)
    moreover obtain a where "snd d = Some a" "a < n_own (nat_w s)" "ow_rules (owns (nat_w s) a) = sg_rules (gens s g)"
      using assms(1) \<open>d \<in> _\<close> by (auto simp: gen_ok_def)
    ultimately show ?thesis
      using assms(3-5) by (auto simp: grows_def)
  qed
  have "keys s' g = keys s g"
    using assms(2) by (simp add: keys_def)
  then show ?thesis
    using assms(1) d unfolding gen_ok_def assms(2) assms(6) by simp
qed

lemma scan_core_nat:
  assumes "scan_core s C L O'" "nat_inv w (all_deps s + C') (root_ref s + L')" "grows (nat_w s) w"
  shows "scan_core (s\<lparr>nat_w := w\<rparr>) C' L' O'"
proof -
  let ?s = "s\<lparr>nat_w := w\<rparr>"
  have same: "all_deps ?s = all_deps s" "root_ref ?s = root_ref s" "keys ?s = keys s"
    by (simp_all add: all_deps_def root_ref_def keys_def fun_eq_iff)
  have "gen_ok ?s O' g" if "g < n_gen s" for g
    by (rule gen_ok_frame [of s O' g]) (use assms(1,3) that in \<open>simp_all add: scan_core_def pools_ok_def\<close>)
  then have "pools_ok ?s O'"
    using assms(1) by (simp add: scan_core_def pools_ok_def same)
  moreover have "root_ok ?s"
    by (rule root_ok_grows [of s]) (use assms(1,3) in \<open>simp_all add: scan_core_def\<close>)
  ultimately show ?thesis
    using assms(2) by (simp add: scan_core_def same)
qed

text \<open>What the pool operations leave alone.\<close>

definition pool_frame :: "scanner \<Rightarrow> scanner \<Rightarrow> bool" where
  "pool_frame s s' \<longleftrightarrow> grows (nat_w s) (nat_w s') \<and> n_gen s' = n_gen s \<and> n_sc s' = n_sc s \<and>
     (\<forall>sl. slot_gen sl s' = slot_gen sl s) \<and> generation s' = generation s \<and> s_closed s' = s_closed s \<and>
     s_rules s' = s_rules s \<and> s_bigRules s' = s_bigRules s \<and> s_markerRules s' = s_markerRules s \<and>
     (\<forall>g. sg_rules (gens s' g) = sg_rules (gens s g) \<and> free (gens s' g) = free (gens s g) \<and> retired (gens s' g) = retired (gens s g))"

lemma pool_frame_trans: "pool_frame a b \<Longrightarrow> pool_frame b c \<Longrightarrow> pool_frame a c"
  by (auto simp: pool_frame_def intro: grows_trans)

lemma drop_dep:
  "distinct (map fst ds) \<Longrightarrow> (sc, Some a) \<in> set ds \<Longrightarrow>
   mset (List.map_filter snd ds) = add_mset a (mset (List.map_filter snd (filter (\<lambda>d. fst d \<noteq> sc) ds)))"
proof (induction ds)
  case (Cons d ds)
  show ?case
  proof (cases "fst d = sc")
    case True
    have "sc \<notin> fst ` set ds"
      using Cons.prems(1) True by auto
    then have "filter (\<lambda>d. fst d \<noteq> sc) ds = ds" "(sc, Some a) \<notin> set ds"
      by (force simp: filter_id_conv)+
    moreover from this True Cons.prems(2) have "d = (sc, Some a)"
      by simp
    ultimately show ?thesis
      by (simp add: List.map_filter_def)
  next
    case False
    then have "(sc, Some a) \<in> set ds"
      using Cons.prems(2) by auto
    then show ?thesis
      using Cons False by (cases "snd d") (simp_all add: List.map_filter_def)
  qed
qed simp

lemma destroyScanner_ok:
  assumes core: "scan_core s C L O'" and out: "(sc, g) \<in> O'"
  shows "\<exists>s'. destroyScanner g sc s = Inr s' \<and> scan_core s' C L (O' - {(sc, g)}) \<and> pool_frame s s'"
proof -
  let ?v = "gens s g"
  let ?ds = "filter (\<lambda>d. fst d \<noteq> sc) (dependencies ?v)"
  define s1 where "s1 = set_gen g (?v\<lparr>dependencies := ?ds\<rparr>) s"
  have pools: "pools_ok s O'"
    using core by (simp add: scan_core_def)
  then have g: "g < n_gen s" "gen_ok s O' g"
    using out by (auto simp: pools_ok_def)
  have dist: "distinct (map fst (dependencies ?v))" and "sc \<in> keys s g"
    using g(2) out by (auto simp: gen_ok_def)
  then obtain ow where "(sc, ow) \<in> set (dependencies ?v)"
    by (auto simp: keys_def)
  moreover from this g(2) obtain a where a: "ow = Some a"
    by (fastforce simp: gen_ok_def)
  ultimately have dep: "(sc, Some a) \<in> set (dependencies ?v)" "map_of (dependencies ?v) sc = Some (Some a)"
    using dist by simp_all
  have "deps_of ?v = add_mset a (deps_of (?v\<lparr>dependencies := ?ds\<rparr>))"
    using drop_dep [OF dist dep(1)] by (simp add: deps_of_def)
  then have "all_deps s = add_mset a (all_deps s1)"
    using all_deps_set_gen [OF g(1), of "?v\<lparr>dependencies := ?ds\<rparr>"] by (simp add: s1_def)
  then have "nat_inv (nat_w s) (add_mset a (all_deps s1 + C)) (root_ref s + L)"
    using core by (simp add: scan_core_def)
  from ow_release_ok [OF this] obtain w where w: "ow_release (Some a) (nat_w s) = Inr w" "nat_inv w (all_deps s1 + C) (root_ref s + L)"
    "grows (nat_w s) w"
    by blast
  define s' where "s' = s1\<lparr>dead_sc := dead_sc s @ [sc], nat_w := w\<rparr>"
  have eq: "destroyScanner g sc s = Inr s'"
    using dep(2) w(1) by (simp add: destroyScanner_def dep_destroy_def Let_def lift_nat_def s1_def s'_def)
  have gens: "gens s' = (gens s)(g := ?v\<lparr>dependencies := ?ds\<rparr>)" "n_sc s' = n_sc s" "dead_sc s' = dead_sc s @ [sc]" "nat_w s' = w" "n_gen s' = n_gen s"
    by (simp_all add: s'_def s1_def)
  have keys: "keys s' h = (if h = g then keys s g - {sc} else keys s h)" for h
    by (auto simp: keys_def gens)
  have unique: "sc \<notin> keys s h" if "h < n_gen s" "h \<noteq> g" for h
    using pools that g(1) \<open>sc \<in> keys s g\<close> unfolding pools_ok_def by blast
  have idle: "sc \<notin> set (free ?v)"
    using g(2) out by (auto simp: gen_ok_def)
  have "gen_ok s' (O' - {(sc, g)}) h" if "h < n_gen s" for h
  proof (cases "h = g")
    case False
    show ?thesis
      by (rule gen_ok_frame [of s O' h]) (use False pools that unique [OF that False] w(3) in \<open>auto simp: pools_ok_def gens\<close>)
  next
    case True
    have d: "fst d < n_sc s' \<and> fst d \<notin> set (dead_sc s') \<and>
      (\<exists>b. snd d = Some b \<and> b < n_own (nat_w s') \<and> ow_rules (owns (nat_w s') b) = sg_rules ?v)" if "d \<in> set ?ds" for d
      using g(2) that w(3) by (fastforce simp: gen_ok_def gens grows_def)
    have "distinct (map fst ?ds)"
      using dist by (simp add: distinct_map_filter)
    moreover have "keys s' g = set (free ?v) \<union> {x. (x, g) \<in> O' - {(sc, g)}}"
      using g(2) idle by (auto simp: keys gen_ok_def)
    ultimately show ?thesis
      using True d g(2) by (simp add: gen_ok_def gens)
  qed
  moreover have "sc < n_sc s" "sc \<notin> set (dead_sc s)"
    using g(2) dep(1) by (auto simp: gen_ok_def)
  ultimately have "pools_ok s' (O' - {(sc, g)})"
    using pools unfolding pools_ok_def gens keys by (auto split: if_splits)
  moreover have "all_deps s' = all_deps s1" "root_ref s' = root_ref s"
    by (simp_all add: s'_def s1_def all_deps_def root_ref_def set_gen_def)
  moreover have "root_ok s'"
    by (rule root_ok_grows [of s]) (use core w(3) in \<open>simp_all add: scan_core_def s'_def s1_def set_gen_def\<close>)
  ultimately have "scan_core s' C L (O' - {(sc, g)})"
    using w(2) by (simp add: scan_core_def gens)
  moreover have "slot_gen sl s' = slot_gen sl s" for sl
    by (cases sl) (simp_all add: s'_def s1_def set_gen_def)
  then have "pool_frame s s'"
    using w(3) by (simp add: pool_frame_def s'_def s1_def set_gen_def)
  ultimately show ?thesis
    using eq by blast
qed

lemma destroy_each_ok:
  assumes "scan_core s C L O'" "distinct scs" "\<And>sc. sc \<in> set scs \<Longrightarrow> (sc, g) \<in> O'"
  shows "\<exists>s'. destroy_each g scs s = Inr s' \<and> scan_core s' C L (O' - (\<lambda>sc. (sc, g)) ` set scs) \<and> pool_frame s s'"
  using assms
proof (induction scs arbitrary: s O')
  case Nil
  then show ?case
    by (simp add: pool_frame_def)
next
  case (Cons sc scs)
  obtain s1 where s1: "destroyScanner g sc s = Inr s1" "scan_core s1 C L (O' - {(sc, g)})" "pool_frame s s1"
    using destroyScanner_ok [OF Cons.prems(1), of sc g] Cons.prems(3) by auto
  obtain s2 where s2: "destroy_each g scs s1 = Inr s2" "scan_core s2 C L (O' - {(sc, g)} - (\<lambda>sc. (sc, g)) ` set scs)" "pool_frame s1 s2"
    using Cons.IH [OF s1(2)] Cons.prems(2,3) by auto
  have "O' - {(sc, g)} - (\<lambda>sc. (sc, g)) ` set scs = O' - (\<lambda>sc. (sc, g)) ` set (sc # scs)"
    by auto
  then show ?case
    using s1 s2 pool_frame_trans [OF s1(3) s2(3)] by auto
qed

text \<open>Retiring a pool hands its idle scanners to the code that destroys them.\<close>

lemma retire_core:
  assumes core: "scan_core s C L O'" and g: "g < n_gen s"
  shows "\<exists>s'. retire g s = Inr s' \<and> scan_core s' C L O' \<and> grows (nat_w s) (nat_w s') \<and> n_gen s' = n_gen s \<and> n_sc s' = n_sc s \<and>
    (\<forall>sl. slot_gen sl s' = slot_gen sl s) \<and> generation s' = generation s \<and> s_closed s' = s_closed s \<and>
    s_rules s' = s_rules s \<and> s_bigRules s' = s_bigRules s \<and> s_markerRules s' = s_markerRules s \<and>
    (\<forall>h. sg_rules (gens s' h) = sg_rules (gens s h) \<and> retired (gens s' h) = (retired (gens s h) \<or> h = g))"
proof -
  let ?v = "gens s g"
  let ?out = "(\<lambda>sc. (sc, g)) ` set (free ?v)"
  define s1 where "s1 = set_gen g (?v\<lparr>free := [], retired := True\<rparr>) s"
  have gok: "gen_ok s O' g"
    using core g by (simp add: scan_core_def pools_ok_def)
  have keys: "keys s1 = keys s"
    by (simp add: s1_def keys_def fun_eq_iff)
  have "gen_ok s1 (O' \<union> ?out) h" if "h < n_gen s" for h
  proof (cases "h = g")
    case True
    then show ?thesis
      using gok unfolding gen_ok_def keys by (auto simp: s1_def)
  next
    case False
    show ?thesis
      by (rule gen_ok_frame [of s O' h]) (use False core that in \<open>auto simp: scan_core_def pools_ok_def s1_def\<close>)
  qed
  then have "pools_ok s1 (O' \<union> ?out)"
    using core g unfolding scan_core_def pools_ok_def keys by (auto simp: s1_def)
  moreover have "all_deps s1 = all_deps s"
    using all_deps_set_gen [OF g, of "?v\<lparr>free := [], retired := True\<rparr>"] by (simp add: s1_def deps_of_def)
  ultimately have "scan_core s1 C L (O' \<union> ?out)"
    using core by (simp add: scan_core_def s1_def)
  from destroy_each_ok [OF this, of "free ?v" g] obtain s' where
    s': "destroy_each g (free ?v) s1 = Inr s'" "scan_core s' C L ((O' \<union> ?out) - ?out)" "pool_frame s1 s'"
    using gok by (auto simp: gen_ok_def)
  moreover have "(O' \<union> ?out) - ?out = O'"
    using gok by (auto simp: gen_ok_def)
  moreover have "retire g s = Inr s'"
    using s'(1) by (simp add: retire_def s1_def)
  ultimately show ?thesis
    by (auto simp: pool_frame_def s1_def)
qed

definition keeps :: "scanner \<Rightarrow> scanner \<Rightarrow> bool" where
  "keeps s s' \<longleftrightarrow> grows (nat_w s) (nat_w s') \<and> generation s' = generation s \<and> s_closed s' = s_closed s \<and>
     s_rules s' = s_rules s \<and> s_bigRules s' = s_bigRules s \<and> s_markerRules s' = s_markerRules s"

lemma keeps_refl [simp]: "keeps s s"
  by (simp add: keeps_def)

lemma keeps_trans: "keeps a b \<Longrightarrow> keeps b c \<Longrightarrow> keeps a c"
  by (auto simp: keeps_def intro: grows_trans)

lemma slot_live_keeps: "keeps s s' \<Longrightarrow> slot_live sl s' = slot_live sl s"
  by (cases sl) (simp_all add: keeps_def)

lemma set_slot_core [simp]: "scan_core (set_slot sl x s) C L O' = scan_core s C L O'"
  by (simp add: scan_core_def pools_ok_def gen_ok_def)

text \<open>Emptying or refilling a slot while its old pool retires.\<close>

lemma swap_slot_ok:
  assumes inv: "scan_core s C L O'" and slots: "slots_ok s" and g: "slot_gen sl s = Some g"
  shows "\<exists>s'. retire g (set_slot sl None s) = Inr s' \<and> scan_inv s' C L O' \<and> keeps s s' \<and> n_gen s' = n_gen s \<and>
    (\<forall>sl'. slot_gen sl' s' = (if sl' = sl then None else slot_gen sl' s)) \<and> (\<forall>h. sg_rules (gens s' h) = sg_rules (gens s h))"
proof -
  have gn: "g < n_gen s"
    using slots g by (auto simp: slots_ok_def)
  obtain s' where s': "retire g (set_slot sl None s) = Inr s'" "scan_core s' C L O'" "grows (nat_w s) (nat_w s')" "n_gen s' = n_gen s"
    "\<forall>sl'. slot_gen sl' s' = slot_gen sl' (set_slot sl None s)" "generation s' = generation s" "s_closed s' = s_closed s"
    "s_rules s' = s_rules s" "s_bigRules s' = s_bigRules s" "s_markerRules s' = s_markerRules s"
    "\<forall>h. sg_rules (gens s' h) = sg_rules (gens s h) \<and> retired (gens s' h) = (retired (gens s h) \<or> h = g)"
    using retire_core [of "set_slot sl None s" C L O' g] inv gn by auto
  have only: "slot_gen sl' s \<noteq> Some g" if "sl' \<noteq> sl" for sl'
    using slots g that by (cases sl; cases sl') (auto simp: slots_ok_def)
  have "slots_ok s'"
    unfolding slots_ok_def
  proof (intro conjI allI impI)
    fix sl' h
    assume "slot_gen sl' s' = Some h"
    then have "sl' \<noteq> sl" "slot_gen sl' s = Some h"
      using s'(5) by (auto split: if_splits)
    moreover from this have "h \<noteq> g"
      using only by auto
    ultimately show "h < n_gen s'" "\<not> retired (gens s' h)"
      using slots s'(4,11) by (auto simp: slots_ok_def)
  next
    fix h
    assume h: "h < n_gen s'" "\<not> retired (gens s' h)"
    then have "h \<noteq> g" "\<not> retired (gens s h)"
      using s'(11) by auto
    then obtain sl' where "slot_gen sl' s = Some h" "sl' \<noteq> sl"
      using slots h(1) s'(4) g by (force simp: slots_ok_def)
    then show "\<exists>sl. slot_gen sl s' = Some h"
      using s'(5) by auto
  next
    fix h
    assume "slot_gen MainSlot s' = Some h"
    then show "slot_gen BigSlot s' \<noteq> Some h"
      using slots s'(5) by (auto simp: slots_ok_def split: if_splits)
  qed
  then show ?thesis
    using s' by (auto simp: scan_inv_core keeps_def)
qed

text \<open>A slot serves its live rules.\<close>

definition served :: "slot \<Rightarrow> scanner \<Rightarrow> bool" where
  "served sl s \<longleftrightarrow> (\<forall>g. slot_gen sl s = Some g \<longrightarrow> slot_live sl s = Some (sg_rules (gens s g)))"

lemma retireStale_ok:
  assumes inv: "scan_inv s C L O'"
  shows "\<exists>s'. retireStale sl s = Inr s' \<and> scan_inv s' C L O' \<and> keeps s s' \<and> served sl s' \<and> (\<forall>sl'. served sl' s \<longrightarrow> served sl' s')"
proof (cases "\<exists>g. slot_gen sl s = Some g \<and> Some (sg_rules (gens s g)) \<noteq> slot_live sl s")
  case False
  then have "retireStale sl s = Inr s" "served sl s"
    by (auto simp: retireStale_def served_def split: option.splits)
  then show ?thesis
    using inv by simp
next
  case True
  then obtain g where g: "slot_gen sl s = Some g" "Some (sg_rules (gens s g)) \<noteq> slot_live sl s"
    by blast
  have "scan_core s C L O'" "slots_ok s"
    using inv by (simp_all add: scan_inv_core)
  from swap_slot_ok [OF this g(1)] obtain s' where s': "retire g (set_slot sl None s) = Inr s'" "scan_inv s' C L O'" "keeps s s'"
    "\<forall>sl'. slot_gen sl' s' = (if sl' = sl then None else slot_gen sl' s)" "\<forall>h. sg_rules (gens s' h) = sg_rules (gens s h)"
    by blast
  have "served sl' s'" if "served sl' s \<or> sl' = sl" for sl'
    using that s'(4,5) slot_live_keeps [OF s'(3)] by (auto simp: served_def split: if_splits)
  then show ?thesis
    using s' g by (simp add: retireStale_def)
qed

lemma new_gen_core:
  assumes core: "scan_core s C L O'" and new: "new_gen r ret s = (g, s')"
  shows "scan_core s' C L O'" "g = n_gen s" "n_gen s' = Suc g" "sg_rules (gens s' g) = r" "retired (gens s' g) = ret"
    "keeps s s'" "\<And>h. h < g \<Longrightarrow> gens s' h = gens s h" "slot_gen sl s' = slot_gen sl s"
proof -
  let ?v = "\<lparr>sg_rules = r, free = [], dependencies = [], retired = ret\<rparr>"
  have s': "s' = (set_gen (n_gen s) ?v s)\<lparr>n_gen := n_gen s + 1\<rparr>" "g = n_gen s"
    using new by (auto simp: new_gen_def)
  show "g = n_gen s" "n_gen s' = Suc g" "sg_rules (gens s' g) = r" "retired (gens s' g) = ret" "\<And>h. h < g \<Longrightarrow> gens s' h = gens s h"
    by (simp_all add: s')
  show "slot_gen sl s' = slot_gen sl s"
    by (cases sl) (simp_all add: s' set_gen_def)
  show "keeps s s'"
    by (simp add: keeps_def s' set_gen_def)
  have same: "gens s' h = gens s h" "keys s' h = keys s h" if "h < n_gen s" for h
    using that by (simp_all add: s' keys_def)
  have fresh: "keys s' (n_gen s) = {}" "\<And>x. (x, n_gen s) \<notin> O'"
    using core by (auto simp: s' keys_def scan_core_def pools_ok_def)
  have gens_ok: "gen_ok s' O' h" if "h < Suc (n_gen s)" for h
  proof (cases "h = n_gen s")
    case True
    then show ?thesis
      using fresh by (simp add: gen_ok_def s')
  next
    case False
    show ?thesis
      by (rule gen_ok_frame [of s O' h]) (use False core that same in \<open>auto simp: scan_core_def pools_ok_def s'\<close>)
  qed
  have "pools_ok s' O'"
    unfolding pools_ok_def
  proof (intro conjI allI impI ballI)
    fix x h h'
    assume "h < n_gen s'" "h' < n_gen s'" "x \<in> keys s' h" "x \<in> keys s' h'"
    moreover from this have "h \<noteq> n_gen s" "h' \<noteq> n_gen s"
      using fresh(1) by auto
    ultimately show "h = h'"
      using core same unfolding scan_core_def pools_ok_def by (simp add: s' less_Suc_eq)
  qed (use core gens_ok in \<open>auto simp: scan_core_def pools_ok_def s'\<close>)
  moreover have "all_deps s' = all_deps s"
  proof -
    have "(\<Sum>h < n_gen s. deps_of (gens s' h)) = all_deps s"
      unfolding all_deps_def by (intro sum.cong) (simp_all add: same)
    then show ?thesis
      by (simp add: all_deps_def s' deps_of_def List.map_filter_def)
  qed
  moreover have "root_ok s'" "root_ref s' = root_ref s" "nat_w s' = nat_w s"
    using core by (simp_all add: scan_core_def root_ok_def root_ref_def s' set_gen_def)
  ultimately show "scan_core s' C L O'"
    using core by (simp add: scan_core_def)
qed

lemma slots_ok_retired_gen:
  assumes "scan_inv s C L O'" "new_gen r True s = (g, s')"
  shows "scan_inv s' C L O'"
proof -
  have core: "scan_core s C L O'" and slots: "slots_ok s"
    using assms(1) by (simp_all add: scan_inv_core)
  note n = new_gen_core [OF core assms(2)]
  have "slots_ok s'"
    unfolding slots_ok_def n(8)
  proof (intro conjI allI impI)
    fix sl h
    assume "slot_gen sl s = Some h"
    then have "h < n_gen s" "\<not> retired (gens s h)"
      using slots by (auto simp: slots_ok_def)
    then show "h < n_gen s'" "\<not> retired (gens s' h)"
      using n(2,3,7) by auto
  next
    fix h
    assume "h < n_gen s'" "\<not> retired (gens s' h)"
    moreover from this have "h \<noteq> g"
      using n(5) by auto
    ultimately have "h < n_gen s" "\<not> retired (gens s h)"
      using n(2,3,7) by auto
    then show "\<exists>sl. slot_gen sl s = Some h"
      using slots by (simp add: slots_ok_def)
  qed (use slots in \<open>simp add: slots_ok_def\<close>)
  then show ?thesis
    using n(1) by (simp add: scan_inv_core)
qed

lemma slots_ok_slot_gen:
  assumes "scan_inv s C L O'" "new_gen r False s = (g, s')" "slot_gen sl s = None"
  shows "scan_inv (set_slot sl (Some g) s') C L O'"
proof -
  have core: "scan_core s C L O'" and slots: "slots_ok s"
    using assms(1) by (simp_all add: scan_inv_core)
  note n = new_gen_core [OF core assms(2)]
  have below: "h < g" "\<not> retired (gens s h)" if "slot_gen sl' s = Some h" for sl' h
    using slots that n(2) by (auto simp: slots_ok_def)
  have sg: "slot_gen sl' (set_slot sl (Some g) s') = (if sl' = sl then Some g else slot_gen sl' s)" for sl'
    by (simp add: n(8))
  have "slots_ok (set_slot sl (Some g) s')"
    unfolding slots_ok_def sg
  proof (intro conjI allI impI)
    fix sl' h
    assume "(if sl' = sl then Some g else slot_gen sl' s) = Some h"
    then have "h = g \<or> slot_gen sl' s = Some h"
      by (cases "sl' = sl") simp_all
    then have "h < Suc g \<and> \<not> retired (gens s' h)"
    proof
      assume "h = g"
      then show ?thesis
        using n(5) by simp
    next
      assume "slot_gen sl' s = Some h"
      from below [OF this] n(7) [of h] show ?thesis
        by simp
    qed
    then show "h < n_gen (set_slot sl (Some g) s')" "\<not> retired (gens (set_slot sl (Some g) s') h)"
      by (simp_all add: n(3))
  next
    fix h
    assume "h < n_gen (set_slot sl (Some g) s')" "\<not> retired (gens (set_slot sl (Some g) s') h)"
    then consider "h = g" | "h < n_gen s" "\<not> retired (gens s h)"
      using n(2,3,7) by (auto simp: less_Suc_eq)
    then show "\<exists>sl'. (if sl' = sl then Some g else slot_gen sl' s) = Some h"
    proof cases
      case 1
      then show ?thesis
        by (intro exI [of _ sl]) simp
    next
      case 2
      then obtain sl' where "slot_gen sl' s = Some h"
        using slots by (auto simp: slots_ok_def)
      then show ?thesis
        using assms(3) by (intro exI [of _ sl']) auto
    qed
  next
    fix h
    assume "(if MainSlot = sl then Some g else slot_gen MainSlot s) = Some h"
    then show "(if BigSlot = sl then Some g else slot_gen BigSlot s) \<noteq> Some h"
      using slots below [of MainSlot h] below [of BigSlot h] by (auto simp: slots_ok_def split: if_splits)
  qed
  then show ?thesis
    using n(1) by (simp add: scan_inv_core)
qed

lemma installGen_ok:
  assumes inv: "scan_inv s C L O'" and served: "\<And>sl. served sl s"
  shows "\<exists>g s'. installGen slt r s = Inr (g, s') \<and> scan_inv s' C L O' \<and> keeps s s' \<and> g < n_gen s' \<and> sg_rules (gens s' g) = r"
proof -
  have core: "scan_core s C L O'"
    using inv by (simp add: scan_inv_core)
  consider (oneoff) "slt = None \<or> (\<exists>sl. slt = Some sl \<and> slot_live sl s \<noteq> Some r)"
    | (reuse) sl g where "slt = Some sl" "slot_live sl s = Some r" "slot_gen sl s = Some g"
    | (install) sl where "slt = Some sl" "slot_live sl s = Some r" "slot_gen sl s = None"
    by (cases slt) auto
  then show ?thesis
  proof cases
    case oneoff
    obtain g s' where n: "new_gen r True s = (g, s')"
      by fastforce
    have "installGen slt r s = Inr (g, s')"
      using oneoff n by (auto simp: installGen_def split: option.split)
    then show ?thesis
      using slots_ok_retired_gen [OF inv n] new_gen_core [OF core n] by auto
  next
    case reuse
    then have "sg_rules (gens s g) = r" "g < n_gen s"
      using served [of sl] inv by (auto simp: served_def scan_inv_core slots_ok_def)
    then show ?thesis
      using reuse inv by (simp add: installGen_def)
  next
    case install
    obtain g s' where n: "new_gen r False s = (g, s')"
      by fastforce
    have "installGen slt r s = Inr (g, set_slot sl (Some g) s')"
      using install n by (simp add: installGen_def)
    moreover have "keeps s (set_slot sl (Some g) s')"
      using new_gen_core(6) [OF core n] by (simp add: keeps_def)
    ultimately show ?thesis
      using slots_ok_slot_gen [OF inv n install(3)] new_gen_core [OF core n] by auto
  qed
qed

section \<open>Checking scanners out and in\<close>

text \<open>Changing one pool, given what the change does to its own books.\<close>

lemma scan_inv_set_gen:
  assumes inv: "scan_inv s C L O'" and g: "g < n_gen s" and ok: "gen_ok (set_gen g v s) O'' g"
    and out: "\<And>x h. h \<noteq> g \<Longrightarrow> (x, h) \<in> O'' \<longleftrightarrow> (x, h) \<in> O'" and rng: "\<forall>x \<in> O''. snd x < n_gen s"
    and same: "dependencies v = dependencies (gens s g)" "retired v = retired (gens s g)"
  shows "scan_inv (set_gen g v s) C L O''"
proof -
  let ?s = "set_gen g v s"
  have keys: "keys ?s = keys s"
    by (simp add: keys_def same fun_eq_iff)
  have "gen_ok ?s O'' h" if "h < n_gen s" for h
  proof (cases "h = g")
    case False
    show ?thesis
      by (rule gen_ok_frame [of s O' h]) (use False inv that out in \<open>auto simp: scan_inv_def pools_ok_def\<close>)
  qed (use ok in simp)
  then have "pools_ok ?s O''"
    using inv rng unfolding scan_inv_def pools_ok_def keys by simp
  moreover have "slots_ok ?s"
    using inv same(2) by (auto simp: scan_inv_def slots_ok_def)
  moreover have "all_deps ?s = all_deps s"
    using all_deps_set_gen [OF g, of v] same(1) by (simp add: deps_of_def)
  ultimately show ?thesis
    using inv by (simp add: scan_inv_def)
qed

lemma keeps_set_gen [simp]: "keeps s (set_gen g v s)"
  by (simp add: keeps_def)

lemma sg_get_ok:
  assumes inv: "scan_inv s C L O'" and g: "g < n_gen s" and get: "sg_get g s = (Some sc, s')"
  shows "scan_inv s' C L (insert (sc, g) O') \<and> keeps s s' \<and> (sc, g) \<notin> O'"
proof -
  let ?v = "(gens s g)\<lparr>free := butlast (free (gens s g))\<rparr>"
  have ne: "free (gens s g) \<noteq> []" and s': "s' = set_gen g ?v s" and sc: "sc = last (free (gens s g))"
    using get by (auto simp: sg_get_def split: if_splits)
  define fs where "fs = butlast (free (gens s g))"
  have free: "free (gens s g) = fs @ [sc]"
    using ne by (simp add: fs_def sc)
  have gok: "gen_ok s O' g"
    using inv g by (simp add: scan_inv_def pools_ok_def)
  have keys: "keys (set_gen g ?v s) g = keys s g"
    by (simp add: keys_def)
  have "gen_ok (set_gen g ?v s) (insert (sc, g) O') g"
    using gok unfolding gen_ok_def keys by (auto simp: free)
  then have "scan_inv (set_gen g ?v s) C L (insert (sc, g) O')"
    by (rule scan_inv_set_gen [OF inv g]) (use inv g in \<open>auto simp: scan_inv_def pools_ok_def\<close>)
  moreover have "(sc, g) \<notin> O'"
    using gok by (simp add: gen_ok_def free)
  ultimately show ?thesis
    by (simp add: s')
qed

lemma sg_get_none: "sg_get g s = (None, s') \<Longrightarrow> s' = s"
  by (simp add: sg_get_def split: if_splits)

text \<open>A rules object covered by a held pin has a live owner.\<close>

lemma covered_managed:
  assumes "nat_inv w P Q" "p \<in># Q" "covered w p (Some r)"
  shows "\<exists>a. managed w r = Some a"
proof -
  obtain a where "a \<in> set (pin_owners (pins w p))" "ow_rules (owns w a) = r"
    using assms(3) by (auto simp: covered_def)
  then show ?thesis
    using pinned_not_freed(4) [OF assms(1,2)] by blast
qed

lemma covered_not_freed:
  assumes "nat_inv w P Q" "p \<in># Q" "covered w p (Some r)"
  shows "r \<notin> set (freed w)"
proof -
  obtain a where "a \<in> set (pin_owners (pins w p))" "ow_rules (owns w a) = r"
    using assms(3) by (auto simp: covered_def)
  then show ?thesis
    using pinned_not_freed(3) [OF assms(1,2)] by blast
qed

lemma construct_ok:
  assumes inv: "scan_inv s C L O'" and g: "g < n_gen s" "sg_rules (gens s g) = r" and managed: "managed (nat_w s) r = Some a"
  shows "\<exists>res s'. construct alloc_ok r g s = Inr (res, s') \<and> keeps s s' \<and>
    (case res of None \<Rightarrow> \<not> alloc_ok \<and> scan_inv s' C L O'
     | Some (sc, h) \<Rightarrow> alloc_ok \<and> h = g \<and> (sc, g) \<notin> O' \<and> scan_inv s' C L (insert (sc, g) O'))"
proof -
  have core: "scan_core s C L O'" and slots: "slots_ok s" and nat: "nat_inv (nat_w s) (all_deps s + C) (root_ref s + L)"
    using inv by (simp_all add: scan_inv_core scan_core_def)
  obtain w1 where w1: "retainManaged (Some r) (nat_w s) = Inr (Some a, w1)" "nat_inv w1 (add_mset a (all_deps s + C)) (root_ref s + L)"
    "grows (nat_w s) w1"
    using retainManaged_ok [OF nat managed] by blast
  show ?thesis
  proof (cases alloc_ok)
    case False
    obtain w2 where w2: "ow_release (Some a) w1 = Inr w2" "nat_inv w2 (all_deps s + C) (root_ref s + L)" "grows w1 w2"
      using ow_release_ok [OF w1(2)] by blast
    have "scan_core (s\<lparr>nat_w := w2\<rparr>) C L O'"
      by (rule scan_core_nat [OF core w2(2) grows_trans [OF w1(3) w2(3)]])
    moreover have "slots_ok (s\<lparr>nat_w := w2\<rparr>)"
    proof -
      have "slot_gen sl (s\<lparr>nat_w := w2\<rparr>) = slot_gen sl s" for sl
        by (cases sl) simp_all
      then show ?thesis
        using slots by (simp add: slots_ok_def)
    qed
    ultimately show ?thesis
      using False w1(1) w2(1) grows_trans [OF w1(3) w2(3)]
      by (simp add: construct_def lift_nat_def scan_inv_core keeps_def)
  next
    case True
    let ?sc = "n_sc s"
    let ?v = "(gens s g)\<lparr>dependencies := (?sc, Some a) # dependencies (gens s g)\<rparr>"
    define s' where "s' = set_gen g ?v (s\<lparr>nat_w := w1, n_sc := ?sc + 1\<rparr>)"
    have own: "a < n_own (nat_w s)" "ow_rules (owns (nat_w s) a) = r"
      using managed_owner [OF nat managed] by simp_all
    then have own': "a < n_own w1" "ow_rules (owns w1 a) = r"
      using w1(3) by (auto simp: grows_def)
    have fields: "gens s' = (gens s)(g := ?v)" "n_sc s' = Suc ?sc" "dead_sc s' = dead_sc s" "nat_w s' = w1" "n_gen s' = n_gen s"
      "generation s' = generation s" "root_ref s' = root_ref s"
      by (simp_all add: s'_def root_ref_def)
    have pools: "pools_ok s O'"
      using inv by (simp add: scan_inv_def)
    have new: "?sc \<notin> keys s h" "(?sc, h) \<notin> O'" "?sc \<notin> set (dead_sc s)" if "h < n_gen s" for h
    proof -
      have gh: "gen_ok s O' h"
        using pools that by (simp add: pools_ok_def)
      then have "\<forall>d \<in> set (dependencies (gens s h)). fst d < ?sc"
        by (simp add: gen_ok_def)
      then show "?sc \<notin> keys s h"
        by (auto simp: keys_def)
      then show "(?sc, h) \<notin> O'"
        using gh by (auto simp: gen_ok_def)
      show "?sc \<notin> set (dead_sc s)"
        using pools by (auto simp: pools_ok_def)
    qed
    have keys: "keys s' h = (if h = g then insert ?sc (keys s g) else keys s h)" for h
      by (simp add: keys_def fields)
    have "gen_ok s' (insert (?sc, g) O') h" if "h < n_gen s" for h
    proof (cases "h = g")
      case False
      show ?thesis
        by (rule gen_ok_frame [of s O' h]) (use False pools that w1(3) in \<open>auto simp: pools_ok_def fields\<close>)
    next
      case True
      have gg: "gen_ok s O' g"
        using pools g(1) by (simp add: pools_ok_def)
      have old: "fst d < Suc ?sc \<and> fst d \<notin> set (dead_sc s) \<and>
          (\<exists>b. snd d = Some b \<and> b < n_own w1 \<and> ow_rules (owns w1 b) = r)" if "d \<in> set (dependencies (gens s g))" for d
        using gg that w1(3) g(2) by (fastforce simp: gen_ok_def grows_def)
      have "distinct (map fst (dependencies ?v))"
        using gg new(1) [OF g(1)] by (simp add: gen_ok_def keys_def)
      moreover have "keys s' g = set (free (gens s g)) \<union> {x. (x, g) \<in> insert (?sc, g) O'}"
        using gg by (auto simp: keys gen_ok_def)
      moreover have "?sc \<notin> set (free (gens s g))"
        using gg new(1) [OF g(1)] by (auto simp: gen_ok_def)
      ultimately show ?thesis
        using True gg old own' g(2) new(3) [OF g(1)] unfolding gen_ok_def fields by auto
    qed
    then have "pools_ok s' (insert (?sc, g) O')"
      using pools g(1) new(1) unfolding pools_ok_def fields keys by (auto split: if_splits)
    moreover have "all_deps s' = add_mset a (all_deps s)"
    proof -
      have "all_deps s' = all_deps (set_gen g ?v s)"
        by (simp add: all_deps_def s'_def set_gen_def)
      moreover have "deps_of ?v = add_mset a (deps_of (gens s g))"
        by (simp add: deps_of_def List.map_filter_def)
      ultimately show ?thesis
        using all_deps_set_gen [OF g(1), of ?v] by simp
    qed
    moreover have "root_ok s'"
      by (rule root_ok_grows [of s]) (use inv w1(3) in \<open>simp_all add: scan_inv_def s'_def\<close>)
    moreover have "slots_ok s'"
    proof -
      have sg: "slot_gen sl s' = slot_gen sl s" for sl
        by (cases sl) (simp_all add: s'_def set_gen_def)
      have "retired (gens s' h) = retired (gens s h)" for h
        by (simp add: fields)
      then show ?thesis
        using slots by (simp add: slots_ok_def sg fields(5))
    qed
    ultimately have "scan_inv s' C L (insert (?sc, g) O')"
      using w1(2) by (simp add: scan_inv_def fields)
    moreover have "keeps s s'"
      using w1(3) by (simp add: keeps_def s'_def)
    moreover have "construct alloc_ok r g s = Inr (Some (?sc, g), s')"
      using True w1(1) by (simp add: construct_def Let_def s'_def)
    ultimately show ?thesis
      using True new(2) [OF g(1)] by simp
  qed
qed

lemma keeps_root: "keeps s s' \<Longrightarrow> root_ref s' = root_ref s"
  by (simp add: keeps_def root_ref_def)

lemma getScanner_ok:
  assumes inv: "scan_inv s C L O'" and p: "p \<in># root_ref s + L" and cov: "covered (nat_w s) p (Some r)"
  shows "\<exists>res s'. getScanner alloc_ok r s = Inr (res, s') \<and> keeps s s' \<and>
    (case res of None \<Rightarrow> \<not> alloc_ok \<and> scan_inv s' C L O' | Some x \<Rightarrow> x \<notin> O' \<and> scan_inv s' C L (insert x O'))"
proof -
  obtain s1 where s1: "retireStale MainSlot s = Inr s1" "scan_inv s1 C L O'" "keeps s s1" "served MainSlot s1"
    using retireStale_ok [OF inv] by blast
  obtain s2 where s2: "retireStale BigSlot s1 = Inr s2" "scan_inv s2 C L O'" "keeps s1 s2" "served BigSlot s2" "served MainSlot s2"
    using retireStale_ok [OF s1(2), of BigSlot] s1(4) by blast
  have "served sl s2" for sl
    using s2(4,5) by (cases sl) simp_all
  then obtain g s3 where s3: "installGen (select_slot r s) r s2 = Inr (g, s3)" "scan_inv s3 C L O'" "keeps s2 s3"
    "g < n_gen s3" "sg_rules (gens s3 g) = r"
    using installGen_ok [OF s2(2)] by blast
  have k: "keeps s s3"
    using s1(3) s2(3) s3(3) keeps_trans by blast
  have run: "getScanner alloc_ok r s =
      (case sg_get g s3 of (Some sc, s4) \<Rightarrow> Inr (Some (sc, g), s4) | (None, s4) \<Rightarrow> construct alloc_ok r g s4)"
    by (simp add: getScanner_def sum_bind_def s1(1) s2(1) s3(1))
  show ?thesis
  proof (cases "fst (sg_get g s3)")
    case (Some sc)
    then obtain s4 where "sg_get g s3 = (Some sc, s4)"
      by (cases "sg_get g s3") simp
    then show ?thesis
      using run sg_get_ok [OF s3(2,4)] keeps_trans [OF k] by fastforce
  next
    case None
    then have get: "sg_get g s3 = (None, s3)"
      using sg_get_none by (cases "sg_get g s3") fastforce
    have "nat_inv (nat_w s3) (all_deps s3 + C) (root_ref s3 + L)" "covered (nat_w s3) p (Some r)"
      using s3(2) cov k covered_grows by (auto simp: scan_inv_def keeps_def)
    from covered_managed [OF this(1) _ this(2)] obtain a where "managed (nat_w s3) r = Some a"
      using p keeps_root [OF k] by auto
    from construct_ok [OF s3(2,4,5) this, of alloc_ok] show ?thesis
      using run get keeps_trans [OF k] by (fastforce split: option.splits)
  qed
qed

lemma putScanner_ok:
  assumes inv: "scan_inv s C L O'" and out: "(sc, g) \<in> O'"
  shows "\<exists>s'. putScanner sc g s = Inr s' \<and> keeps s s' \<and> scan_inv s' C L (O' - {(sc, g)})"
proof (cases "retired (gens s g) \<or> length (free (gens s g)) \<ge> maxPooledScanners")
  case True
  have core: "scan_core s C L O'" and slots: "slots_ok s"
    using inv by (simp_all add: scan_inv_core)
  obtain s' where s': "destroyScanner g sc s = Inr s'" "scan_core s' C L (O' - {(sc, g)})" "pool_frame s s'"
    using destroyScanner_ok [OF core out] by blast
  have "slots_ok s'"
    using slots s'(3) by (simp add: slots_ok_def pool_frame_def)
  then show ?thesis
    using True s' by (auto simp: putScanner_def sg_put_def scan_inv_core keeps_def pool_frame_def)
next
  case False
  let ?v = "(gens s g)\<lparr>free := free (gens s g) @ [sc]\<rparr>"
  have g: "g < n_gen s" and gok: "gen_ok s O' g"
    using inv out by (auto simp: scan_inv_def pools_ok_def)
  have keys: "keys (set_gen g ?v s) g = keys s g"
    by (simp add: keys_def)
  have "gen_ok (set_gen g ?v s) (O' - {(sc, g)}) g"
    using gok out False unfolding gen_ok_def keys by auto
  then have "scan_inv (set_gen g ?v s) C L (O' - {(sc, g)})"
    by (rule scan_inv_set_gen [OF inv g]) (use inv in \<open>auto simp: scan_inv_def pools_ok_def\<close>)
  then show ?thesis
    using False by (simp add: putScanner_def sg_put_def)
qed

section \<open>Leases and publication\<close>

lemma slot_gen_nat [simp]: "slot_gen sl (s\<lparr>nat_w := w\<rparr>) = slot_gen sl s"
  by (cases sl) simp_all

lemma slots_ok_nat [simp]: "slots_ok (s\<lparr>nat_w := w\<rparr>) = slots_ok s"
  by (simp add: slots_ok_def)

lemma scan_inv_nat:
  assumes "scan_inv s C L O'" "nat_inv w (all_deps s + C') (root_ref s + L')" "grows (nat_w s) w"
  shows "scan_inv (s\<lparr>nat_w := w\<rparr>) C' L' O'"
  using scan_core_nat [of s C L O', OF _ assms(2,3)] assms(1) by (simp add: scan_inv_core)

definition lease_ok :: "natives \<Rightarrow> scanLease \<Rightarrow> bool" where
  "lease_ok w l \<longleftrightarrow>
     (case l_pin l of
        None \<Rightarrow> l_rules l = None \<and> l_bigRules l = None \<and> l_markerRules l = None
      | Some p \<Rightarrow> covered w p (l_rules l) \<and> covered w p (l_bigRules l) \<and> covered w p (l_markerRules l))"

definition lease_ref :: "scanLease \<Rightarrow> nat multiset" where
  "lease_ref l = (case l_pin l of None \<Rightarrow> {#} | Some p \<Rightarrow> {#p#})"

lemma lease_ok_grows: "lease_ok w l \<Longrightarrow> grows w w' \<Longrightarrow> lease_ok w' l"
  by (auto simp: lease_ok_def covered_grows split: option.splits)

lemma acquireScanLease_ok:
  assumes inv: "scan_inv s C L O'"
  shows "\<exists>l s'. acquireScanLease version policyFP s = Inr (l, s') \<and> keeps s s' \<and>
    scan_inv s' C (lease_ref l + L) O' \<and> lease_ok (nat_w s') l \<and> l_closed l = s_closed s"
proof -
  have nat: "nat_inv (nat_w s) (all_deps s + C) (root_ref s + L)" and root: "root_ok s"
    using inv by (simp_all add: scan_inv_def)
  show ?thesis
  proof (cases "s_closed s")
    case True
    then show ?thesis
      using inv by (simp add: acquireScanLease_def lease_ref_def lease_ok_def)
  next
    case False
    show ?thesis
    proof (cases "generation s")
      case None
      then show ?thesis
        using False inv root by (simp add: acquireScanLease_def pin_retain_def lease_ref_def lease_ok_def root_ok_def)
    next
      case (Some p)
      then have "p \<in># root_ref s + L"
        by (simp add: root_ref_def)
      then obtain w where w: "pin_retain (Some p) (nat_w s) = Inr w" "nat_inv w (all_deps s + C) (root_ref s + add_mset p L)"
        "grows (nat_w s) w"
        using pin_retain_ok [OF nat] by fastforce
      then show ?thesis
        using False Some root scan_inv_nat [OF inv w(2,3)] covered_grows [OF _ w(3)]
        by (simp add: acquireScanLease_def lease_ref_def lease_ok_def root_ok_def keeps_def)
    qed
  qed
qed

lemma lift_pin_release:
  assumes inv: "scan_inv s C ((case p of None \<Rightarrow> {#} | Some x \<Rightarrow> {#x#}) + L) O'"
  shows "\<exists>s'. lift_nat s (pin_release p (nat_w s)) = Inr s' \<and> keeps s s' \<and> scan_inv s' C L O'"
proof (cases p)
  case None
  then show ?thesis
    using inv by (simp add: lift_nat_def pin_release_def)
next
  case (Some x)
  have "nat_inv (nat_w s) (all_deps s + C) (add_mset x (root_ref s + L))"
    using inv Some by (simp add: scan_inv_def)
  then obtain w where w: "pin_release (Some x) (nat_w s) = Inr w" "nat_inv w (all_deps s + C) (root_ref s + L)" "grows (nat_w s) w"
    using pin_release_ok by blast
  then show ?thesis
    using Some scan_inv_nat [OF inv w(2,3)] by (simp add: lift_nat_def keeps_def)
qed

lemma lease_release_ok:
  assumes "scan_inv s C (lease_ref l + L) O'"
  shows "\<exists>s'. lease_release l s = Inr s' \<and> keeps s s' \<and> scan_inv s' C L O'"
  using lift_pin_release [of s C "l_pin l" L O'] assms by (simp add: lease_release_def lease_ref_def)

section \<open>Reload and close\<close>

text \<open>No object named by the loader has been destroyed.\<close>

definition usable :: "natives \<Rightarrow> nat option \<Rightarrow> bool" where
  "usable w r \<longleftrightarrow> (\<forall>x. r = Some x \<longrightarrow> live w x \<noteq> Some True)"

definition opt_ref :: "nat option \<Rightarrow> nat multiset" where
  "opt_ref a = (case a of None \<Rightarrow> {#} | Some x \<Rightarrow> {#x#})"

lemma adopt_opt_ok:
  assumes "nat_inv w P Q" "usable w r"
  shows "\<exists>a w'. adopt r w = Inr (a, w') \<and> nat_inv w' (opt_ref a + P) Q \<and> grows w w' \<and> (\<forall>k. usable w k \<longrightarrow> usable w' k)"
proof (cases r)
  case None
  then show ?thesis
    using assms by (simp add: adopt_def opt_ref_def)
next
  case (Some x)
  then obtain a w' where w': "adopt (Some x) w = Inr (Some a, w')" "nat_inv w' (add_mset a P) Q" "grows w w'" "managed w' x = Some a"
    "\<forall>k. k \<noteq> x \<longrightarrow> live w' k = live w k"
    using adopt_ok [OF assms(1), of x] assms(2) by (auto simp: usable_def)
  have "live w' x = Some False"
    using managed_owner [OF w'(2,4)] by simp
  then have "\<forall>k. usable w k \<longrightarrow> usable w' k"
    using w'(5) by (auto simp: usable_def) (metis option.inject)
  then show ?thesis
    using Some w' by (simp add: opt_ref_def)
qed

lemma adopt_more_ok:
  assumes inv: "nat_inv w (mset as + P) Q" and dist: "distinct as" and ok: "usable w r"
    and main: "\<exists>a \<in> set as. ow_rules (owns w a) = m"
  shows "\<exists>as' w'. adopt_more m r (as, w) = Inr (as', w') \<and> nat_inv w' (mset as' + P) Q \<and> distinct as' \<and> set as \<subseteq> set as' \<and>
    grows w w' \<and> (\<forall>k. usable w k \<longrightarrow> usable w' k) \<and> (\<forall>x. r = Some x \<longrightarrow> (\<exists>a \<in> set as'. ow_rules (owns w' a) = x))"
proof (cases "r = Some m \<or> r = None \<or> (\<exists>a \<in> set as. ow_rules (owns w a) = the r)")
  case True
  then have "adopt_more m r (as, w) = Inr (as, w)"
    by (auto simp: adopt_more_def)
  then show ?thesis
    using True assms by auto
next
  case False
  then obtain x where x: "r = Some x" and new: "\<forall>a \<in> set as. ow_rules (owns w a) \<noteq> x"
    by auto
  obtain a w' where w': "adopt (Some x) w = Inr (Some a, w')" "nat_inv w' (add_mset a (mset as + P)) Q" "grows w w'" "ow_rules (owns w' a) = x"
    using adopt_ok [OF inv, of x] ok x by (auto simp: usable_def)
  have us: "\<forall>k. usable w k \<longrightarrow> usable w' k"
    using adopt_opt_ok [OF inv ok] x w'(1) by auto
  have "a \<notin> set as"
  proof
    assume a: "a \<in> set as"
    then have "a < n_own w"
      using inv by (auto simp: nat_inv_def refs_ok_def)
    then show False
      using a new w'(3,4) by (auto simp: grows_def)
  qed
  moreover have "adopt_more m r (as, w) = Inr (as @ [a], w')"
    using False x w'(1) by (auto simp: adopt_more_def sum_bind_def)
  moreover have "mset (as @ [a]) + P = add_mset a (mset as + P)"
    by simp
  ultimately show ?thesis
    using w'(2-4) dist x us by (intro exI [of _ "as @ [a]"] exI [of _ w']) (simp add: subset_insertI)
qed

lemma publishReload_ok:
  assumes inv: "scan_inv s C L O'" and closed: "\<not> s_closed s"
    and ok: "usable (nat_w s) (Some (b_rules b))" "usable (nat_w s) (b_bigRules b)" "usable (nat_w s) (b_markerRules b)"
  shows "\<exists>s'. publishReload b s = Inr (generation s, s') \<and> scan_inv s' C (root_ref s + L) O' \<and> grows (nat_w s) (nat_w s') \<and>
    \<not> s_closed s' \<and> s_rules s' = Some (b_rules b) \<and> s_bigRules s' = b_bigRules b \<and> s_markerRules s' = b_markerRules b \<and>
    epoch (topMatches s') = epoch (topMatches s) + 1"
proof -
  let ?P = "all_deps s + C"
  have nat: "nat_inv (nat_w s) ?P (root_ref s + L)"
    using inv by (simp add: scan_inv_def)
  obtain a w1 where w1: "adopt (Some (b_rules b)) (nat_w s) = Inr (Some a, w1)" "nat_inv w1 (mset [a] + ?P) (root_ref s + L)"
    "grows (nat_w s) w1" "ow_rules (owns w1 a) = b_rules b" "\<forall>k. usable (nat_w s) k \<longrightarrow> usable w1 k"
    using adopt_ok [OF nat, of "b_rules b"] adopt_opt_ok [OF nat ok(1)] ok(1) by (fastforce simp: usable_def)
  obtain as2 w2 where w2: "adopt_more (b_rules b) (b_bigRules b) ([a], w1) = Inr (as2, w2)" "nat_inv w2 (mset as2 + ?P) (root_ref s + L)"
    "distinct as2" "set [a] \<subseteq> set as2" "grows w1 w2" "\<forall>k. usable w1 k \<longrightarrow> usable w2 k"
    "\<forall>x. b_bigRules b = Some x \<longrightarrow> (\<exists>a \<in> set as2. ow_rules (owns w2 a) = x)"
    using adopt_more_ok [OF w1(2), of "b_bigRules b" "b_rules b"] w1(4,5) ok(2) by auto
  have in2: "c < n_own w2" if "c \<in> set as2" for c
    using w2(2) that by (auto simp: nat_inv_def refs_ok_def)
  have a1: "a < n_own w1"
    using w1(2) by (auto simp: nat_inv_def refs_ok_def)
  have main2: "ow_rules (owns w2 a) = b_rules b"
    using w1(4) w2(5) a1 by (simp add: grows_def)
  then have "\<exists>c \<in> set as2. ow_rules (owns w2 c) = b_rules b"
    using w2(4) by auto
  then obtain as3 w3 where w3: "adopt_more (b_rules b) (b_markerRules b) (as2, w2) = Inr (as3, w3)" "nat_inv w3 (mset as3 + ?P) (root_ref s + L)"
    "distinct as3" "set as2 \<subseteq> set as3" "grows w2 w3"
    "\<forall>x. b_markerRules b = Some x \<longrightarrow> (\<exists>a \<in> set as3. ow_rules (owns w3 a) = x)"
    using adopt_more_ok [OF w2(2,3), of "b_markerRules b" "b_rules b"] w1(5) w2(6) ok(3) by blast
  have keep3: "ow_rules (owns w3 c) = ow_rules (owns w2 c)" if "c \<in> set as2" for c
    using w3(5) in2 [OF that] by (simp add: grows_def)
  have in3: "set as3 \<subseteq> {..<n_own w3}"
    using w3(2) by (auto simp: nat_inv_def refs_ok_def)
  define w4 where "w4 = (case generation s of None \<Rightarrow> w3
      | Some p \<Rightarrow> set_pin p ((pins w3 p)\<lparr>replaced := replaced (pins w3 p) @ filter (\<lambda>old. old \<notin> set as3) (pin_owners (pins w3 p))\<rparr>) w3)"
  have w4: "nat_inv w4 (mset as3 + ?P) (root_ref s + L)" "grows w3 w4" "owns w4 = owns w3" "n_own w4 = n_own w3"
    using w3(2) nat_inv_pin_meta [OF w3(2)] by (auto simp: w4_def split: option.split)
  define w5 where "w5 = (set_pin (n_pin w4) \<lparr>pin_refs = 1, pin_owners = as3, replaced = []\<rparr> w4)\<lparr>n_pin := n_pin w4 + 1\<rparr>"
  have w5: "nat_inv w5 ?P (add_mset (n_pin w4) (root_ref s + L))" "grows w4 w5"
    using new_pin_ok [OF w4(1) w3(3)] by (simp_all add: w5_def)
  have grow: "grows (nat_w s) w5"
    using w1(3) w2(5) w3(5) w4(2) w5(2) grows_trans by blast
  define s' where "s' = s\<lparr>nat_w := w5, generation := Some (n_pin w4),
      reloadPrevFP := (case s_fp s of None \<Rightarrow> reloadPrevFP s | Some old \<Rightarrow> Some old),
      s_rules := Some (b_rules b), s_bigRules := b_bigRules b, s_markerRules := b_markerRules b,
      s_bigContent := b_bigContent b, s_markerContent := b_markerContent b, s_count := b_list b,
      s_fp := Some (b_fp b), s_contentFP := Some (b_ch b), s_denylist := Some (b_deny b),
      s_denylistFP := Some (b_dlFP b), loadedManifest := b_manifest b, rulesModUnix := b_modUnix b,
      topMatches := Reset (topMatches s)\<rparr>"
  have run: "publishReload b s = Inr (generation s, s')"
    by (simp add: publishReload_def sum_bind_def w1(1) w2(1) w3(1) s'_def w5_def w4_def Let_def split: option.split)
  have cov: "covered w5 (n_pin w4) (Some x)" if "\<exists>c \<in> set as3. ow_rules (owns w3 c) = x" for x
    using that in3 by (auto simp: covered_def w5_def w4(3,4))
  have "covered w5 (n_pin w4) (Some (b_rules b))"
    using cov keep3 main2 w2(4) w3(4) by fastforce
  moreover have "covered w5 (n_pin w4) (b_bigRules b)"
  proof (cases "b_bigRules b")
    case (Some x)
    then show ?thesis
      using cov [of x] keep3 w2(7) w3(4) by fastforce
  qed (simp add: covered_def)
  moreover have "covered w5 (n_pin w4) (b_markerRules b)"
    using cov w3(6) by (cases "b_markerRules b") (simp_all add: covered_def)
  ultimately have root: "root_ok s'"
    using closed by (simp add: root_ok_def s'_def)
  have same: "all_deps s' = all_deps s" "keys s' = keys s" "gens s' = gens s" "n_gen s' = n_gen s" "n_sc s' = n_sc s"
    "dead_sc s' = dead_sc s" "nat_w s' = w5"
    by (simp_all add: all_deps_def keys_def s'_def fun_eq_iff)
  have "gen_ok s' O' h" if "h < n_gen s" for h
    by (rule gen_ok_frame [of s O' h]) (use inv that grow in \<open>auto simp: scan_inv_def pools_ok_def same\<close>)
  then have "pools_ok s' O'"
    using inv by (simp add: scan_inv_def pools_ok_def same)
  moreover have "slot_gen sl s' = slot_gen sl s" for sl
    by (cases sl) (simp_all add: s'_def)
  then have "slots_ok s'"
    using inv by (simp add: scan_inv_def slots_ok_def same)
  moreover have "root_ref s' = {#n_pin w4#}"
    by (simp add: root_ref_def s'_def)
  ultimately have "scan_inv s' C (root_ref s + L) O'"
    using w5(1) root by (simp add: scan_inv_def same)
  then show ?thesis
    using run grow closed by (auto simp: s'_def Reset_def)
qed

end
