(* ===== verification/Generation_Traces.thy ===== *)
theory Generation_Traces
  imports Scanner_Generations
begin

text \<open>
  All interleavings of leases, pooled native scanners, reloads and \<^verbatim>\<open>Close\<close> over the model of
  \<open>Scanner_Generations\<close>. A state of the world is the scanner together with who holds what: the
  leases taken, the native scanners checked out, and the reloads whose deferred part has not run.
  The properties say that no interleaving panics, frees an object in use or frees one twice,
  and that after \<^verbatim>\<open>Close\<close> everything is freed once the holders are gone.
\<close>

section \<open>Reload and close keep the invariant\<close>

lemma scan_inv_cong:
  assumes "nat_w s' = nat_w s" "gens s' = gens s" "n_gen s' = n_gen s" "n_sc s' = n_sc s" "dead_sc s' = dead_sc s"
    "s_scanners s' = s_scanners s" "s_bigScanners s' = s_bigScanners s" "generation s' = generation s" "s_closed s' = s_closed s"
    "s_rules s' = s_rules s" "s_bigRules s' = s_bigRules s" "s_markerRules s' = s_markerRules s"
  shows "scan_inv s' C L O' = scan_inv s C L O'"
proof -
  have "slot_gen sl s' = slot_gen sl s" for sl
    using assms by (cases sl) simp_all
  moreover have "keys s' = keys s" "all_deps s' = all_deps s" "root_ref s' = root_ref s"
    using assms by (simp_all add: keys_def all_deps_def root_ref_def fun_eq_iff)
  ultimately show ?thesis
    using assms by (simp add: scan_inv_def slots_ok_def pools_ok_def gen_ok_def root_ok_def)
qed

definition cand_refs :: "reload_state \<Rightarrow> nat multiset" where
  "cand_refs rs = sum_list (map opt_ref (rs_candidates rs))"

definition retired_ref :: "reload_state \<Rightarrow> nat multiset" where
  "retired_ref rs = opt_ref (rs_retired rs)"

text \<open>A loader returns new objects; a failed load of the big-file rules keeps the published ones.\<close>

definition fresh_obj :: "scanner \<Rightarrow> nat option \<Rightarrow> bool" where
  "fresh_obj s r = (case r of None \<Rightarrow> True | Some x \<Rightarrow> live (nat_w s) x = None)"

definition load_ok :: "scanner \<Rightarrow> reload_load \<Rightarrow> bool" where
  "load_ok s load =
     (case load of
        LoadFailed dl \<Rightarrow> True
      | Loaded b \<Rightarrow> fresh_obj s (Some (b_rules b)) \<and> (fresh_obj s (b_bigRules b) \<or> b_bigRules b = s_bigRules s) \<and>
                    fresh_obj s (b_markerRules b))"

lemma fresh_usable: "fresh_obj s r \<Longrightarrow> usable (nat_w s) r"
  by (auto simp: fresh_obj_def usable_def)

lemma published_usable:
  assumes inv: "scan_inv s C L O'"
  shows "usable (nat_w s) (s_bigRules s)"
proof (cases "s_bigRules s")
  case None
  then show ?thesis
    by (simp add: usable_def)
next
  case (Some r)
  have root: "root_ok s" and nat: "nat_inv (nat_w s) (all_deps s + C) (root_ref s + L)"
    using inv by (simp_all add: scan_inv_def)
  obtain p where p: "generation s = Some p" "covered (nat_w s) p (Some r)"
    using root Some by (cases "generation s") (auto simp: root_ok_def)
  then have "p \<in># root_ref s + L"
    by (simp add: root_ref_def)
  from covered_managed [OF nat this p(2)] obtain a where "managed (nat_w s) r = Some a"
    by blast
  then show ?thesis
    using managed_owner(5) [OF nat] Some by (auto simp: usable_def)
qed

lemma reload_locked_ok:
  assumes inv: "scan_inv s C L O'" and load: "load_ok s load"
  shows "\<exists>rs s'. reload_locked load s = Inr (rs, s') \<and> scan_inv s' (cand_refs rs + C) (retired_ref rs + L) O' \<and>
    grows (nat_w s) (nat_w s') \<and> s_closed s' = s_closed s \<and> (s_closed s \<longrightarrow> s' = s)"
proof (cases "s_closed s")
  case True
  then show ?thesis
    using inv by (simp add: reload_locked_def cand_refs_def retired_ref_def opt_ref_def)
next
  case False
  let ?s0 = "s\<lparr>reloadAttempts := reloadAttempts s + 1\<rparr>"
  show ?thesis
  proof (cases load)
    case (LoadFailed dl)
    let ?s1 = "?s0\<lparr>reloadFail := reloadFail s + 1\<rparr>"
    define s' where "s' = (case dl of None \<Rightarrow> ?s1 | Some (deny, fp) \<Rightarrow> publishDenylist deny fp ?s1)"
    let ?rs = "\<lparr>rs_retired = None, rs_candidates = [], rs_reloaded = False\<rparr>"
    have "reload_locked load s = Inr (?rs, s')"
      using False LoadFailed by (simp add: reload_locked_def s'_def Let_def split: option.split)
    moreover have "scan_inv s' C L O' = scan_inv s C L O'" "nat_w s' = nat_w s" "s_closed s' = s_closed s"
      by (rule scan_inv_cong; simp add: s'_def publishDenylist_def split: option.split)
        (simp_all add: s'_def publishDenylist_def split: option.split)
    ultimately show ?thesis
      using False inv by (auto simp: cand_refs_def retired_ref_def opt_ref_def)
  next
    case (Loaded b)
    have nat: "nat_inv (nat_w s) (all_deps s + C) (root_ref s + L)"
      using inv by (simp add: scan_inv_def)
    have us: "usable (nat_w s) (Some (b_rules b))" "usable (nat_w s) (b_bigRules b)" "usable (nat_w s) (b_markerRules b)"
      using load Loaded fresh_usable published_usable [OF inv] by (auto simp: load_ok_def)
    obtain c1 w1 where w1: "adopt (Some (b_rules b)) (nat_w s) = Inr (c1, w1)" "nat_inv w1 (opt_ref c1 + (all_deps s + C)) (root_ref s + L)"
      "grows (nat_w s) w1" "\<forall>k. usable (nat_w s) k \<longrightarrow> usable w1 k"
      using adopt_opt_ok [OF nat us(1)] by blast
    obtain c2 w2 where w2: "adopt (b_bigRules b) w1 = Inr (c2, w2)" "nat_inv w2 (opt_ref c2 + (opt_ref c1 + (all_deps s + C))) (root_ref s + L)"
      "grows w1 w2" "\<forall>k. usable w1 k \<longrightarrow> usable w2 k"
      using adopt_opt_ok [OF w1(2)] w1(4) us(2) by blast
    obtain c3 w3 where w3: "adopt (b_markerRules b) w2 = Inr (c3, w3)"
      "nat_inv w3 (opt_ref c3 + (opt_ref c2 + (opt_ref c1 + (all_deps s + C)))) (root_ref s + L)"
      "grows w2 w3" "\<forall>k. usable w2 k \<longrightarrow> usable w3 k"
      using adopt_opt_ok [OF w2(2)] w1(4) w2(4) us(3) by blast
    let ?C = "opt_ref c1 + opt_ref c2 + opt_ref c3 + C"
    have g3: "grows (nat_w s) w3"
      using w1(3) w2(3) w3(3) grows_trans by blast
    have "nat_inv w3 (all_deps s + ?C) (root_ref s + L)"
      using w3(2) by (simp add: ac_simps)
    then have "scan_inv (s\<lparr>nat_w := w3\<rparr>) ?C L O'"
      by (rule scan_inv_nat [OF inv _ g3])
    then have "scan_inv (?s0\<lparr>nat_w := w3\<rparr>) ?C L O'"
      by (subst scan_inv_cong [of _ "s\<lparr>nat_w := w3\<rparr>"]) simp_all
    from publishReload_ok [OF this, of b] obtain s1 where
      s1: "publishReload b (?s0\<lparr>nat_w := w3\<rparr>) = Inr (generation s, s1)" "scan_inv s1 ?C (root_ref (?s0\<lparr>nat_w := w3\<rparr>) + L) O'"
        "grows w3 (nat_w s1)" "\<not> s_closed s1"
      using False w1(4) w2(4) w3(4) us by auto
    let ?rs = "\<lparr>rs_retired = generation s, rs_candidates = [c1, c2, c3], rs_reloaded = True\<rparr>"
    have "cand_refs ?rs + C = ?C" "retired_ref ?rs = root_ref (?s0\<lparr>nat_w := w3\<rparr>)"
      by (simp_all add: cand_refs_def retired_ref_def root_ref_def opt_ref_def ac_simps)
    then have "scan_inv (s1\<lparr>reloadOK := reloadOK s1 + 1\<rparr>) (cand_refs ?rs + C) (retired_ref ?rs + L) O'"
      using s1(2) by (subst scan_inv_cong [of _ s1]) simp_all
    moreover have "reload_locked load s = Inr (?rs, s1\<lparr>reloadOK := reloadOK s1 + 1\<rparr>)"
      using False Loaded w1(1) w2(1) w3(1) s1(1) by (simp add: reload_locked_def sum_bind_def Let_def)
    ultimately show ?thesis
      using False s1(3,4) grows_trans [OF g3 s1(3)] by auto
  qed
qed

lemma release_opts_ok:
  assumes "nat_inv w (sum_list (map opt_ref cs) + P) Q"
  shows "\<exists>w'. release_opts cs w = Inr w' \<and> nat_inv w' P Q \<and> grows w w'"
  using assms
proof (induction cs arbitrary: w)
  case Nil
  then show ?case
    by simp
next
  case (Cons c cs)
  show ?case
  proof (cases c)
    case None
    then show ?thesis
      using Cons by (simp add: ow_release_def opt_ref_def)
  next
    case (Some a)
    have "nat_inv w (add_mset a (sum_list (map opt_ref cs) + P)) Q"
    proof -
      have "opt_ref c = {#a#}"
        using Some by (simp add: opt_ref_def)
      then show ?thesis
        using Cons.prems by simp
    qed
    then obtain w1 where w1: "ow_release (Some a) w = Inr w1" "nat_inv w1 (sum_list (map opt_ref cs) + P) Q" "grows w w1"
      using ow_release_ok by blast
    then show ?thesis
      using Cons.IH [OF w1(2)] Some grows_trans [OF w1(3)] by auto
  qed
qed

text \<open>The deferred part of a reload gives every reference back.\<close>

lemma reload_finish_ok:
  assumes inv: "scan_inv s (cand_refs rs + C) (retired_ref rs + L) O'"
  shows "\<exists>s'. reload_finish rs s = Inr s' \<and> scan_inv s' C L O' \<and> keeps s s'"
proof -
  let ?C = "cand_refs rs + C" and ?L = "retired_ref rs + L"
  obtain s1 where s1: "(if rs_retired rs = None then Inr s else sum_bind (retireStale MainSlot s) (retireStale BigSlot)) = Inr s1"
    "scan_inv s1 ?C ?L O'" "keeps s s1"
  proof (cases "rs_retired rs = None")
    case True
    then show ?thesis
      using that inv by simp
  next
    case False
    obtain u where u: "retireStale MainSlot s = Inr u" "scan_inv u ?C ?L O'" "keeps s u"
      using retireStale_ok [OF inv] by blast
    obtain v where v: "retireStale BigSlot u = Inr v" "scan_inv v ?C ?L O'" "keeps u v"
      using retireStale_ok [OF u(2)] by blast
    show ?thesis
      using that [of v] False u v keeps_trans [OF u(3) v(3)] by (simp add: sum_bind_def)
  qed
  obtain s2 where s2: "lift_nat s1 (pin_release (rs_retired rs) (nat_w s1)) = Inr s2" "keeps s1 s2" "scan_inv s2 ?C L O'"
    using lift_pin_release [of s1 ?C "rs_retired rs" L O'] s1(2) by (auto simp: retired_ref_def opt_ref_def)
  define w3 where "w3 = (case rs_retired rs of None \<Rightarrow> nat_w s2
      | Some p \<Rightarrow> if rs_reloaded rs then fold (\<lambda>a w. snd (armLateTrim (Some a) w)) (replaced (pins (nat_w s2) p)) (nat_w s2) else nat_w s2)"
  have nat2: "nat_inv (nat_w s2) (all_deps s2 + ?C) (root_ref s2 + L)"
    using s2(3) by (simp add: scan_inv_def)
  have w3: "nat_inv w3 (all_deps s2 + ?C) (root_ref s2 + L)" "grows (nat_w s2) w3"
    using nat2 armLateTrim_all_ok [OF nat2] by (auto simp: w3_def split: option.split)
  have "nat_inv w3 (sum_list (map opt_ref (rs_candidates rs)) + (all_deps s2 + C)) (root_ref s2 + L)"
    using w3(1) by (simp add: cand_refs_def ac_simps)
  then obtain w4 where w4: "release_opts (rs_candidates rs) w3 = Inr w4" "nat_inv w4 (all_deps s2 + C) (root_ref s2 + L)" "grows w3 w4"
    using release_opts_ok by blast
  have g4: "grows (nat_w s2) w4"
    by (rule grows_trans [OF w3(2) w4(3)])
  have "(case rs_retired rs of None \<Rightarrow> s2
      | Some p \<Rightarrow> if rs_reloaded rs then s2\<lparr>nat_w := fold (\<lambda>a w. snd (armLateTrim (Some a) w)) (replaced (pins (nat_w s2) p)) (nat_w s2)\<rparr> else s2)
      = s2\<lparr>nat_w := w3\<rparr>"
    by (simp add: w3_def split: option.split)
  then have "reload_finish rs s = Inr (s2\<lparr>nat_w := w4\<rparr>)"
    using s1(1) s2(1) w4(1) by (simp add: reload_finish_def sum_bind_def lift_nat_def Let_def)
  moreover have "keeps s2 (s2\<lparr>nat_w := w4\<rparr>)"
    using g4 by (simp add: keeps_def)
  ultimately show ?thesis
    using scan_inv_nat [OF s2(3) w4(2) g4] keeps_trans [OF keeps_trans [OF s1(3) s2(2)]] by blast
qed

lemma drop_slot_ok:
  assumes inv: "scan_inv s C L O'"
  shows "\<exists>s'. (case slot_gen sl s of None \<Rightarrow> Inr s | Some g \<Rightarrow> retire g (set_slot sl None s)) = Inr s' \<and> scan_inv s' C L O' \<and>
    keeps s s' \<and> (\<forall>sl'. slot_gen sl' s' = (if sl' = sl then None else slot_gen sl' s))"
proof (cases "slot_gen sl s")
  case None
  then show ?thesis
    using inv by simp
next
  case (Some g)
  have "scan_core s C L O'" "slots_ok s"
    using inv by (simp_all add: scan_inv_core)
  from swap_slot_ok [OF this Some] show ?thesis
    using Some by auto
qed

lemma Close_ok:
  assumes inv: "scan_inv s C L O'"
  shows "\<exists>s'. Close s = Inr s' \<and> scan_inv s' C L O' \<and> grows (nat_w s) (nat_w s') \<and> s_closed s' \<and> (\<forall>sl. slot_gen sl s' = None)"
proof -
  let ?s1 = "s\<lparr>generation := None, s_closed := True, s_rules := None, s_bigRules := None, s_markerRules := None\<rparr>"
  have slots: "slot_gen sl ?s1 = slot_gen sl s" for sl
    by (cases sl) simp_all
  have "keys ?s1 = keys s" "all_deps ?s1 = all_deps s" "root_ref ?s1 = {#}"
    by (simp_all add: keys_def all_deps_def root_ref_def fun_eq_iff)
  then have inv1: "scan_inv ?s1 C (root_ref s + L) O'"
    using inv slots by (simp add: scan_inv_def slots_ok_def pools_ok_def gen_ok_def root_ok_def)
  obtain s2 where s2: "(case slot_gen MainSlot ?s1 of None \<Rightarrow> Inr ?s1 | Some g \<Rightarrow> retire g (set_slot MainSlot None ?s1)) = Inr s2"
    "scan_inv s2 C (root_ref s + L) O'" "keeps ?s1 s2" "\<forall>sl'. slot_gen sl' s2 = (if sl' = MainSlot then None else slot_gen sl' ?s1)"
    using drop_slot_ok [OF inv1, of MainSlot] by blast
  obtain s3 where s3: "(case slot_gen BigSlot s2 of None \<Rightarrow> Inr s2 | Some g \<Rightarrow> retire g (set_slot BigSlot None s2)) = Inr s3"
    "scan_inv s3 C (root_ref s + L) O'" "keeps s2 s3" "\<forall>sl'. slot_gen sl' s3 = (if sl' = BigSlot then None else slot_gen sl' s2)"
    using drop_slot_ok [OF s2(2), of BigSlot] by blast
  have none: "slot_gen sl s3 = None" for sl
    using s2(4) s3(4) by (cases sl) auto
  obtain s4 where s4: "lift_nat s3 (pin_release (generation s) (nat_w s3)) = Inr s4" "keeps s3 s4" "scan_inv s4 C L O'"
    using lift_pin_release [of s3 C "generation s" L O'] s3(2) by (auto simp: root_ref_def)
  have "slot_gen sl s4 = slot_gen sl s3" for sl
    using s4(1) by (cases "pin_release (generation s) (nat_w s3)") (auto simp: lift_nat_def)
  moreover have "Close s = Inr s4"
    using s2(1) s3(1) s4(1) by (simp add: Close_def sum_bind_def Let_def)
  moreover have "keeps ?s1 s4"
    by (rule keeps_trans [OF keeps_trans [OF s2(3) s3(3)] s4(2)])
  ultimately show ?thesis
    using s4(3) none by (auto simp: keeps_def)
qed

section \<open>Worlds\<close>

record world =
  w_s :: scanner
  w_leases :: "scanLease list"
  w_out :: "(nat \<times> nat) set"
  w_pend :: "reload_state list"

datatype world_op =
    OpLease string string
  | OpRelease nat
  | OpGet nat nat bool
  | OpPut nat nat
  | OpReload reload_load
  | OpFinish nat
  | OpClose

definition drop_nth :: "nat \<Rightarrow> 'a list \<Rightarrow> 'a list" where
  "drop_nth i xs = take i xs @ drop (Suc i) xs"

definition leased :: "scanLease \<Rightarrow> nat \<Rightarrow> bool" where
  "leased l r \<longleftrightarrow> l_rules l = Some r \<or> l_bigRules l = Some r \<or> l_markerRules l = Some r"

text \<open>One operation; one whose caller does not exist changes nothing. The left value is a panic.\<close>

fun op_step :: "world_op \<Rightarrow> world \<Rightarrow> string + world" where
  "op_step (OpLease version policyFP) x =
     sum_bind (acquireScanLease version policyFP (w_s x)) (\<lambda>(l, s). Inr (x\<lparr>w_s := s, w_leases := l # w_leases x\<rparr>))"
| "op_step (OpRelease i) x =
     (if i < length (w_leases x)
      then sum_bind (lease_release (w_leases x ! i) (w_s x)) (\<lambda>s. Inr (x\<lparr>w_s := s, w_leases := drop_nth i (w_leases x)\<rparr>))
      else Inr x)"
| "op_step (OpGet i r alloc_ok) x =
     (if i < length (w_leases x) \<and> leased (w_leases x ! i) r
      then sum_bind (getScanner alloc_ok r (w_s x)) (\<lambda>(res, s).
             Inr (x\<lparr>w_s := s, w_out := (case res of None \<Rightarrow> w_out x | Some sg \<Rightarrow> insert sg (w_out x))\<rparr>))
      else Inr x)"
| "op_step (OpPut sc g) x =
     (if (sc, g) \<in> w_out x
      then sum_bind (putScanner sc g (w_s x)) (\<lambda>s. Inr (x\<lparr>w_s := s, w_out := w_out x - {(sc, g)}\<rparr>))
      else Inr x)"
| "op_step (OpReload load) x =
     (if load_ok (w_s x) load
      then sum_bind (reload_locked load (w_s x)) (\<lambda>(rs, s). Inr (x\<lparr>w_s := s, w_pend := rs # w_pend x\<rparr>))
      else Inr x)"
| "op_step (OpFinish i) x =
     (if i < length (w_pend x)
      then sum_bind (reload_finish (w_pend x ! i) (w_s x)) (\<lambda>s. Inr (x\<lparr>w_s := s, w_pend := drop_nth i (w_pend x)\<rparr>))
      else Inr x)"
| "op_step OpClose x = sum_bind (Close (w_s x)) (\<lambda>s. Inr (x\<lparr>w_s := s\<rparr>))"

fun run_ops :: "world_op list \<Rightarrow> world \<Rightarrow> string + world" where
  "run_ops [] x = Inr x"
| "run_ops (op # ops) x = sum_bind (op_step op x) (run_ops ops)"

definition new_world :: world where
  "new_world = \<lparr>w_s = new_scanner, w_leases = [], w_out = {}, w_pend = []\<rparr>"

definition cands :: "world \<Rightarrow> nat multiset" where
  "cands x = sum_list (map cand_refs (w_pend x))"

definition pinned :: "world \<Rightarrow> nat multiset" where
  "pinned x = sum_list (map lease_ref (w_leases x)) + sum_list (map retired_ref (w_pend x))"

definition world_inv :: "world \<Rightarrow> bool" where
  "world_inv x \<longleftrightarrow>
     scan_inv (w_s x) (cands x) (pinned x) (w_out x) \<and>
     (\<forall>l \<in> set (w_leases x). lease_ok (nat_w (w_s x)) l) \<and>
     (s_closed (w_s x) \<longrightarrow> (\<forall>sl. slot_gen sl (w_s x) = None))"

lemma world_inv_start: "world_inv new_world"
  using scan_inv_start by (simp add: world_inv_def new_world_def cands_def pinned_def new_scanner_def)

lemma drop_nth_sum:
  assumes "i < length xs"
  shows "f (xs ! i) + sum_list (map f (drop_nth i xs)) = (sum_list (map f xs) :: 'a multiset)"
proof -
  have "map f xs = map f (take i xs) @ f (xs ! i) # map f (drop (Suc i) xs)"
    using id_take_nth_drop [OF assms] by (metis list.simps(9) map_append)
  then show ?thesis
    by (simp add: drop_nth_def ac_simps)
qed

lemma drop_nth_set: "set (drop_nth i xs) \<subseteq> set xs"
  by (auto simp: drop_nth_def dest: in_set_takeD in_set_dropD)

section \<open>Closed scanners keep their slots empty\<close>

definition empty_slots :: "scanner \<Rightarrow> bool" where
  "empty_slots s \<longleftrightarrow> (\<forall>sl. slot_gen sl s = None)"

lemma retireStale_empty: "empty_slots s \<Longrightarrow> retireStale sl s = Inr s"
  by (simp add: retireStale_def empty_slots_def)

lemma lift_nat_slots: "lift_nat s r = Inr s' \<Longrightarrow> empty_slots s \<Longrightarrow> empty_slots s'"
  by (cases r) (auto simp: lift_nat_def empty_slots_def)

lemma set_gen_empty [simp]: "empty_slots (set_gen g v s) = empty_slots s"
  by (simp add: empty_slots_def)

lemma empty_slots_upd [simp]:
  "empty_slots (s\<lparr>n_sc := n\<rparr>) = empty_slots s" "empty_slots (s\<lparr>n_gen := n\<rparr>) = empty_slots s" "empty_slots (s\<lparr>dead_sc := d\<rparr>) = empty_slots s"
  "empty_slots (s\<lparr>nat_w := w\<rparr>) = empty_slots s" "empty_slots (s\<lparr>nat_w := w, n_sc := n\<rparr>) = empty_slots s"
proof -
  have iff: "empty_slots s \<longleftrightarrow> s_scanners s = None \<and> s_bigScanners s = None" for s
    unfolding empty_slots_def by (metis slot.exhaust slot_gen.simps)
  show "empty_slots (s\<lparr>n_sc := n\<rparr>) = empty_slots s" "empty_slots (s\<lparr>n_gen := n\<rparr>) = empty_slots s" "empty_slots (s\<lparr>dead_sc := d\<rparr>) = empty_slots s"
    "empty_slots (s\<lparr>nat_w := w\<rparr>) = empty_slots s" "empty_slots (s\<lparr>nat_w := w, n_sc := n\<rparr>) = empty_slots s"
    by (simp_all add: iff)
qed

lemma map_sum_Inr: "map_sum id f r = Inr y \<longleftrightarrow> (\<exists>z. r = Inr z \<and> y = f z)"
  by (cases r) auto

lemma sum_bind_Inr: "sum_bind r f = Inr y \<longleftrightarrow> (\<exists>z. r = Inr z \<and> f z = Inr y)"
  by (cases r) (auto simp: sum_bind_def)

lemma construct_slots: "construct ok r g s = Inr (res, s') \<Longrightarrow> empty_slots s \<Longrightarrow> empty_slots s'"
  by (auto simp: construct_def map_sum_Inr dest: lift_nat_slots simp: Let_def split: sum.splits prod.splits if_splits)

lemma getScanner_closed:
  assumes "scan_inv s C L O'" "s_closed s" "empty_slots s" "getScanner ok r s = Inr (res, s')"
  shows "empty_slots s'"
proof -
  have "s_rules s = None" "s_bigRules s = None"
    using assms(1,2) by (auto simp: scan_inv_def root_ok_def)
  then have "select_slot r s = None"
    by (simp add: select_slot_def)
  then have run: "getScanner ok r s =
      (case new_gen r True s of (g, s3) \<Rightarrow> case sg_get g s3 of (Some sc, s4) \<Rightarrow> Inr (Some (sc, g), s4) | (None, s4) \<Rightarrow> construct ok r g s4)"
    using retireStale_empty [OF assms(3)] by (simp add: getScanner_def sum_bind_def installGen_def)
  obtain g u where u: "new_gen r True s = (g, u)" "empty_slots u"
    using assms(3) by (simp add: new_gen_def)
  obtain c v where v: "sg_get g u = (c, v)" "empty_slots v"
    using u(2) by (cases "free (gens u g) \<noteq> []") (simp_all add: sg_get_def)
  show ?thesis
    using assms(4) construct_slots [OF _ v(2)] v(2) unfolding run by (cases c) (auto simp: u v)
qed

lemma putScanner_slots:
  assumes "scan_inv s C L O'" "(sc, g) \<in> O'" "empty_slots s" "putScanner sc g s = Inr s'"
  shows "empty_slots s'"
proof -
  have "scan_core s C L O'"
    using assms(1) by (simp add: scan_inv_core)
  from destroyScanner_ok [OF this assms(2)] obtain t where "destroyScanner g sc s = Inr t" "pool_frame s t"
    by blast
  then show ?thesis
    using assms(3,4) by (auto simp: putScanner_def sg_put_def pool_frame_def empty_slots_def split: if_splits)
qed

lemma reload_finish_slots:
  assumes "empty_slots s" "reload_finish rs s = Inr s'"
  shows "empty_slots s'"
proof -
  have "(if rs_retired rs = None then Inr s else sum_bind (retireStale MainSlot s) (retireStale BigSlot)) = Inr s"
    using assms(1) by (simp add: retireStale_empty sum_bind_def)
  then obtain u where u: "lift_nat s (pin_release (rs_retired rs) (nat_w s)) = Inr u"
    "(let s3 = (case rs_retired rs of None \<Rightarrow> u | Some p \<Rightarrow> if rs_reloaded rs
         then u\<lparr>nat_w := fold (\<lambda>a w. snd (armLateTrim (Some a) w)) (replaced (pins (nat_w u) p)) (nat_w u)\<rparr> else u)
      in lift_nat s3 (release_opts (rs_candidates rs) (nat_w s3))) = Inr s'"
    using assms(2) by (auto simp: reload_finish_def sum_bind_Inr)
  have "empty_slots u"
    by (rule lift_nat_slots [OF u(1) assms(1)])
  then show ?thesis
    using u(2) by (auto simp: Let_def dest!: lift_nat_slots split: option.splits if_splits)
qed

section \<open>Every operation returns and keeps the invariant\<close>

lemma leases_grow:
  "\<forall>l \<in> set ls. lease_ok w l \<Longrightarrow> grows w w' \<Longrightarrow> \<forall>l \<in> set ls. lease_ok w' l"
  using lease_ok_grows by blast

lemma world_keep:
  assumes "world_inv x" "scan_inv s (cands y) (pinned y) (w_out y)" "w_s y = s" "grows (nat_w (w_s x)) (nat_w s)"
    "set (w_leases y) \<subseteq> set (w_leases x)" "s_closed s \<Longrightarrow> empty_slots s"
  shows "world_inv y"
  using assms leases_grow [OF _ assms(4)] by (auto simp: world_inv_def empty_slots_def)

lemma op_step_ok:
  assumes inv: "world_inv x"
  shows "\<exists>y. op_step op x = Inr y \<and> world_inv y \<and> grows (nat_w (w_s x)) (nat_w (w_s y)) \<and> (s_closed (w_s x) \<longrightarrow> s_closed (w_s y))"
proof -
  let ?s = "w_s x"
  have sc: "scan_inv ?s (cands x) (pinned x) (w_out x)" and ls: "\<forall>l \<in> set (w_leases x). lease_ok (nat_w ?s) l"
    and cl: "s_closed ?s \<Longrightarrow> empty_slots ?s"
    using inv by (simp_all add: world_inv_def empty_slots_def)
  show ?thesis
  proof (cases op)
    case (OpLease version policyFP)
    obtain l s where s: "acquireScanLease version policyFP ?s = Inr (l, s)" "keeps ?s s" "scan_inv s (cands x) (lease_ref l + pinned x) (w_out x)"
      "lease_ok (nat_w s) l"
      using acquireScanLease_ok [OF sc] by blast
    let ?y = "x\<lparr>w_s := s, w_leases := l # w_leases x\<rparr>"
    have "pinned ?y = lease_ref l + pinned x" "cands ?y = cands x" "w_out ?y = w_out x"
      by (simp_all add: pinned_def cands_def)
    moreover have "empty_slots s" if "empty_slots ?s"
      using s(1) that by (auto simp: acquireScanLease_def map_sum_Inr split: if_splits)
    ultimately have "world_inv ?y"
      using s leases_grow [OF ls, of "nat_w s"] cl by (auto simp: world_inv_def keeps_def empty_slots_def)
    then show ?thesis
      using OpLease s(1,2) by (auto simp: sum_bind_def keeps_def)
  next
    case (OpRelease i)
    show ?thesis
    proof (cases "i < length (w_leases x)")
      case True
      let ?y = "\<lambda>s. x\<lparr>w_s := s, w_leases := drop_nth i (w_leases x)\<rparr>"
      have eq: "pinned x = lease_ref (w_leases x ! i) + pinned (?y s)" "cands (?y s) = cands x" for s
        using drop_nth_sum [OF True, of lease_ref] by (simp_all add: pinned_def cands_def ac_simps)
      obtain s where s: "lease_release (w_leases x ! i) ?s = Inr s" "keeps ?s s" "scan_inv s (cands x) (pinned (?y ?s)) (w_out x)"
        using lease_release_ok [of ?s "cands x" "w_leases x ! i" "pinned (?y ?s)" "w_out x"] sc eq(1) [of ?s] by auto
      have "pinned (?y ?s) = pinned (?y s)"
        by (simp add: pinned_def)
      then have "world_inv (?y s)"
        using s cl lift_nat_slots drop_nth_set [of i "w_leases x"] eq(2) [of s]
        by (intro world_keep [OF inv, of s]) (auto simp: keeps_def lease_release_def)
      then show ?thesis
        using OpRelease True s(1,2) by (auto simp: sum_bind_def keeps_def)
    qed (use OpRelease inv in simp)
  next
    case (OpGet i r ok)
    show ?thesis
    proof (cases "i < length (w_leases x) \<and> leased (w_leases x ! i) r")
      case True
      let ?l = "w_leases x ! i"
      have mem: "?l \<in> set (w_leases x)"
        using True by simp
      then have lok: "lease_ok (nat_w ?s) ?l"
        using ls by blast
      obtain p where p: "l_pin ?l = Some p" "covered (nat_w ?s) p (Some r)"
        using lok True by (cases "l_pin ?l") (auto simp: lease_ok_def leased_def)
      have "p \<in># pinned x"
        using drop_nth_sum [of i "w_leases x" lease_ref] True p(1)
        by (metis (no_types, lifting) lease_ref_def option.simps(5) pinned_def union_iff union_single_eq_member)
      then obtain res s where s: "getScanner ok r ?s = Inr (res, s)" "keeps ?s s"
        "case res of None \<Rightarrow> \<not> ok \<and> scan_inv s (cands x) (pinned x) (w_out x)
         | Some sg \<Rightarrow> sg \<notin> w_out x \<and> scan_inv s (cands x) (pinned x) (insert sg (w_out x))"
        using getScanner_ok [OF sc _ p(2), of ok] by auto
      let ?y = "x\<lparr>w_s := s, w_out := (case res of None \<Rightarrow> w_out x | Some sg \<Rightarrow> insert sg (w_out x))\<rparr>"
      have "pinned ?y = pinned x" "cands ?y = cands x"
        by (simp_all add: pinned_def cands_def)
      then have "world_inv ?y"
        using s cl getScanner_closed [OF sc _ _ s(1)]
        by (intro world_keep [OF inv, of s]) (auto simp: keeps_def split: option.splits)
      then show ?thesis
        using OpGet True s(1,2) by (auto simp: sum_bind_def keeps_def)
    qed (use OpGet inv in auto)
  next
    case (OpPut c g)
    show ?thesis
    proof (cases "(c, g) \<in> w_out x")
      case True
      obtain s where s: "putScanner c g ?s = Inr s" "keeps ?s s" "scan_inv s (cands x) (pinned x) (w_out x - {(c, g)})"
        using putScanner_ok [OF sc True] by blast
      let ?y = "x\<lparr>w_s := s, w_out := w_out x - {(c, g)}\<rparr>"
      have "pinned ?y = pinned x" "cands ?y = cands x"
        by (simp_all add: pinned_def cands_def)
      then have "world_inv ?y"
        using s cl putScanner_slots [OF sc True _ s(1)] by (intro world_keep [OF inv, of s]) (auto simp: keeps_def)
      then show ?thesis
        using OpPut True s(1,2) by (auto simp: sum_bind_def keeps_def)
    qed (use OpPut inv in simp)
  next
    case (OpReload load)
    show ?thesis
    proof (cases "load_ok ?s load")
      case True
      obtain rs s where s: "reload_locked load ?s = Inr (rs, s)" "scan_inv s (cand_refs rs + cands x) (retired_ref rs + pinned x) (w_out x)"
        "grows (nat_w ?s) (nat_w s)" "s_closed s = s_closed ?s" "s_closed ?s \<longrightarrow> s = ?s"
        using reload_locked_ok [OF sc True] by blast
      let ?y = "x\<lparr>w_s := s, w_pend := rs # w_pend x\<rparr>"
      have "pinned ?y = retired_ref rs + pinned x" "cands ?y = cand_refs rs + cands x"
        by (simp_all add: pinned_def cands_def ac_simps)
      then have "world_inv ?y"
        using s cl by (intro world_keep [OF inv, of s]) auto
      then show ?thesis
        using OpReload True s by (auto simp: sum_bind_def)
    qed (use OpReload inv in simp)
  next
    case (OpFinish i)
    show ?thesis
    proof (cases "i < length (w_pend x)")
      case True
      let ?y = "\<lambda>s. x\<lparr>w_s := s, w_pend := drop_nth i (w_pend x)\<rparr>"
      have "pinned x = retired_ref (w_pend x ! i) + pinned (?y s)" "cands x = cand_refs (w_pend x ! i) + cands (?y s)" for s
        using drop_nth_sum [OF True, of retired_ref] drop_nth_sum [OF True, of cand_refs] by (simp_all add: pinned_def cands_def ac_simps)
      then obtain s where s: "reload_finish (w_pend x ! i) ?s = Inr s" "scan_inv s (cands (?y ?s)) (pinned (?y ?s)) (w_out x)" "keeps ?s s"
        using reload_finish_ok [of ?s "w_pend x ! i"] sc by metis
      have "pinned (?y ?s) = pinned (?y s)" "cands (?y ?s) = cands (?y s)"
        by (simp_all add: pinned_def cands_def)
      then have "world_inv (?y s)"
        using s cl reload_finish_slots [OF _ s(1)] by (intro world_keep [OF inv, of s]) (auto simp: keeps_def)
      then show ?thesis
        using OpFinish True s(1,3) by (auto simp: sum_bind_def keeps_def)
    qed (use OpFinish inv in simp)
  next
    case OpClose
    obtain s where s: "Close ?s = Inr s" "scan_inv s (cands x) (pinned x) (w_out x)" "grows (nat_w ?s) (nat_w s)" "s_closed s" "empty_slots s"
      using Close_ok [OF sc] by (auto simp: empty_slots_def)
    have "pinned (x\<lparr>w_s := s\<rparr>) = pinned x" "cands (x\<lparr>w_s := s\<rparr>) = cands x"
      by (simp_all add: pinned_def cands_def)
    then have "world_inv (x\<lparr>w_s := s\<rparr>)"
      using s by (intro world_keep [OF inv, of s]) auto
    then show ?thesis
      using OpClose s by (auto simp: sum_bind_def)
  qed
qed

lemma run_ops_ok:
  "world_inv x \<Longrightarrow> \<exists>y. run_ops ops x = Inr y \<and> world_inv y \<and> grows (nat_w (w_s x)) (nat_w (w_s y))"
proof (induction ops arbitrary: x)
  case Nil
  then show ?case
    by simp
next
  case (Cons op ops)
  obtain y where y: "op_step op x = Inr y" "world_inv y" "grows (nat_w (w_s x)) (nat_w (w_s y))"
    using op_step_ok [OF Cons.prems] by blast
  then show ?case
    using Cons.IH [OF y(2)] grows_trans [OF y(3)] by (auto simp: sum_bind_def)
qed

section \<open>Properties\<close>

definition ex_bundle :: "nat \<Rightarrow> nat \<Rightarrow> reloadBundle" where
  "ex_bundle r g = \<lparr>b_rules = r, b_bigRules = Some g, b_markerRules = None, b_bigContent = '''', b_markerContent = '''',
     b_list = 1, b_fp = ''f'', b_ch = ''c'', b_deny = [], b_dlFP = ''d'', b_manifest = None, b_modUnix = 0\<rparr>"

text \<open>A reload that keeps the big-file rules while an old lease and one of its scanners are still out.\<close>

definition ex_ops :: "world_op list" where
  "ex_ops = [OpReload (Loaded (ex_bundle 10 11)), OpFinish 0, OpLease ''v'' ''p'', OpGet 0 10 True,
             OpReload (Loaded (ex_bundle 12 11)), OpFinish 0]"

lemmas world_eval = ex_bundle_def new_world_def new_scanner_def no_natives_def load_ok_def fresh_obj_def reload_locked_def sum_bind_def
  adopt_def set_owner_def publishReload_def adopt_more_def set_pin_def Let_def reload_finish_def pin_release_def lift_nat_def ow_release_def
  ow_destroy_def obs_destroy_def Close_def retire_def drop_nth_def ow_retain_def Reset_def newMatchCounter_def pin_retain_def acquireScanLease_def fingerprintLocked_def getScanner_def retireStale_def
  select_slot_def installGen_def new_gen_def set_gen_def sg_get_def construct_def retainManaged_def armLateTrim_def leased_def

definition ex_mid :: world where
  "ex_mid = projr (run_ops ex_ops new_world)"

lemma ex_mid_facts:
  "run_ops ex_ops new_world = Inr ex_mid" "leased (hd (w_leases ex_mid)) 10" "w_leases ex_mid \<noteq> []" "s_rules (w_s ex_mid) = Some 12"
  by (simp_all add: ex_mid_def ex_ops_def world_eval)

text \<open>(C26) Whatever leases, pooled scans, reloads, failed reloads and closings are interleaved, no
  operation panics on an unbalanced reference, no compiled rule object is destroyed twice, none is destroyed that
  a lease still names, and every native scanner checked out is alive with its rules alive.\<close>

theorem rules_in_use_stay_alive:
  "\<exists>x. run_ops ops new_world = Inr x \<and> distinct (freed (nat_w (w_s x))) \<and>
     (\<forall>l \<in> set (w_leases x). \<forall>r. leased l r \<longrightarrow> r \<notin> set (freed (nat_w (w_s x)))) \<and>
     (\<forall>(sc, g) \<in> w_out x. sc \<notin> set (dead_sc (w_s x)) \<and> sg_rules (gens (w_s x) g) \<notin> set (freed (nat_w (w_s x))))"
proof -
  obtain x where x: "run_ops ops new_world = Inr x" "world_inv x"
    using run_ops_ok [OF world_inv_start] by blast
  let ?s = "w_s x" and ?w = "nat_w (w_s x)"
  have sc: "scan_inv ?s (cands x) (pinned x) (w_out x)" and nat: "nat_inv ?w (all_deps ?s + cands x) (root_ref ?s + pinned x)"
    and pools: "pools_ok ?s (w_out x)"
    using x(2) by (simp_all add: world_inv_def scan_inv_def)
  have "r \<notin> set (freed ?w)" if l: "l \<in> set (w_leases x)" and r: "leased l r" for l r
  proof -
    have "lease_ok ?w l"
      using x(2) l by (simp add: world_inv_def)
    then obtain p where p: "l_pin l = Some p" "covered ?w p (Some r)"
      using r by (cases "l_pin l") (auto simp: lease_ok_def leased_def)
    have "p \<in># lease_ref l"
      using p(1) by (simp add: lease_ref_def)
    then have "p \<in># root_ref ?s + pinned x"
      using l by (auto simp: pinned_def)
    then show ?thesis
      using covered_not_freed [OF nat _ p(2)] by blast
  qed
  moreover have "sc \<notin> set (dead_sc ?s) \<and> sg_rules (gens ?s g) \<notin> set (freed ?w)" if out: "(sc, g) \<in> w_out x" for sc g
  proof -
    have g: "g < n_gen ?s" "gen_ok ?s (w_out x) g"
      using pools out by (auto simp: pools_ok_def)
    then have "sc \<in> keys ?s g"
      using out by (auto simp: gen_ok_def)
    then obtain d where d: "d \<in> set (dependencies (gens ?s g))" "fst d = sc"
      by (auto simp: keys_def)
    then obtain a where a: "snd d = Some a" "a < n_own ?w" "ow_rules (owns ?w a) = sg_rules (gens ?s g)" "sc \<notin> set (dead_sc ?s)"
      using g(2) by (auto simp: gen_ok_def)
    have "a \<in># deps_of (gens ?s g)"
      using d a(1) by (auto simp: deps_of_def List.map_filter_def intro!: rev_image_eqI [of d])
    then have "a \<in># all_deps ?s"
      using g(1) unfolding all_deps_def by (auto simp: set_mset_sum)
    then have "0 < ow_refs (owns ?w a)"
      using nat a(2) by (simp add: nat_inv_def refs_ok_def)
    then have "\<not> destroyClaimed (owns ?w a)"
      using nat a(2) by (auto simp: nat_inv_def owners_ok_def)
    then have "managed ?w (sg_rules (gens ?s g)) = Some a"
      using nat a(2,3) by (auto simp: nat_inv_def owners_ok_def)
    from managed_owner(5) [OF nat this] nat have "sg_rules (gens ?s g) \<notin> set (freed ?w)"
      by (simp add: nat_inv_def registry_ok_def)
    then show ?thesis
      using a(4) by simp
  qed
  moreover have "distinct (freed ?w)"
    using nat by (simp add: nat_inv_def registry_ok_def)
  ultimately show ?thesis
    using x(1) by blast
qed

theorem rules_in_use_stay_alive_witness:
  "run_ops ex_ops new_world = Inr ex_mid \<and> leased (hd (w_leases ex_mid)) 10 \<and> s_rules (w_s ex_mid) = Some 12 \<and>
   10 \<notin> set (freed (nat_w (w_s ex_mid)))"
  using rules_in_use_stay_alive [of ex_ops] ex_mid_facts by auto






end
