(* ===== verification/Scan_Dispatch.thy ===== *)
theory Scan_Dispatch
  imports Scan_Pipeline Verdict_Cache Flight_Group
begin

text \<open>
  How a request gets its verdict, \<^verbatim>\<open>lookupOrScan\<close> and what it calls in
  \<^verbatim>\<open>src/internal/mailstrix/server.go\<close>: the verdict cache, the coalescing of identical scans and the scan
  slots composed. Requests run interleaved, over the flights of \<open>Flight_Group\<close>; a step of a request
  is a call of the cache, a channel operation of the slot semaphore or a step of \<^verbatim>\<open>doScan\<close>. The
  cache is used through its interface alone, so the lemmas are proved for any store that
  keeps the laws of the locale \<open>verdict_store\<close>. \<open>sv_scans\<close> is a history variable: the results of the native
  scans so far, with the keys they ran under.
\<close>

datatype dispatch_err = ErrBusy | ErrCtx | ErrLease string | ErrScan scan_err | ErrPanic string

type_synonym scan_result = "Match gslice \<times> dispatch_err option"

record scan_request =
  rq_partition :: string
  rq_meta :: ScanMeta
  rq_fingerprint :: string
  rq_lease_err :: "string option"
  rq_onStarted :: bool

text \<open>The key of a request: the fingerprint of its lease, its partition and the hash of the body.\<close>

definition scan_key :: "(string \<Rightarrow> u64) \<Rightarrow> scan_request \<Rightarrow> string" where
  "scan_key xxhash r =
     (let partition = (if rq_partition r = '''' then cacheKey xxhash (rq_meta r) else rq_partition r)
      in rq_fingerprint r @ '':'' @ partition @ '':'' @ be_bytes 16 (unat (RawKey (rq_meta r))))"

text \<open>Where a request is: before its first lookup, inside \<^verbatim>\<open>doScan\<close> (with its place in the scan
  function, should it lead), or answered with a cache status.\<close>

datatype fn_pc = FnCheck | FnAcquire | FnWait | FnHeld | FnScan | FnStore "Match gslice"

datatype look_pc = AtLookup | InGroup fn_pc | Answered "dispatch_err scanOutcome" string

record 'c server =
  sv_cache :: 'c
  sv_flights :: "dispatch_err flightGroup"
  sv_at :: "nat \<Rightarrow> look_pc"
  sem_used :: nat
  sv_canceled :: u64
  sv_cacheHit :: u64
  sv_cacheMiss :: u64
  sv_cacheCoalesced :: u64
  sv_busy :: u64
  sv_errors :: u64
  sv_scans :: "(string \<times> scan_result) list"

definition put_at :: "nat \<Rightarrow> look_pc \<Rightarrow> 'c server \<Rightarrow> 'c server" where
  "put_at c p sv = sv\<lparr>sv_at := (sv_at sv)(c := p)\<rparr>"

definition found :: "Match gslice \<Rightarrow> dispatch_err scanOutcome" where
  "found m = \<lparr>o_matches = m, o_err = None\<rparr>"

definition failed :: "dispatch_err \<Rightarrow> dispatch_err scanOutcome" where
  "failed e = \<lparr>o_matches = NilSlice, o_err = Some e\<rparr>"

text \<open>Up to \<^verbatim>\<open>doScan\<close>: a cancelled request, a refused lease, a hit, or on to the flights.\<close>

definition first_lookup ::
  "(gotime \<Rightarrow> string \<Rightarrow> 'c \<Rightarrow> ('c \<times> Match gslice option) option) \<Rightarrow> scan_request \<Rightarrow> string \<Rightarrow> gotime \<Rightarrow> nat \<Rightarrow> 'c server \<Rightarrow> 'c server option" where
  "first_lookup get r key t c sv =
     (if gone (sv_flights sv) c
      then Some (put_at c (Answered (failed ErrCtx) ''canceled'') (sv\<lparr>sv_canceled := sv_canceled sv + 1\<rparr>))
      else case rq_lease_err r of
        Some e \<Rightarrow> Some (put_at c (Answered (failed (ErrLease e)) ''miss'') sv)
      | None \<Rightarrow>
          (case get t key (sv_cache sv) of
             None \<Rightarrow> None
           | Some (cache, Some m) \<Rightarrow>
               Some (put_at c (Answered (found m) ''hit'') (sv\<lparr>sv_cache := cache, sv_cacheHit := sv_cacheHit sv + 1\<rparr>))
           | Some (cache, None) \<Rightarrow> Some (put_at c (InGroup FnCheck) (sv\<lparr>sv_cache := cache\<rparr>))))"

text \<open>A step of the group taken by the scan function: its return and its call of \<^verbatim>\<open>started\<close>.\<close>

definition group_step :: "(nat \<Rightarrow> string) \<Rightarrow> dispatch_err flight_event \<Rightarrow> 'c server \<Rightarrow> 'c server option" where
  "group_step key e sv = map_option (\<lambda>g. sv\<lparr>sv_flights := g\<rparr>) (step key e (sv_flights sv))"

definition fn_recheck ::
  "(gotime \<Rightarrow> string \<Rightarrow> 'c \<Rightarrow> ('c \<times> Match gslice option) option) \<Rightarrow> (nat \<Rightarrow> string) \<Rightarrow> gotime \<Rightarrow> nat \<Rightarrow> 'c server \<Rightarrow> 'c server option" where
  "fn_recheck get key t c sv =
     (case get t (key c) (sv_cache sv) of
        None \<Rightarrow> None
      | Some (cache, Some m) \<Rightarrow> group_step key (FnReturn c (found m) False) (sv\<lparr>sv_cache := cache\<rparr>)
      | Some (cache, None) \<Rightarrow> Some (put_at c (InGroup FnAcquire) (sv\<lparr>sv_cache := cache, sv_cacheMiss := sv_cacheMiss sv + 1\<rparr>)))"

text \<open>The end of a scan function that got no slot.\<close>

definition fn_busy :: "scan_request \<Rightarrow> (nat \<Rightarrow> string) \<Rightarrow> nat \<Rightarrow> 'c server \<Rightarrow> 'c server option" where
  "fn_busy r key c sv =
     group_step key (FnReturn c (failed ErrBusy) True)
       (if \<not> gone (sv_flights sv) c \<and> \<not> rq_onStarted r then sv\<lparr>sv_busy := sv_busy sv + 1\<rparr> else sv)"

text \<open>\<^verbatim>\<open>acquireOn\<close>: a slot at once, or a wait that a free slot, the timer or the context ends.\<close>

datatype slot_answer = SlotFree | TimerFired | ContextDone

definition take_slot :: "nat \<Rightarrow> 'c server \<Rightarrow> 'c server" where
  "take_slot c sv = put_at c (InGroup FnHeld) (sv\<lparr>sem_used := sem_used sv + 1\<rparr>)"

definition fn_acquire :: "nat \<Rightarrow> scan_request \<Rightarrow> (nat \<Rightarrow> string) \<Rightarrow> nat \<Rightarrow> 'c server \<Rightarrow> 'c server option" where
  "fn_acquire slots r key c sv =
     (if gone (sv_flights sv) c then fn_busy r key c sv
      else if sem_used sv < slots then Some (take_slot c sv)
      else Some (put_at c (InGroup FnWait) sv))"

fun fn_wait :: "nat \<Rightarrow> scan_request \<Rightarrow> (nat \<Rightarrow> string) \<Rightarrow> nat \<Rightarrow> slot_answer \<Rightarrow> 'c server \<Rightarrow> 'c server option" where
  "fn_wait slots r key c SlotFree sv = (if sem_used sv < slots then Some (take_slot c sv) else None)"
| "fn_wait slots r key c TimerFired sv = fn_busy r key c sv"
| "fn_wait slots r key c ContextDone sv = (if gone (sv_flights sv) c then fn_busy r key c sv else None)"

text \<open>With the slot held: give it back if the context is done, else signal the start and scan.\<close>

definition fn_held :: "(nat \<Rightarrow> string) \<Rightarrow> nat \<Rightarrow> 'c server \<Rightarrow> 'c server option" where
  "fn_held key c sv =
     (if gone (sv_flights sv) c
      then group_step key (FnReturn c (failed ErrCtx) True) (put_at c (InGroup FnCheck) (sv\<lparr>sem_used := sem_used sv - 1\<rparr>))
      else group_step key (FnStarted c) (put_at c (InGroup FnScan) sv))"

text \<open>\<^verbatim>\<open>dispatchLease\<close>: a panic of the engine becomes an error.\<close>

fun dispatchLease :: "string + scan_result \<Rightarrow> scan_result" where
  "dispatchLease (Inl rec) = (NilSlice, Some (ErrPanic rec))"
| "dispatchLease (Inr res) = res"

definition fn_scanned :: "(nat \<Rightarrow> string) \<Rightarrow> nat \<Rightarrow> string + scan_result \<Rightarrow> 'c server \<Rightarrow> 'c server option" where
  "fn_scanned key c run sv =
     (let (m, err) = dispatchLease run;
          sv1 = sv\<lparr>sem_used := sem_used sv - 1, sv_scans := (key c, m, err) # sv_scans sv\<rparr>
      in if err \<noteq> None
         then group_step key (FnReturn c \<lparr>o_matches = m, o_err = err\<rparr> False)
                (put_at c (InGroup FnCheck)
                  (if err \<noteq> Some (ErrScan ErrScanIncomplete) then sv1\<lparr>sv_errors := sv_errors sv1 + 1\<rparr> else sv1))
         else Some (put_at c (InGroup (FnStore m)) sv1))"

definition fn_store ::
  "(gotime \<Rightarrow> string \<Rightarrow> Match gslice \<Rightarrow> 'c \<Rightarrow> 'c option) \<Rightarrow> (nat \<Rightarrow> string) \<Rightarrow> gotime \<Rightarrow> Match gslice \<Rightarrow> nat \<Rightarrow> 'c server \<Rightarrow> 'c server option" where
  "fn_store put key t m c sv =
     (case put t (key c) m (sv_cache sv) of
        None \<Rightarrow> None
      | Some cache \<Rightarrow> group_step key (FnReturn c (found m) False) (put_at c (InGroup FnCheck) (sv\<lparr>sv_cache := cache\<rparr>)))"

text \<open>After \<^verbatim>\<open>doScan\<close>.\<close>

definition answer :: "nat \<Rightarrow> 'c server \<Rightarrow> 'c server option" where
  "answer c sv =
     (case pcs (sv_flights sv) c of
        RetCanceled \<Rightarrow> Some (put_at c (Answered (failed ErrCtx) ''canceled'') (sv\<lparr>sv_canceled := sv_canceled sv + 1\<rparr>))
      | RetOutcome out sh \<Rightarrow>
          Some (if sh then put_at c (Answered out ''coalesced'') (sv\<lparr>sv_cacheCoalesced := sv_cacheCoalesced sv + 1\<rparr>)
                else put_at c (Answered out ''miss'') sv)
      | _ \<Rightarrow> None)"


text \<open>The steps of the requests. \<^verbatim>\<open>doScan\<close> itself moves by the events of the group, except those of the
  scan function, which come from the steps above; a reload may flush the cache at any time.\<close>

datatype dispatch_event =
    EvLookup gotime nat
  | EvGroup "dispatch_err flight_event"
  | EvRecheck gotime nat
  | EvAcquire nat
  | EvWait nat slot_answer
  | EvHeld nat
  | EvScanned nat "string + scan_result"
  | EvStore gotime nat
  | EvAnswer nat
  | EvReload

fun group_event :: "dispatch_err flight_event \<Rightarrow> nat option" where
  "group_event (Enter c) = Some c"
| "group_event (SeeStarted c) = Some c"
| "group_event (SeeDone c) = Some c"
| "group_event (SeeCancel c) = Some c"
| "group_event (FinishLock c) = Some c"
| "group_event (FinishClose c) = Some c"
| "group_event (ReadShared c) = Some c"
| "group_event (FnStarted c) = None"
| "group_event (FnReturn c r ab) = None"
| "group_event (FnPanic c) = None"
| "group_event (CtxDone c) = None"

fun in_group :: "look_pc \<Rightarrow> bool" where
  "in_group (InGroup p) = True"
| "in_group _ = False"

definition at_fn :: "nat \<Rightarrow> 'c server \<Rightarrow> fn_pc option" where
  "at_fn c sv = (case (pcs (sv_flights sv) c, sv_at sv c) of (AtFn f, InGroup p) \<Rightarrow> Some p | _ \<Rightarrow> None)"

fun moves_freely :: "dispatch_err flight_event \<Rightarrow> 'c server \<Rightarrow> bool" where
  "moves_freely (CtxDone c) sv = True"
| "moves_freely e sv = (case group_event e of None \<Rightarrow> False | Some c \<Rightarrow> in_group (sv_at sv c))"

record 'c store_ops =
  s_get :: "gotime \<Rightarrow> string \<Rightarrow> 'c \<Rightarrow> ('c \<times> Match gslice option) option"
  s_put :: "gotime \<Rightarrow> string \<Rightarrow> Match gslice \<Rightarrow> 'c \<Rightarrow> 'c option"
  s_flush :: "'c \<Rightarrow> 'c"

fun dispatch_step :: "'c store_ops \<Rightarrow> nat \<Rightarrow> (nat \<Rightarrow> scan_request) \<Rightarrow> (nat \<Rightarrow> string) \<Rightarrow> dispatch_event \<Rightarrow> 'c server \<Rightarrow> 'c server option" where
  "dispatch_step so slots req key (EvLookup t c) sv =
     (if sv_at sv c = AtLookup then first_lookup (s_get so) (req c) (key c) t c sv else None)"
| "dispatch_step so slots req key (EvGroup e) sv = (if moves_freely e sv then group_step key e sv else None)"
| "dispatch_step so slots req key (EvRecheck t c) sv =
     (if at_fn c sv = Some FnCheck then fn_recheck (s_get so) key t c sv else None)"
| "dispatch_step so slots req key (EvAcquire c) sv =
     (if at_fn c sv = Some FnAcquire then fn_acquire slots (req c) key c sv else None)"
| "dispatch_step so slots req key (EvWait c a) sv =
     (if at_fn c sv = Some FnWait then fn_wait slots (req c) key c a sv else None)"
| "dispatch_step so slots req key (EvHeld c) sv = (if at_fn c sv = Some FnHeld then fn_held key c sv else None)"
| "dispatch_step so slots req key (EvScanned c run) sv = (if at_fn c sv = Some FnScan then fn_scanned key c run sv else None)"
| "dispatch_step so slots req key (EvStore t c) sv =
     (case at_fn c sv of Some (FnStore m) \<Rightarrow> fn_store (s_put so) key t m c sv | _ \<Rightarrow> None)"
| "dispatch_step so slots req key (EvAnswer c) sv = (if in_group (sv_at sv c) then answer c sv else None)"
| "dispatch_step so slots req key EvReload sv = Some (sv\<lparr>sv_cache := s_flush so (sv_cache sv)\<rparr>)"

fun dispatch_run :: "'c store_ops \<Rightarrow> nat \<Rightarrow> (nat \<Rightarrow> scan_request) \<Rightarrow> (nat \<Rightarrow> string) \<Rightarrow> dispatch_event list \<Rightarrow> 'c server \<Rightarrow> 'c server option" where
  "dispatch_run so slots req key [] sv = Some sv"
| "dispatch_run so slots req key (e # es) sv =
     (case dispatch_step so slots req key e sv of None \<Rightarrow> None | Some sv' \<Rightarrow> dispatch_run so slots req key es sv')"

definition new_server :: "'c \<Rightarrow> 'c server" where
  "new_server cache = \<lparr>sv_cache = cache, sv_flights = idle, sv_at = (\<lambda>_. AtLookup), sem_used = 0, sv_canceled = 0, sv_cacheHit = 0,
     sv_cacheMiss = 0, sv_cacheCoalesced = 0, sv_busy = 0, sv_errors = 0, sv_scans = []\<rparr>"

section \<open>Where a verdict comes from\<close>

text \<open>An outcome is backed when it is no verdict, or the result of a native scan under the key.\<close>

definition backed :: "(string \<times> scan_result) list \<Rightarrow> string \<Rightarrow> dispatch_err scanOutcome \<Rightarrow> bool" where
  "backed scans k out \<longleftrightarrow>
     o_err out = Some ErrBusy \<or> o_err out = Some ErrCtx \<or> (\<exists>e. o_err out = Some (ErrLease e)) \<or> (k, o_matches out, o_err out) \<in> set scans"

fun at_ok :: "(string \<times> scan_result) list \<Rightarrow> string \<Rightarrow> look_pc \<Rightarrow> bool" where
  "at_ok scans k (Answered out st) = backed scans k out"
| "at_ok scans k (InGroup (FnStore m)) = ((k, m, None) \<in> set scans)"
| "at_ok scans k _ = True"

definition traced :: "(nat \<Rightarrow> string) \<Rightarrow> (string \<times> scan_result) list \<Rightarrow> dispatch_err flightGroup \<Rightarrow> bool" where
  "traced key scans g \<longleftrightarrow> (\<exists>evs. schedule key evs g \<and> (\<forall>l out ab. FnReturn l out ab \<in> set evs \<longrightarrow> backed scans (key l) out))"

definition verdict_inv :: "('c \<Rightarrow> bool) \<Rightarrow> ('c \<Rightarrow> string \<Rightarrow> Match gslice \<Rightarrow> gotime \<Rightarrow> bool) \<Rightarrow> (nat \<Rightarrow> string) \<Rightarrow> 'c server \<Rightarrow> bool" where
  "verdict_inv I H key sv \<longleftrightarrow>
     I (sv_cache sv) \<and> (\<forall>k m x. H (sv_cache sv) k m x \<longrightarrow> (k, m, None) \<in> set (sv_scans sv)) \<and>
     traced key (sv_scans sv) (sv_flights sv) \<and> (\<forall>c. at_ok (sv_scans sv) (key c) (sv_at sv c))"

lemma verdict_invD:
  assumes "verdict_inv I H key sv"
  shows "I (sv_cache sv)" "H (sv_cache sv) k m x \<Longrightarrow> (k, m, None) \<in> set (sv_scans sv)"
    "traced key (sv_scans sv) (sv_flights sv)" "at_ok (sv_scans sv) (key c) (sv_at sv c)"
  using assms unfolding verdict_inv_def by blast+

lemma backed_simps [simp]:
  "backed scans k (failed ErrBusy)" "backed scans k (failed ErrCtx)" "backed scans k (failed (ErrLease e))"
  "backed scans k (found m) \<longleftrightarrow> (k, m, None) \<in> set scans"
  by (simp_all add: backed_def failed_def found_def)

lemma backed_mono: "backed scans k out \<Longrightarrow> backed (x # scans) k out"
  by (auto simp: backed_def)

lemma at_ok_mono: "at_ok scans k p \<Longrightarrow> at_ok (x # scans) k p"
  by (cases "(scans, k, p)" rule: at_ok.cases) (simp_all add: backed_mono)

lemma traced_mono: "traced key scans g \<Longrightarrow> traced key (x # scans) g"
  unfolding traced_def using backed_mono by metis

lemma traced_step:
  assumes "traced key scans g" "step key e g = Some g'" "\<And>l out ab. e = FnReturn l out ab \<Longrightarrow> backed scans (key l) out"
  shows "traced key scans g'"
proof -
  obtain evs where evs: "schedule key evs g" "\<And>l out ab. FnReturn l out ab \<in> set evs \<Longrightarrow> backed scans (key l) out"
    using assms(1) by (auto simp: traced_def)
  have "backed scans (key l) out" if "FnReturn l out ab \<in> set (evs @ [e])" for l out ab
    using that evs(2) assms(3) by auto
  then show ?thesis
    using schedule.more [OF evs(1) assms(2)] unfolding traced_def by blast
qed

lemma traced_answer:
  assumes "traced key scans g" "pcs g c = RetOutcome out sh"
  shows "backed scans (key c) out"
proof -
  obtain evs where evs: "schedule key evs g" "\<And>l out ab. FnReturn l out ab \<in> set evs \<Longrightarrow> backed scans (key l) out"
    using assms(1) by (auto simp: traced_def)
  obtain l ab where "key l = key c" "FnReturn l out ab \<in> set evs"
    using schedule_told [OF evs(1), of c] assms(2) by (auto simp: told_def)
  then show ?thesis
    using evs(2) by metis
qed

lemma put_at_simps [simp]:
  "sv_cache (put_at c p sv) = sv_cache sv" "sv_flights (put_at c p sv) = sv_flights sv" "sv_scans (put_at c p sv) = sv_scans sv"
  "sem_used (put_at c p sv) = sem_used sv" "sv_at (put_at c p sv) = (sv_at sv)(c := p)"
  by (simp_all add: put_at_def)

lemma verdict_inv_counters [simp]:
  "verdict_inv I H key (sv\<lparr>sv_canceled := x\<rparr>) = verdict_inv I H key sv"
  "verdict_inv I H key (sv\<lparr>sv_cacheHit := x\<rparr>) = verdict_inv I H key sv"
  "verdict_inv I H key (sv\<lparr>sv_cacheMiss := x\<rparr>) = verdict_inv I H key sv"
  "verdict_inv I H key (sv\<lparr>sv_cacheCoalesced := x\<rparr>) = verdict_inv I H key sv"
  "verdict_inv I H key (sv\<lparr>sv_busy := x\<rparr>) = verdict_inv I H key sv"
  "verdict_inv I H key (sv\<lparr>sv_errors := x\<rparr>) = verdict_inv I H key sv"
  "verdict_inv I H key (sv\<lparr>sem_used := n\<rparr>) = verdict_inv I H key sv"
  by (simp_all add: verdict_inv_def)

lemma verdict_inv_put_at [simp]:
  "verdict_inv I H key sv \<Longrightarrow> at_ok (sv_scans sv) (key c) p \<Longrightarrow> verdict_inv I H key (put_at c p sv)"
  by (simp add: verdict_inv_def)

lemma verdict_inv_scan [simp]:
  "verdict_inv I H key sv \<Longrightarrow> verdict_inv I H key (sv\<lparr>sv_scans := x # sv_scans sv\<rparr>)"
  by (simp add: verdict_inv_def traced_mono at_ok_mono)

lemma verdict_inv_group:
  assumes "verdict_inv I H key sv" "group_step key e sv = Some sv'"
    "\<And>l out ab. e = FnReturn l out ab \<Longrightarrow> backed (sv_scans sv) (key l) out"
  shows "verdict_inv I H key sv'"
proof -
  obtain g where g: "step key e (sv_flights sv) = Some g" "sv' = sv\<lparr>sv_flights := g\<rparr>"
    using assms(2) by (auto simp: group_step_def)
  have "traced key (sv_scans sv) g"
    by (rule traced_step [OF verdict_invD(3) [OF assms(1)] g(1) assms(3)])
  then show ?thesis
    using assms(1) g(2) by (simp add: verdict_inv_def)
qed

lemma verdict_inv_return:
  assumes "group_step key (FnReturn c out ab) sv = Some sv'" "verdict_inv I H key sv" "backed (sv_scans sv) (key c) out"
  shows "verdict_inv I H key sv'"
  using verdict_inv_group [OF assms(2,1)] assms(3) by simp

lemma verdict_inv_new: "I c \<Longrightarrow> (\<And>k m x. \<not> H c k m x) \<Longrightarrow> verdict_inv I H key (new_server c)"
  using schedule.start [of key] by (auto simp: verdict_inv_def new_server_def traced_def intro!: exI [of _ "[]"])

lemma fn_busy_verdict: "fn_busy r key c sv = Some sv' \<Longrightarrow> verdict_inv I H key sv \<Longrightarrow> verdict_inv I H key sv'"
  unfolding fn_busy_def by (erule verdict_inv_return) simp_all

lemma fn_scanned_cases:
  assumes "fn_scanned key c run sv = Some sv'"
  obtains (ok) m where "dispatchLease run = (m, None)"
    "sv' = put_at c (InGroup (FnStore m)) (sv\<lparr>sem_used := sem_used sv - 1, sv_scans := (key c, m, None) # sv_scans sv\<rparr>)"
  | (err) m e n where "dispatchLease run = (m, Some e)"
    "group_step key (FnReturn c \<lparr>o_matches = m, o_err = Some e\<rparr> False) (put_at c (InGroup FnCheck)
       (sv\<lparr>sem_used := sem_used sv - 1, sv_scans := (key c, m, Some e) # sv_scans sv, sv_errors := n\<rparr>)) = Some sv'"
proof -
  obtain m err where run: "dispatchLease run = (m, err)"
    by fastforce
  show thesis
  proof (cases err)
    case None
    then show thesis
      using assms run ok [of m] by (simp add: fn_scanned_def)
  next
    case (Some e)
    then show thesis
      using assms run err [of m e "sv_errors sv"] err [of m e "sv_errors sv + 1"]
      by (cases "e = ErrScan ErrScanIncomplete") (simp_all add: fn_scanned_def Let_def)
  qed
qed

lemma fn_scanned_verdict:
  assumes "fn_scanned key c run sv = Some sv'" "verdict_inv I H key sv"
  shows "verdict_inv I H key sv'"
  using assms(1)
proof (cases rule: fn_scanned_cases)
  case (ok m)
  then show ?thesis
    using verdict_inv_scan [OF assms(2), of "(key c, m, None)"] by (simp add: verdict_inv_def)
next
  case (err m e n)
  show ?thesis
    by (rule verdict_inv_return [OF err(2)])
      (use verdict_inv_scan [OF assms(2), of "(key c, m, Some e)"] in \<open>simp_all add: verdict_inv_def backed_def\<close>)
qed

context verdict_store
begin

lemma inv_cache_get:
  assumes "verdict_inv inv holds key sv" "get t k (sv_cache sv) = Some (c', r)"
  shows "verdict_inv inv holds key (sv\<lparr>sv_cache := c'\<rparr>)" "r = Some m \<Longrightarrow> (k, m, None) \<in> set (sv_scans sv)"
proof -
  note D = verdict_invD [OF assms(1)]
  have "inv c'"
    using get_returns [OF D(1), of t k] assms(2) by auto
  then show "verdict_inv inv holds key (sv\<lparr>sv_cache := c'\<rparr>)"
    using D(2) [OF get_keeps [OF D(1) assms(2)]] D(3,4) by (simp add: verdict_inv_def)
  show "(k, m, None) \<in> set (sv_scans sv)" if "r = Some m"
    using get_hit [OF D(1)] assms(2) D(2) that by blast
qed

lemma inv_cache_put:
  assumes "verdict_inv inv holds key sv" "put t k m (sv_cache sv) = Some c'" "(k, m, None) \<in> set (sv_scans sv)"
  shows "verdict_inv inv holds key (sv\<lparr>sv_cache := c'\<rparr>)"
proof -
  note D = verdict_invD [OF assms(1)]
  have "inv c'"
    using put_returns [OF D(1), of t k m] assms(2) by auto
  moreover have "(k', m', None) \<in> set (sv_scans sv)" if "holds c' k' m' x" for k' m' x
    using put_replaces [OF D(1) assms(2)] put_keeps [OF D(1) assms(2)] that assms(3) D(2) by (cases "k' = k") blast+
  ultimately show ?thesis
    using assms(1) by (simp add: verdict_inv_def)
qed

lemma inv_cache_flush: "verdict_inv inv holds key sv \<Longrightarrow> verdict_inv inv holds key (sv\<lparr>sv_cache := flush (sv_cache sv)\<rparr>)"
  using flush_empties by (simp add: verdict_inv_def)

lemma first_lookup_verdict:
  assumes "first_lookup get r (key c) t c sv = Some sv'" "verdict_inv inv holds key sv"
  shows "verdict_inv inv holds key sv'"
proof (cases "gone (sv_flights sv) c \<or> rq_lease_err r \<noteq> None")
  case True
  then show ?thesis
    using assms by (auto simp: first_lookup_def split: if_splits)
next
  case False
  then obtain cache r' where got: "get t (key c) (sv_cache sv) = Some (cache, r')"
    using assms(1) by (auto simp: first_lookup_def split: option.splits)
  note inv' = inv_cache_get [OF assms(2) got]
  show ?thesis
  proof (cases r')
    case None
    then show ?thesis
      using assms(1) False got inv'(1) by (auto simp: first_lookup_def)
  next
    case (Some m)
    then have sv': "sv' = put_at c (Answered (found m) ''hit'') (sv\<lparr>sv_cache := cache, sv_cacheHit := sv_cacheHit sv + 1\<rparr>)"
      using assms(1) False got by (simp add: first_lookup_def)
    have "verdict_inv inv holds key (sv\<lparr>sv_cache := cache, sv_cacheHit := sv_cacheHit sv + 1\<rparr>)"
      using inv'(1) by simp
    then show ?thesis
      unfolding sv' by (rule verdict_inv_put_at) (use inv'(2) Some in simp)
  qed
qed

lemma fn_recheck_verdict:
  assumes "fn_recheck get key t c sv = Some sv'" "verdict_inv inv holds key sv"
  shows "verdict_inv inv holds key sv'"
proof -
  obtain cache r where got: "get t (key c) (sv_cache sv) = Some (cache, r)"
    using assms(1) by (auto simp: fn_recheck_def split: option.splits)
  note inv' = inv_cache_get [OF assms(2) got]
  show ?thesis
  proof (cases r)
    case None
    then show ?thesis
      using assms(1) got inv'(1) by (auto simp: fn_recheck_def)
  next
    case (Some m)
    then have "group_step key (FnReturn c (found m) False) (sv\<lparr>sv_cache := cache\<rparr>) = Some sv'"
      using assms(1) got by (simp add: fn_recheck_def)
    then show ?thesis
      by (rule verdict_inv_return [OF _ inv'(1)]) (use inv'(2) Some in simp)
  qed
qed

lemma fn_store_verdict:
  assumes "fn_store put key t m c sv = Some sv'" "verdict_inv inv holds key sv" "(key c, m, None) \<in> set (sv_scans sv)"
  shows "verdict_inv inv holds key sv'"
proof -
  obtain cache where cache: "put t (key c) m (sv_cache sv) = Some cache"
    "group_step key (FnReturn c (found m) False) (put_at c (InGroup FnCheck) (sv\<lparr>sv_cache := cache\<rparr>)) = Some sv'"
    using assms(1) by (auto simp: fn_store_def split: option.splits)
  show ?thesis
    by (rule verdict_inv_return [OF cache(2)]) (use inv_cache_put [OF assms(2) cache(1) assms(3)] assms(3) in simp_all)
qed

lemma dispatch_step_verdict:
  assumes step: "dispatch_step \<lparr>s_get = get, s_put = put, s_flush = flush\<rparr> slots req key e sv = Some sv'"
    and inv: "verdict_inv inv holds key sv"
  shows "verdict_inv inv holds key sv'"
proof (cases e)
  case (EvLookup t c)
  then show ?thesis
    using step first_lookup_verdict [OF _ inv] by (simp split: if_splits)
next
  case (EvGroup ge)
  then have "group_step key ge sv = Some sv'" "moves_freely ge sv"
    using step by (simp_all split: if_splits)
  then show ?thesis
    using verdict_inv_group [OF inv] by (cases ge) auto
next
  case (EvRecheck t c)
  then show ?thesis
    using step fn_recheck_verdict [OF _ inv] by (simp split: if_splits)
next
  case (EvAcquire c)
  then show ?thesis
    using step inv fn_busy_verdict [OF _ inv] by (auto simp: fn_acquire_def take_slot_def split: if_splits)
next
  case (EvWait c a)
  then show ?thesis
    using step inv fn_busy_verdict [OF _ inv] by (cases a) (auto simp: take_slot_def split: if_splits)
next
  case (EvHeld c)
  have "verdict_inv inv holds key sv'" if "group_step key (FnStarted c) (put_at c (InGroup FnScan) sv) = Some sv'"
    using verdict_inv_group [OF _ that] inv by simp
  moreover have "verdict_inv inv holds key sv'"
    if "group_step key (FnReturn c (failed ErrCtx) True) (put_at c (InGroup FnCheck) (sv\<lparr>sem_used := sem_used sv - 1\<rparr>)) = Some sv'"
    using verdict_inv_return [OF that] inv by simp
  ultimately show ?thesis
    using step EvHeld by (simp add: fn_held_def split: if_splits)
next
  case (EvScanned c run)
  then show ?thesis
    using step fn_scanned_verdict [OF _ inv] by (simp split: if_splits)
next
  case (EvStore t c)
  then obtain m where at: "at_fn c sv = Some (FnStore m)" and run: "fn_store put key t m c sv = Some sv'"
    using step by (auto split: option.splits fn_pc.splits)
  have "sv_at sv c = InGroup (FnStore m)"
    using at by (auto simp: at_fn_def split: pc.splits look_pc.splits)
  then show ?thesis
    using fn_store_verdict [OF run inv] verdict_invD(4) [OF inv, of c] by simp
next
  case (EvAnswer c)
  then show ?thesis
    using step inv traced_answer [OF verdict_invD(3) [OF inv], of c]
    by (auto simp: answer_def split: if_splits pc.splits)
next
  case EvReload
  then show ?thesis
    using step inv_cache_flush [OF inv] by simp
qed

lemma dispatch_run_verdict:
  "dispatch_run \<lparr>s_get = get, s_put = put, s_flush = flush\<rparr> slots req key es sv = Some sv' \<Longrightarrow>
   verdict_inv inv holds key sv \<Longrightarrow> verdict_inv inv holds key sv'"
  by (induction es arbitrary: sv) (auto split: option.splits dest: dispatch_step_verdict)

end

section \<open>The leader's place\<close>

text \<open>What the scan function of a request sees of its flight: whether it leads one, and whether that
  flight's start has been signalled. Signalling it twice would close a closed channel.\<close>

definition fn_of :: "'e pc \<Rightarrow> nat option" where
  "fn_of p = (case p of AtFn f \<Rightarrow> Some f | _ \<Rightarrow> None)"

definition fn_view :: "'e flightGroup \<Rightarrow> nat \<Rightarrow> bool option" where
  "fn_view g c = map_option (\<lambda>f. started (flights g f)) (fn_of (pcs g c))"

lemma fn_of_work: "fn_of p = Some f \<Longrightarrow> work_of p = Some f"
  by (cases p) (simp_all add: fn_of_def)

lemma fn_view_keep:
  assumes "\<And>d. fn_of (pcs g' d) = fn_of (pcs g d)"
    "\<And>d f. fn_of (pcs g d) = Some f \<Longrightarrow> started (flights g' f) = started (flights g f)"
  shows "fn_view g' = fn_view g"
proof
  fix d
  show "fn_view g' d = fn_view g d"
    using assms [of d] by (cases "fn_of (pcs g d)") (simp_all add: fn_view_def)
qed

lemma fn_view_move:
  assumes "\<And>d. d \<noteq> c \<Longrightarrow> pcs g' d = pcs g d"
    "\<And>d f. d \<noteq> c \<Longrightarrow> fn_of (pcs g d) = Some f \<Longrightarrow> started (flights g' f) = started (flights g f)"
  shows "fn_view g' = (fn_view g)(c := fn_view g' c)"
proof
  fix d
  show "fn_view g' d = ((fn_view g)(c := fn_view g' c)) d"
    using assms(1) [of d] assms(2) [of d] by (cases "d = c"; cases "fn_of (pcs g d)") (simp_all add: fn_view_def)
qed

fun fn_effect :: "(nat \<Rightarrow> string) \<Rightarrow> 'e flightGroup \<Rightarrow> 'e flight_event \<Rightarrow> (nat \<Rightarrow> bool option) \<Rightarrow> nat \<Rightarrow> bool option" where
  "fn_effect key g (Enter c) v = (if fm g (key c) = None then v(c := Some False) else v)"
| "fn_effect key g (FnStarted c) v = v(c := Some True)"
| "fn_effect key g (FnReturn c r ab) v = v(c := None)"
| "fn_effect key g (FnPanic c) v = v(c := None)"
| "fn_effect key g _ v = v"

lemma fn_view_step:
  assumes "step key e g = Some g'" "flight_inv key g"
  shows "fn_view g' = fn_effect key g e (fn_view g)"
proof -
  note D = core_invD [OF assms(2) [unfolded flight_inv_def]]
  have below: "f < next_flight g" if "fn_of (pcs g d) = Some f" for d f
    using D(4) fn_of_work [OF that] by blast
  have sole: "d = c" if "fn_of (pcs g d) = Some f" "work_of (pcs g c) = Some f" for c d f
    using D(6) [OF fn_of_work [OF that(1)] that(2)] .
  note ev = flight_simps fn_of_def
  from assms(1) show ?thesis
  proof (cases rule: step_cases)
    case (lead c)
    have "fn_view g' = (fn_view g)(c := fn_view g' c)"
      by (rule fn_view_move) (use lead below in \<open>auto simp: flight_simps\<close>)
    moreover have "fn_view g' c = Some False"
      using lead by (simp add: fn_view_def ev)
    ultimately show ?thesis
      using lead by simp
  next
    case (fn_started c f)
    have "fn_view g' = (fn_view g)(c := fn_view g' c)"
      by (rule fn_view_move) (use fn_started sole [of _ f c] in \<open>auto simp: flight_simps\<close>)
    moreover have "fn_view g' c = Some True"
      using fn_started by (simp add: fn_view_def ev)
    ultimately show ?thesis
      using fn_started by simp
  next
    case (fn_return c f r ab)
    have "fn_view g' = (fn_view g)(c := fn_view g' c)"
      by (rule fn_view_move) (use fn_return in \<open>auto simp: flight_simps\<close>)
    moreover have "fn_view g' c = None"
      using fn_return by (simp add: fn_view_def ev)
    ultimately show ?thesis
      using fn_return by simp
  next
    case (fn_panic c f)
    have "fn_view g' = (fn_view g)(c := fn_view g' c)"
      by (rule fn_view_move) (use fn_panic in \<open>auto simp: flight_simps\<close>)
    moreover have "fn_view g' c = None"
      using fn_panic by (simp add: fn_view_def ev)
    ultimately show ?thesis
      using fn_panic by simp
  qed (simp_all, (rule fn_view_keep; auto simp: ev split: option.splits)+)
qed

fun late :: "fn_pc \<Rightarrow> bool" where
  "late FnScan = True"
| "late (FnStore m) = True"
| "late _ = False"

fun slot_pc :: "look_pc \<Rightarrow> bool" where
  "slot_pc (InGroup FnHeld) = True"
| "slot_pc (InGroup FnScan) = True"
| "slot_pc _ = False"

fun place_ok :: "bool option \<Rightarrow> look_pc \<Rightarrow> bool" where
  "place_ok (Some st) (InGroup p) = (st \<longrightarrow> late p)"
| "place_ok (Some st) _ = False"
| "place_ok None p = (\<not> slot_pc p)"

definition lead_inv :: "(nat \<Rightarrow> string) \<Rightarrow> 'c server \<Rightarrow> bool" where
  "lead_inv key sv \<longleftrightarrow> flight_inv key (sv_flights sv) \<and> (\<forall>c. place_ok (fn_view (sv_flights sv) c) (sv_at sv c))"

lemma lead_invD: "lead_inv key sv \<Longrightarrow> flight_inv key (sv_flights sv)" "lead_inv key sv \<Longrightarrow> place_ok (fn_view (sv_flights sv) c) (sv_at sv c)"
  by (simp_all add: lead_inv_def)

lemma at_fnD: "at_fn c sv = Some p \<Longrightarrow> sv_at sv c = InGroup p \<and> (\<exists>f. pcs (sv_flights sv) c = AtFn f)"
  by (auto simp: at_fn_def split: pc.splits look_pc.splits)

lemma at_fn_view: "at_fn c sv = Some p \<Longrightarrow> \<exists>st. fn_view (sv_flights sv) c = Some st"
  using at_fnD by (fastforce simp: fn_view_def fn_of_def)

lemma lead_cong: "sv_flights sv' = sv_flights sv \<Longrightarrow> sv_at sv' = sv_at sv \<Longrightarrow> lead_inv key sv' = lead_inv key sv"
  by (simp add: lead_inv_def)

lemma lead_put_at:
  assumes "lead_inv key sv" "place_ok (fn_view (sv_flights sv) c) p"
  shows "lead_inv key (put_at c p sv)"
  using assms by (simp add: lead_inv_def)

lemma group_stepD:
  assumes "group_step key e sv = Some sv'"
  obtains g where "step key e (sv_flights sv) = Some g" "sv' = sv\<lparr>sv_flights := g\<rparr>"
  using assms by (auto simp: group_step_def)

lemma lead_group:
  assumes step: "group_step key e sv1 = Some sv'" and fi: "flight_inv key (sv_flights sv1)"
    and ok: "\<And>c. place_ok (fn_effect key (sv_flights sv1) e (fn_view (sv_flights sv1)) c) (sv_at sv1 c)"
  shows "lead_inv key sv'"
proof -
  obtain g where g: "step key e (sv_flights sv1) = Some g" "sv' = sv1\<lparr>sv_flights := g\<rparr>"
    using step by (rule group_stepD)
  show ?thesis
    using ok flight_inv_step [OF g(1) fi] by (simp add: g(2) lead_inv_def fn_view_step [OF g(1) fi])
qed

lemma lead_return:
  assumes "lead_inv key sv" "group_step key (FnReturn c r ab) sv1 = Some sv'" "sv_flights sv1 = sv_flights sv"
    "sv_at sv1 = (sv_at sv)(c := p)" "\<not> slot_pc p"
  shows "lead_inv key sv'"
  by (rule lead_group [OF assms(2)]) (use assms lead_invD [OF assms(1)] in simp_all)

lemma lead_free:
  assumes "lead_inv key sv" "group_step key e sv = Some sv'" "moves_freely e sv"
  shows "lead_inv key sv'"
proof (rule lead_group [OF assms(2)])
  note D = lead_invD [OF assms(1)]
  show "flight_inv key (sv_flights sv)"
    by (rule D)
  show "place_ok (fn_effect key (sv_flights sv) e (fn_view (sv_flights sv)) c) (sv_at sv c)" for c
  proof (cases e)
    case (Enter d)
    then show ?thesis
      using D(2) [of c] assms(3) by (cases "sv_at sv d") simp_all
  qed (use D(2) [of c] assms(3) in simp_all)
qed

lemma lead_busy:
  assumes "fn_busy r key c sv = Some sv'" "lead_inv key sv" "\<not> slot_pc (sv_at sv c)"
  shows "lead_inv key sv'"
  using assms(1) unfolding fn_busy_def by (rule lead_return [OF assms(2), where p = "sv_at sv c"]) (use assms(3) in simp_all)

lemma lead_scanned:
  assumes "fn_scanned key c run sv = Some sv'" "lead_inv key sv" "fn_view (sv_flights sv) c = Some st"
  shows "lead_inv key sv'"
  using assms(1)
proof (cases rule: fn_scanned_cases)
  case (ok m)
  then show ?thesis
    using assms(2,3) by (simp add: lead_inv_def)
next
  case (err m e n)
  show ?thesis
    by (rule lead_return [OF assms(2) err(2), where p = "InGroup FnCheck"]) simp_all
qed

lemma lead_step:
  assumes step: "dispatch_step so slots req key e sv = Some sv'" and inv: "lead_inv key sv"
  shows "lead_inv key sv'"
proof -
  note D = lead_invD [OF inv]
  show ?thesis
  proof (cases e)
    case (EvLookup t c)
    then have at: "sv_at sv c = AtLookup" and run: "first_lookup (s_get so) (req c) (key c) t c sv = Some sv'"
      using step by (auto split: if_splits)
    then have none: "fn_view (sv_flights sv) c = None"
      using D(2) [of c] by (cases "fn_view (sv_flights sv) c") simp_all
    obtain p sv1 where "sv' = put_at c p sv1" "\<not> slot_pc p" "sv_at sv1 = sv_at sv" "sv_flights sv1 = sv_flights sv"
      using run by (auto simp: first_lookup_def split: if_splits option.splits)
    then show ?thesis
      using D none by (simp add: lead_inv_def)
  next
    case (EvGroup ge)
    then show ?thesis
      using step lead_free [OF inv] by (simp split: if_splits)
  next
    case (EvRecheck t c)
    then have at: "sv_at sv c = InGroup FnCheck" "at_fn c sv = Some FnCheck" and run: "fn_recheck (s_get so) key t c sv = Some sv'"
      using step at_fnD by (auto split: if_splits)
    have "lead_inv key (put_at c (InGroup FnAcquire) (sv\<lparr>sv_cache := cache, sv_cacheMiss := n\<rparr>))" for cache n
      using at D at_fn_view [OF at(2)] D(2) [of c] by (auto simp: lead_inv_def)
    moreover have "lead_inv key sv'" if "group_step key (FnReturn c r ab) (sv\<lparr>sv_cache := cache\<rparr>) = Some sv'" for r ab cache
      by (rule lead_return [OF inv that, where p = "InGroup FnCheck"]) (use at in \<open>simp_all add: fun_upd_idem\<close>)
    ultimately show ?thesis
      using run by (auto simp: fn_recheck_def split: option.splits)
  next
    case (EvAcquire c)
    then have at: "sv_at sv c = InGroup FnAcquire" "at_fn c sv = Some FnAcquire" and run: "fn_acquire slots (req c) key c sv = Some sv'"
      using step at_fnD by (auto split: if_splits)
    show ?thesis
      using run at at_fn_view [OF at(2)] lead_busy [OF _ inv, of "req c" c] D D(2) [of c]
      by (auto simp: fn_acquire_def take_slot_def lead_inv_def split: if_splits)
  next
    case (EvWait c a)
    then have at: "sv_at sv c = InGroup FnWait" "at_fn c sv = Some FnWait" and run: "fn_wait slots (req c) key c a sv = Some sv'"
      using step at_fnD by (auto split: if_splits)
    show ?thesis
      using run at at_fn_view [OF at(2)] lead_busy [OF _ inv, of "req c" c] D D(2) [of c]
      by (cases a) (auto simp: take_slot_def lead_inv_def split: if_splits)
  next
    case (EvHeld c)
    then have run: "fn_held key c sv = Some sv'"
      using step by (auto split: if_splits)
    have "lead_inv key sv'" if "group_step key (FnStarted c) (put_at c (InGroup FnScan) sv) = Some sv'"
      by (rule lead_group [OF that]) (use D in simp_all)
    then show ?thesis
      using run lead_return [OF inv, of c "failed ErrCtx" True _ sv' "InGroup FnCheck"]
      by (auto simp: fn_held_def split: if_splits)
  next
    case (EvScanned c run)
    then show ?thesis
      using step lead_scanned [OF _ inv] at_fn_view [of c sv FnScan] by (auto split: if_splits)
  next
    case (EvStore t c)
    then obtain m cache where
      "group_step key (FnReturn c (found m) False) (put_at c (InGroup FnCheck) (sv\<lparr>sv_cache := cache\<rparr>)) = Some sv'"
      using step by (auto simp: fn_store_def split: option.splits fn_pc.splits)
    then show ?thesis
      by (rule lead_return [OF inv, where p = "InGroup FnCheck"]) simp_all
  next
    case (EvAnswer c)
    then have "answer c sv = Some sv'"
      using step by (simp split: if_splits)
    moreover from this have "fn_view (sv_flights sv) c = None"
      by (auto simp: answer_def fn_view_def fn_of_def split: pc.splits)
    ultimately show ?thesis
      using D by (auto simp: answer_def lead_inv_def split: pc.splits if_splits)
  next
    case EvReload
    then show ?thesis
      using step inv by (auto simp: lead_inv_def)
  qed
qed

lemma pcs_idle [simp]: "pcs idle c = AtStart"
  by (simp add: idle_def)

lemma lead_inv_new: "lead_inv key (new_server cache)"
  by (simp add: lead_inv_def new_server_def flight_inv_idle fn_view_def fn_of_def)

section \<open>Scan slots\<close>

definition holding :: "'c server \<Rightarrow> nat set" where
  "holding sv = {c. slot_pc (sv_at sv c)}"

definition slots_inv :: "nat \<Rightarrow> 'c server \<Rightarrow> bool" where
  "slots_inv slots sv \<longleftrightarrow> finite (holding sv) \<and> sem_used sv = card (holding sv) \<and> sem_used sv \<le> slots"

lemma holding_put_at:
  "holding (put_at c p sv) = (if slot_pc p then insert c (holding sv) else holding sv - {c})"
  by (auto simp: holding_def)

lemma slots_inv_cong:
  "sv_at sv' = sv_at sv \<Longrightarrow> sem_used sv' = sem_used sv \<Longrightarrow> slots_inv slots sv' = slots_inv slots sv"
  by (simp add: slots_inv_def holding_def)

lemma slots_move:
  assumes "slots_inv slots sv" "slot_pc (sv_at sv c) = slot_pc p"
  shows "slots_inv slots (put_at c p sv)"
proof -
  have "holding (put_at c p sv) = holding sv"
    using assms(2) by (auto simp: holding_put_at holding_def)
  then show ?thesis
    using assms(1) by (simp add: slots_inv_def)
qed

lemma slots_take:
  assumes "slots_inv slots sv" "\<not> slot_pc (sv_at sv c)" "sem_used sv < slots"
  shows "slots_inv slots (take_slot c sv)"
proof -
  have "holding (take_slot c sv) = insert c (holding sv)"
    by (auto simp: take_slot_def holding_put_at) (auto simp: holding_def)
  moreover have "c \<notin> holding sv"
    using assms(2) by (simp add: holding_def)
  ultimately show ?thesis
    using assms(1,3) by (simp add: slots_inv_def take_slot_def)
qed

lemma slots_give:
  assumes "slots_inv slots sv" "slot_pc (sv_at sv c)" "\<not> slot_pc p" "sv_at sv' = sv_at sv" "sem_used sv' = sem_used sv - 1"
  shows "slots_inv slots (put_at c p sv')"
proof -
  have "holding (put_at c p sv') = holding sv - {c}"
    using assms(3) by (auto simp: holding_def assms(4) split: if_splits)
  moreover have "c \<in> holding sv"
    using assms(2) by (simp add: holding_def)
  moreover have "finite (holding sv)" "sem_used sv = card (holding sv)" "sem_used sv - 1 \<le> slots"
    using assms(1) by (auto simp: slots_inv_def)
  ultimately show ?thesis
    unfolding slots_inv_def put_at_simps assms(5) by (metis card_Diff_singleton finite_Diff)
qed

lemma slots_group: "group_step key e sv = Some sv' \<Longrightarrow> slots_inv slots sv \<Longrightarrow> slots_inv slots sv'"
  using slots_inv_cong [of sv' sv] by (auto simp: group_step_def)

lemma slots_busy: "fn_busy r key c sv = Some sv' \<Longrightarrow> slots_inv slots sv \<Longrightarrow> slots_inv slots sv'"
  unfolding fn_busy_def by (erule slots_group) (simp add: slots_inv_def holding_def)

lemma slots_scanned:
  assumes "fn_scanned key c run sv = Some sv'" "slots_inv slots sv" "slot_pc (sv_at sv c)"
  shows "slots_inv slots sv'"
  using assms(1)
proof (cases rule: fn_scanned_cases)
  case (ok m)
  show ?thesis
    unfolding ok(2) by (rule slots_give [OF assms(2,3)]) simp_all
next
  case (err m e n)
  show ?thesis
    by (rule slots_group [OF err(2)], rule slots_give [OF assms(2,3)]) simp_all
qed

lemma slots_step:
  assumes step: "dispatch_step so slots req key e sv = Some sv'" and inv: "slots_inv slots sv" and lead: "lead_inv key sv"
  shows "slots_inv slots sv'"
proof (cases e)
  case (EvLookup t c)
  then have at: "\<not> slot_pc (sv_at sv c)" and run: "first_lookup (s_get so) (req c) (key c) t c sv = Some sv'"
    using step by (auto split: if_splits)
  obtain p sv1 where "sv' = put_at c p sv1" "\<not> slot_pc p" "sv_at sv1 = sv_at sv" "sem_used sv1 = sem_used sv"
    using run by (auto simp: first_lookup_def split: if_splits option.splits)
  then show ?thesis
    using slots_move [of slots sv1 c p] slots_inv_cong [of sv1 sv] at inv by simp
next
  case (EvGroup ge)
  then show ?thesis
    using step inv slots_group [of key ge sv sv' slots] by (auto split: if_splits)
next
  case (EvRecheck t c)
  then have at: "sv_at sv c = InGroup FnCheck" and run: "fn_recheck (s_get so) key t c sv = Some sv'"
    using step at_fnD by (auto split: if_splits)
  have "slots_inv slots (put_at c (InGroup FnAcquire) (sv\<lparr>sv_cache := cache, sv_cacheMiss := n\<rparr>))" for cache n
    using slots_move [of slots "sv\<lparr>sv_cache := cache, sv_cacheMiss := n\<rparr>" c] at inv by (simp add: slots_inv_def holding_def)
  moreover have "slots_inv slots sv'" if "group_step key ge (sv\<lparr>sv_cache := cache\<rparr>) = Some sv'" for ge cache
    by (rule slots_group [OF that]) (use inv in \<open>simp add: slots_inv_def holding_def\<close>)
  ultimately show ?thesis
    using run by (auto simp: fn_recheck_def split: option.splits)
next
  case (EvAcquire c)
  then have "sv_at sv c = InGroup FnAcquire" "fn_acquire slots (req c) key c sv = Some sv'"
    using step at_fnD by (auto split: if_splits)
  then show ?thesis
    using inv slots_busy [of "req c" key c sv sv' slots] slots_take [OF inv, of c] slots_move [OF inv, of c] by (auto simp: fn_acquire_def split: if_splits)
next
  case (EvWait c a)
  then have "sv_at sv c = InGroup FnWait" "fn_wait slots (req c) key c a sv = Some sv'"
    using step at_fnD by (auto split: if_splits)
  then show ?thesis
    using inv slots_busy [of "req c" key c sv sv' slots] slots_take [OF inv, of c] by (cases a) (auto split: if_splits)
next
  case (EvHeld c)
  then have at: "sv_at sv c = InGroup FnHeld" and run: "fn_held key c sv = Some sv'"
    using step at_fnD by (auto split: if_splits)
  have "slots_inv slots (put_at c (InGroup FnScan) sv)"
    using slots_move [OF inv] at by simp
  moreover have "slots_inv slots (put_at c (InGroup FnCheck) (sv\<lparr>sem_used := sem_used sv - 1\<rparr>))"
    by (rule slots_give [OF inv]) (use at in simp_all)
  ultimately show ?thesis
    using run by (auto simp: fn_held_def split: if_splits dest: slots_group)
next
  case (EvScanned c run)
  then have "sv_at sv c = InGroup FnScan" "fn_scanned key c run sv = Some sv'"
    using step at_fnD by (auto split: if_splits)
  then show ?thesis
    using slots_scanned [OF _ inv] by simp
next
  case (EvStore t c)
  then obtain m where at: "sv_at sv c = InGroup (FnStore m)" and run: "fn_store (s_put so) key t m c sv = Some sv'"
    using step by (auto split: option.splits fn_pc.splits dest: at_fnD)
  have "slots_inv slots (put_at c (InGroup FnCheck) (sv\<lparr>sv_cache := cache\<rparr>))" for cache
    using slots_move [of slots "sv\<lparr>sv_cache := cache\<rparr>" c] at inv by (simp add: slots_inv_def holding_def)
  then show ?thesis
    using run by (auto simp: fn_store_def split: option.splits dest: slots_group)
next
  case (EvAnswer c)
  then have run: "answer c sv = Some sv'"
    using step by (simp split: if_splits)
  then have "fn_view (sv_flights sv) c = None"
    by (auto simp: answer_def fn_view_def fn_of_def split: pc.splits)
  then have at: "\<not> slot_pc (sv_at sv c)"
    using lead_invD(2) [OF lead, of c] by simp
  obtain p sv1 where "sv' = put_at c p sv1" "\<not> slot_pc p" "sv_at sv1 = sv_at sv" "sem_used sv1 = sem_used sv"
    using run by (auto simp: answer_def split: if_splits pc.splits)
  then show ?thesis
    using slots_move [of slots sv1 c p] slots_inv_cong [of sv1 sv] at inv by simp
next
  case EvReload
  then show ?thesis
    using step inv slots_inv_cong [of sv' sv] by auto
qed

lemma slots_inv_new: "slots_inv slots (new_server cache)"
  by (simp add: slots_inv_def holding_def new_server_def)

section \<open>Runs\<close>





lemma run_lead_slots:
  "dispatch_run so slots req key es sv = Some sv' \<Longrightarrow> lead_inv key sv \<Longrightarrow> slots_inv slots sv \<Longrightarrow>
   lead_inv key sv' \<and> slots_inv slots sv'"
  by (induction es arbitrary: sv) (auto split: option.splits dest: lead_step slots_step)

section \<open>What the engine reports\<close>











definition cache_ops :: "codec \<Rightarrow> redis_io \<Rightarrow> verdict_cache store_ops" where
  "cache_ops cd io = \<lparr>s_get = (\<lambda>t k c. cache_Get cd io t t k c), s_put = cache_Put cd io, s_flush = cache_Flush\<rparr>"

lemma cache_run_verdict:
  assumes "CacheMaxBytes cfg < 2 ^ 63" "dispatch_run (cache_ops cd io) slots req key evs (new_server (NewCache cfg None)) = Some sv"
  shows "verdict_inv cache_ok cache_holds key sv"
  using assms(2) unfolding cache_ops_def
  by (rule vcache.dispatch_run_verdict) (intro verdict_inv_new NewCache_ok NewCache_empty assms(1))

section \<open>Progress of the scan function\<close>

fun fn_event :: "nat \<Rightarrow> dispatch_event \<Rightarrow> bool" where
  "fn_event c (EvRecheck t d) = (d = c)"
| "fn_event c (EvAcquire d) = (d = c)"
| "fn_event c (EvWait d a) = (d = c)"
| "fn_event c (EvHeld d) = (d = c)"
| "fn_event c (EvScanned d run) = (d = c)"
| "fn_event c (EvStore t d) = (d = c)"
| "fn_event c _ = False"

fun fn_rank :: "fn_pc option \<Rightarrow> nat" where
  "fn_rank (Some FnCheck) = 6"
| "fn_rank (Some FnAcquire) = 5"
| "fn_rank (Some FnWait) = 4"
| "fn_rank (Some FnHeld) = 3"
| "fn_rank (Some FnScan) = 2"
| "fn_rank (Some (FnStore m)) = 1"
| "fn_rank None = 0"

lemma group_return:
  assumes "at_fn c sv = Some p" "sv_flights sv1 = sv_flights sv"
  shows "\<exists>sv'. group_step key (FnReturn c r ab) sv1 = Some sv'"
  using assms at_fnD [OF assms(1)] by (auto simp: group_step_def)

lemma return_leaves: "group_step key (FnReturn c r ab) sv1 = Some sv' \<Longrightarrow> at_fn c sv' = None"
  by (auto simp: group_step_def at_fn_def fn_return_def goto_def set_flight_def split: pc.splits)

lemma busy_leaves: "fn_busy r key c sv = Some sv' \<Longrightarrow> at_fn c sv' = None"
  unfolding fn_busy_def by (rule return_leaves)

lemma at_fn_put_at: "at_fn c sv = Some p \<Longrightarrow> sv_flights sv1 = sv_flights sv \<Longrightarrow> at_fn c (put_at c (InGroup q) sv1) = Some q"
  using at_fnD by (fastforce simp: at_fn_def)

lemma fn_rank_decreases:
  assumes step: "dispatch_step so slots req key e sv = Some sv'" and e: "fn_event c e"
  shows "fn_rank (at_fn c sv') < fn_rank (at_fn c sv)"
proof (cases e)
  case (EvRecheck t d)
  then have at: "at_fn c sv = Some FnCheck" and run: "fn_recheck (s_get so) key t c sv = Some sv'"
    using step e by (auto split: if_splits)
  then show ?thesis
    by (auto simp: fn_recheck_def at_fn_put_at [OF at] dest!: return_leaves split: option.splits)
next
  case (EvAcquire d)
  then have at: "at_fn c sv = Some FnAcquire" and run: "fn_acquire slots (req c) key c sv = Some sv'"
    using step e by (auto split: if_splits)
  then show ?thesis
    by (auto simp: fn_acquire_def take_slot_def at_fn_put_at [OF at] dest!: busy_leaves split: if_splits)
next
  case (EvWait d a)
  then have at: "at_fn c sv = Some FnWait" and run: "fn_wait slots (req c) key c a sv = Some sv'"
    using step e by (auto split: if_splits)
  then show ?thesis
    by (cases a) (auto simp: take_slot_def at_fn_put_at [OF at] dest!: busy_leaves split: if_splits)
next
  case (EvHeld d)
  then have at: "at_fn c sv = Some FnHeld" and run: "fn_held key c sv = Some sv'"
    using step e by (auto split: if_splits)
  have "at_fn c sv' = Some FnScan" if "group_step key (FnStarted c) (put_at c (InGroup FnScan) sv) = Some sv'"
    using that at_fnD [OF at] by (auto simp: group_step_def at_fn_def fn_started_def notify_def set_flight_def split: if_splits)
  then show ?thesis
    using run at by (auto simp: fn_held_def dest!: return_leaves split: if_splits)
next
  case (EvScanned d run)
  then have at: "at_fn c sv = Some FnScan" and "fn_scanned key c run sv = Some sv'"
    using step e by (auto split: if_splits)
  from this(2) show ?thesis
    using at by (cases rule: fn_scanned_cases) (auto simp: at_fn_put_at [OF at] dest!: return_leaves)
next
  case (EvStore t d)
  then show ?thesis
    using step e by (auto simp: fn_store_def dest!: return_leaves split: option.splits fn_pc.splits)
qed (use e in simp_all)

lemma held_moves:
  assumes "lead_inv key sv" "at_fn c sv = Some FnHeld"
  shows "\<exists>sv'. fn_held key c sv = Some sv'"
proof (cases "gone (sv_flights sv) c")
  case True
  then show ?thesis
    by (auto simp: fn_held_def intro!: group_return [OF assms(2)])
next
  case False
  obtain f where f: "pcs (sv_flights sv) c = AtFn f" "sv_at sv c = InGroup FnHeld"
    using at_fnD [OF assms(2)] by blast
  then have "\<not> started (flights (sv_flights sv) f)"
    using lead_invD(2) [OF assms(1), of c] by (simp add: fn_view_def fn_of_def)
  then show ?thesis
    using False f by (simp add: fn_held_def group_step_def)
qed

context verdict_store
begin

lemma fn_can_move:
  assumes inv: "verdict_inv inv holds key sv" and lead: "lead_inv key sv" and at: "at_fn c sv = Some p"
  shows "\<exists>e sv'. fn_event c e \<and> dispatch_step \<lparr>s_get = get, s_put = put, s_flush = flush\<rparr> slots req key e sv = Some sv'"
proof (cases p)
  case FnCheck
  obtain c' r where got: "get 0 (key c) (sv_cache sv) = Some (c', r)"
    using get_returns [OF verdict_invD(1) [OF inv]] by blast
  have "\<exists>sv'. fn_recheck get key 0 c sv = Some sv'"
    using got by (cases r) (auto simp: fn_recheck_def intro!: group_return [OF at])
  then show ?thesis
    using at FnCheck by (intro exI [of _ "EvRecheck 0 c"]) simp
next
  case FnAcquire
  have "\<exists>sv'. fn_acquire slots (req c) key c sv = Some sv'"
    by (auto simp: fn_acquire_def fn_busy_def intro!: group_return [OF at])
  then show ?thesis
    using at FnAcquire by (intro exI [of _ "EvAcquire c"]) simp
next
  case FnWait
  then show ?thesis
    using at by (intro exI [of _ "EvWait c TimerFired"]) (auto simp: fn_busy_def intro!: group_return [OF at])
next
  case FnHeld
  then show ?thesis
    using at held_moves [OF lead] by (intro exI [of _ "EvHeld c"]) simp
next
  case FnScan
  then show ?thesis
    using at by (intro exI [of _ "EvScanned c (Inr (NilSlice, None))"]) (simp add: fn_scanned_def)
next
  case (FnStore m)
  obtain c' where "put 0 (key c) m (sv_cache sv) = Some c'"
    using put_returns [OF verdict_invD(1) [OF inv]] by blast
  then show ?thesis
    using at FnStore by (intro exI [of _ "EvStore 0 c"]) (auto simp: fn_store_def intro!: group_return [OF at])
qed

end

section \<open>Properties\<close>

definition ex_req :: scan_request where
  "ex_req = \<lparr>rq_partition = '''', rq_meta = zeroScanMeta, rq_fingerprint = ''fp'', rq_lease_err = None, rq_onStarted = False\<rparr>"

definition ex_result_R :: "Match gslice" where
  "ex_result_R = lit [\<lparr>Rule = ''R'', Namespace = ''N'', Tags = NilSlice, Meta = None\<rparr>]"

definition ex_run :: "dispatch_event list" where
  "ex_run = [EvLookup 0 0, EvLookup 0 1, EvGroup (Enter 0), EvGroup (Enter 1), EvRecheck 0 0, EvAcquire 0, EvHeld 0]"

definition ex_finish :: "dispatch_event list" where
  "ex_finish = [EvScanned 0 (Inr (ex_result_R, None)), EvStore 0 0, EvGroup (FinishLock 0), EvGroup (FinishClose 0), EvGroup (SeeDone 1), EvAnswer 1]"

definition ex_server :: "dispatch_event list \<Rightarrow> verdict_cache server" where
  "ex_server evs = the (dispatch_run (cache_ops off_codec off_io) 1 (\<lambda>_. ex_req) (\<lambda>c. scan_key (\<lambda>_. 0) ex_req) evs
     (new_server (NewCache \<lparr>CacheTTL = 0, CacheSize = 2, CacheMaxBytes = 4096\<rparr> None)))"

lemmas dispatch_eval = ex_server_def ex_run_def ex_finish_def cache_ops_def new_server_def NewCache_def first_lookup_def ex_req_def
  put_at_def group_step_def fn_recheck_def fn_acquire_def take_slot_def fn_held_def fn_scanned_def fn_store_def answer_def at_fn_def
  found_def idle_def flight_simps

lemma ex_run_ok: "dispatch_run (cache_ops off_codec off_io) 1 (\<lambda>_. ex_req) (\<lambda>c. scan_key (\<lambda>_. 0) ex_req) ex_run
    (new_server (NewCache \<lparr>CacheTTL = 0, CacheSize = 2, CacheMaxBytes = 4096\<rparr> None)) = Some (ex_server ex_run)"
  by (simp add: dispatch_eval)





text \<open>(C10) Scan slots are never leaked or oversubscribed: in every interleaving the number of taken
  slots is the number of requests that hold one, all of them inside their scan function, and it
  never exceeds the configured number.\<close>

theorem scan_slots_balanced:
  assumes "dispatch_run so slots req key evs (new_server cache) = Some sv"
  shows "finite (holding sv) \<and> sem_used sv = card (holding sv) \<and> sem_used sv \<le> slots \<and>
    (\<forall>c. c \<in> holding sv \<longrightarrow> (\<exists>f. pcs (sv_flights sv) c = AtFn f))"
proof -
  note inv = run_lead_slots [OF assms lead_inv_new slots_inv_new]
  have "\<exists>f. pcs (sv_flights sv) c = AtFn f" if "slot_pc (sv_at sv c)" for c
    using lead_invD(2) [OF conjunct1 [OF inv], of c] that
    by (cases "pcs (sv_flights sv) c") (simp_all add: fn_view_def fn_of_def)
  then show ?thesis
    using inv by (simp add: slots_inv_def holding_def)
qed

theorem scan_slots_balanced_witness:
  "sem_used (ex_server ex_run) = card (holding (ex_server ex_run)) \<and> sem_used (ex_server ex_run) = 1"
proof -
  have "sem_used (ex_server ex_run) = 1"
    by (simp add: dispatch_eval)
  then show ?thesis
    using scan_slots_balanced [OF ex_run_ok] by simp
qed

text \<open>(C11) A scan function is never stuck, and ends. In every interleaving a leading request has a step of its
  own that can be taken (in particular it never signals the start of its flight twice, which would
  panic), and each of its steps brings it closer to its end.\<close>

theorem leader_never_stuck:
  assumes cfg: "CacheMaxBytes cfg < 2 ^ 63"
    and run: "dispatch_run (cache_ops cd io) slots req key evs (new_server (NewCache cfg None)) = Some sv"
    and at: "pcs (sv_flights sv) c = AtFn f"
  shows "(\<exists>e sv'. fn_event c e \<and> dispatch_step (cache_ops cd io) slots req key e sv = Some sv') \<and>
    (\<forall>e sv'. fn_event c e \<longrightarrow> dispatch_step (cache_ops cd io) slots req key e sv = Some sv' \<longrightarrow>
       fn_rank (at_fn c sv') < fn_rank (at_fn c sv))"
proof -
  have lead: "lead_inv key sv"
    using run_lead_slots [OF run lead_inv_new slots_inv_new] by simp
  obtain p where "at_fn c sv = Some p"
    using lead_invD(2) [OF lead, of c] at by (cases "sv_at sv c") (simp_all add: fn_view_def fn_of_def at_fn_def)
  then show ?thesis
    using vcache.fn_can_move [OF cache_run_verdict [OF cfg run] lead] fn_rank_decreases unfolding cache_ops_def by metis
qed

theorem leader_never_stuck_witness:
  "pcs (sv_flights (ex_server ex_run)) 0 = AtFn 0 \<and>
   (\<exists>e sv'. fn_event 0 e \<and> dispatch_step (cache_ops off_codec off_io) 1 (\<lambda>_. ex_req) (\<lambda>c. scan_key (\<lambda>_. 0) ex_req) e (ex_server ex_run) = Some sv')"
proof -
  have at: "pcs (sv_flights (ex_server ex_run)) 0 = AtFn 0"
    by (simp add: dispatch_eval)
  show ?thesis
    using leader_never_stuck [OF _ ex_run_ok at] at by simp
qed

end
