(* ===== verification/Wire_Input.thy ===== *)
theory Wire_Input
  imports Strix_Prelude
begin

text \<open>
  The standard-library readers the network front ends are written against: a \<^verbatim>\<open>bufio.Reader\<close>
  over a connection, \<^verbatim>\<open>io.ReadFull\<close>, \<^verbatim>\<open>strconv.ParseInt\<close> and \<^verbatim>\<open>strings.Split\<close>. A connection is what
  it will still deliver together with the error every read gives once that is used up. Each reader
  returns the input that is left, and has a lemma that says how much it consumed.
\<close>

datatype io_err = EOF | UnexpectedEOF | NetErr string

record wire =
  w_in :: string
  w_end :: io_err

definition ReadByte :: "wire \<Rightarrow> io_err + char \<times> wire" where
  "ReadByte r = (case w_in r of [] \<Rightarrow> Inl (w_end r) | b # bs \<Rightarrow> Inr (b, r\<lparr>w_in := bs\<rparr>))"

definition ReadFull :: "nat \<Rightarrow> wire \<Rightarrow> io_err + string \<times> wire" where
  "ReadFull n r =
     (if n \<le> length (w_in r) then Inr (take n (w_in r), r\<lparr>w_in := drop n (w_in r)\<rparr>)
      else Inl (if w_end r = EOF \<and> w_in r \<noteq> [] then UnexpectedEOF else w_end r))"

text \<open>
  \<^verbatim>\<open>ReadSlice\<close> with a buffer of the given size: up to and including the delimiter, or a full buffer
  without it, or what is left with the error of the connection. \<^verbatim>\<open>NewReaderSize\<close> never makes a buffer of
  less than 16 bytes.
\<close>

definition buffer_size :: "nat \<Rightarrow> nat" where
  "buffer_size n = max n 16"

fun find_index :: "('a \<Rightarrow> bool) \<Rightarrow> 'a list \<Rightarrow> nat option" where
  "find_index P [] = None"
| "find_index P (x # xs) = (if P x then Some 0 else map_option Suc (find_index P xs))"

datatype slice_end = SliceDelim | ErrBufferFull | SliceErr io_err

definition ReadSlice :: "nat \<Rightarrow> char \<Rightarrow> wire \<Rightarrow> string \<times> slice_end \<times> wire" where
  "ReadSlice n delim r =
     (let b = buffer_size n
      in case find_index (\<lambda>c. c = delim) (take b (w_in r)) of
           Some i \<Rightarrow> (take (Suc i) (w_in r), SliceDelim, r\<lparr>w_in := drop (Suc i) (w_in r)\<rparr>)
         | None \<Rightarrow>
             if b \<le> length (w_in r) then (take b (w_in r), ErrBufferFull, r\<lparr>w_in := drop b (w_in r)\<rparr>)
             else (w_in r, SliceErr (w_end r), r\<lparr>w_in := []\<rparr>))"

text \<open>\<^verbatim>\<open>strconv.ParseInt\<close> to 64 bits, for bases up to 16; any error is \<open>None\<close>.\<close>

definition ParseUint :: "nat \<Rightarrow> string \<Rightarrow> nat option" where
  "ParseUint b s =
     (if s \<noteq> [] \<and> list_all (\<lambda>c. case digit_val c of None \<Rightarrow> False | Some d \<Rightarrow> d < b) s then Some (radix_val b s) else None)"

definition ParseInt :: "nat \<Rightarrow> string \<Rightarrow> int option" where
  "ParseInt b s =
     (let neg = (s \<noteq> [] \<and> hd s = CHR ''-'');
          ds = (if s \<noteq> [] \<and> (hd s = CHR ''-'' \<or> hd s = CHR ''+'') then tl s else s)
      in case ParseUint b ds of
           None \<Rightarrow> None
         | Some n \<Rightarrow> if neg then (if n \<le> 2 ^ 63 then Some (- int n) else None)
                     else if n < 2 ^ 63 then Some (int n) else None)"

text \<open>\<^verbatim>\<open>strings.Split\<close> at a byte, \<^verbatim>\<open>strings.Cut\<close> and \<^verbatim>\<open>strings.IndexByte\<close> as a cut.\<close>

fun split_at :: "char \<Rightarrow> string \<Rightarrow> string list" where
  "split_at d [] = [[]]"
| "split_at d (c # cs) = (if c = d then [] # split_at d cs else (case split_at d cs of p # ps \<Rightarrow> (c # p) # ps | [] \<Rightarrow> [[c]]))"

definition Cut :: "char \<Rightarrow> string \<Rightarrow> (string \<times> string) option" where
  "Cut d s = (case find_index (\<lambda>c. c = d) s of None \<Rightarrow> None | Some i \<Rightarrow> Some (take i s, drop (Suc i) s))"

section \<open>Positions\<close>

lemma find_index_Some:
  "find_index P xs = Some i \<longleftrightarrow> i < length xs \<and> P (xs ! i) \<and> (\<forall>j < i. \<not> P (xs ! j))"
proof (induction xs arbitrary: i)
  case (Cons x xs)
  show ?case
  proof (cases i)
    case (Suc j)
    then show ?thesis
      using Cons.IH [of j] by (auto simp: All_less_Suc2)
  qed simp
qed simp

lemma find_index_None: "find_index P xs = None \<longleftrightarrow> (\<forall>x \<in> set xs. \<not> P x)"
  by (induction xs) auto

lemma find_index_stop: "(\<forall>x \<in> set xs. \<not> P x) \<Longrightarrow> P y \<Longrightarrow> find_index P (xs @ y # ys) = Some (length xs)"
  by (induction xs) auto

lemma Cut_stop: "d \<notin> set xs \<Longrightarrow> Cut d (xs @ d # ys) = Some (xs, ys)"
proof -
  assume "d \<notin> set xs"
  then have "find_index (\<lambda>c. c = d) (xs @ d # ys) = Some (length xs)"
    by (intro find_index_stop) auto
  then show ?thesis
    by (simp add: Cut_def)
qed

lemma Cut_Some: "Cut d s = Some (a, b) \<Longrightarrow> s = a @ d # b \<and> d \<notin> set a"
  using id_take_nth_drop [of "length a" s]
  by (auto simp: Cut_def find_index_Some in_set_conv_nth split: option.splits)

lemma Cut_None: "Cut d s = None \<longleftrightarrow> d \<notin> set s"
  using find_index_None [of "\<lambda>c. c = d" s] by (cases "find_index (\<lambda>c. c = d) s") (auto simp: Cut_def)

section \<open>What readers consume\<close>

lemma ReadFull_Inr:
  "ReadFull n r = Inr (bs, r') \<longleftrightarrow> n \<le> length (w_in r) \<and> bs = take n (w_in r) \<and> r' = r\<lparr>w_in := drop n (w_in r)\<rparr>"
  by (auto simp: ReadFull_def)

lemma ReadFull_exact [simp]: "ReadFull (length bs) \<lparr>w_in = bs @ rest, w_end = e\<rparr> = Inr (bs, \<lparr>w_in = rest, w_end = e\<rparr>)"
  by (simp add: ReadFull_def)

lemma buffer_size_pos [simp]: "0 < buffer_size n"
  by (simp add: buffer_size_def)

lemma ReadSlice_cases:
  assumes "ReadSlice n delim r = (frag, err, r')"
  obtains (line) l where "err = SliceDelim" "frag = l @ [delim]" "delim \<notin> set l" "w_in r = l @ delim # w_in r'" "w_end r' = w_end r"
  | (full) "err = ErrBufferFull" "delim \<notin> set frag" "length frag = buffer_size n" "w_in r = frag @ w_in r'" "w_end r' = w_end r"
  | (fail) "err = SliceErr (w_end r)" "delim \<notin> set frag" "frag = w_in r" "length frag < buffer_size n" "w_in r' = []" "w_end r' = w_end r"
proof (cases "find_index (\<lambda>c. c = delim) (take (buffer_size n) (w_in r))")
  case None
  then have dl: "delim \<notin> set (take (buffer_size n) (w_in r))"
    by (auto simp: find_index_None)
  show thesis
  proof (cases "buffer_size n \<le> length (w_in r)")
    case True
    then have f: "frag = take (buffer_size n) (w_in r)" "err = ErrBufferFull" "r' = r\<lparr>w_in := drop (buffer_size n) (w_in r)\<rparr>"
      using assms None by (simp_all add: ReadSlice_def Let_def)
    show thesis
      by (rule full) (use True dl in \<open>simp_all add: f\<close>)
  next
    case False
    then have f: "frag = w_in r" "err = SliceErr (w_end r)" "r' = r\<lparr>w_in := []\<rparr>"
      using assms None by (simp_all add: ReadSlice_def Let_def)
    show thesis
      by (rule fail) (use False dl in \<open>simp_all add: f\<close>)
  qed
next
  case (Some i)
  then have i: "i < length (w_in r)" "w_in r ! i = delim" "\<forall>j < i. w_in r ! j \<noteq> delim"
    by (auto simp: find_index_Some)
  then have dl: "delim \<notin> set (take i (w_in r))"
    by (auto simp: in_set_conv_nth)
  have w: "take i (w_in r) @ delim # drop (Suc i) (w_in r) = w_in r"
    using id_take_nth_drop [OF i(1)] i(2) by simp
  have f: "err = SliceDelim" "frag = take i (w_in r) @ [delim]" "r' = r\<lparr>w_in := drop (Suc i) (w_in r)\<rparr>"
    using assms Some i by (auto simp: ReadSlice_def Let_def take_Suc_conv_app_nth)
  show thesis
    by (rule line [OF f(1,2) dl]) (simp_all add: f(3) w)
qed

lemma ReadSlice_full_shorter: "ReadSlice n d r = (frag, ErrBufferFull, r') \<Longrightarrow> length (w_in r') < length (w_in r)"
proof -
  assume "ReadSlice n d r = (frag, ErrBufferFull, r')"
  then show ?thesis
    by (cases rule: ReadSlice_cases) (use buffer_size_pos [of n] in auto)
qed

section \<open>Numbers\<close>

lemma ParseUint_nat_radix: "2 \<le> b \<Longrightarrow> b \<le> 16 \<Longrightarrow> ParseUint b (nat_radix b n) = Some n"
proof -
  assume b: "2 \<le> b" "b \<le> 16"
  have "case digit_val c of None \<Rightarrow> False | Some d \<Rightarrow> d < b" if "c \<in> set (nat_radix b n)" for c
    using that b
  proof (induction b n rule: nat_radix.induct)
    case (1 b n)
    have "n mod b < b" "n mod b < 16"
      using 1(3,4) mod_less_divisor [of b n] by linarith+
    then show ?case
      using 1 by (cases "n < b") (auto simp: nat_radix.simps [of b n])
  qed
  moreover have "nat_radix b n \<noteq> []"
    by (subst nat_radix.simps) simp
  ultimately show ?thesis
    using b by (simp add: ParseUint_def list_all_iff)
qed

lemma nat_radix_visible: "2 \<le> b \<Longrightarrow> b \<le> 16 \<Longrightarrow> list_all visible (nat_radix b n)"
proof -
  assume b: "2 \<le> b" "b \<le> 16"
  have "visible (digit_char d)" if "d < 16" for d
    using that by (auto simp: visible_def digit_char_def)
  then show ?thesis
    using nat_radix_chars [OF b] by (auto simp: list_all_iff)
qed

lemma ParseInt_nat_radix: "2 \<le> b \<Longrightarrow> b \<le> 16 \<Longrightarrow> n < 2 ^ 63 \<Longrightarrow> ParseInt b (nat_radix b n) = Some (int n)"
proof -
  assume b: "2 \<le> b" "b \<le> 16" and n: "n < 2 ^ 63"
  have "hd (nat_radix b n) \<noteq> CHR ''-''" "hd (nat_radix b n) \<noteq> CHR ''+''" if "nat_radix b n \<noteq> []"
    using nat_radix_char_ge [OF b, of "hd (nat_radix b n)" n] that by auto
  then show ?thesis
    using ParseUint_nat_radix [OF b] n by (auto simp: ParseInt_def Let_def)
qed

lemma nat_radix_length: "2 \<le> b \<Longrightarrow> n < b ^ k \<Longrightarrow> length (nat_radix b n) \<le> max 1 k"
proof (induction k arbitrary: n)
  case 0
  then show ?case
    by (subst nat_radix.simps) simp
next
  case (Suc k)
  show ?case
  proof (cases "n < b")
    case True
    then show ?thesis
      by (subst nat_radix.simps) simp
  next
    case False
    then have "k \<noteq> 0"
      using Suc.prems by (cases k) auto
    moreover have "n div b < b ^ k"
      using Suc.prems by (simp add: less_mult_imp_div_less mult.commute)
    ultimately show ?thesis
      using Suc.IH [of "n div b"] Suc.prems False by (subst nat_radix.simps) simp
  qed
qed

end
