(* ===== verification/Icap_Wire.thy ===== *)
theory Icap_Wire
  imports Wire_Input "HOL-Library.AList"
begin

text \<open>
  The readers of the ICAP front end, \<^verbatim>\<open>src/internal/mailstrix/icap.go\<close>: the bounded line reader, the
  bounded header block, the Encapsulated header, chunk extensions and the chunked body. The
  readers work on attacker bytes, so the lemmas are about every input: what they accept, how much they keep, and
  that they end. Index expressions that could panic have a branch of their own.
\<close>

datatype icap_err = ErrEncapsulated | ErrBodyTooLarge | ErrChunkExtension | ErrLineTooLong | ErrTooManyHeaders
  | ErrHeadTooLarge | ErrMalformed string | ErrIO io_err | IndexPanic

abbreviation (input) LF :: char where "LF \<equiv> CHR 0x0A"
abbreviation (input) CR :: char where "CR \<equiv> CHR 0x0D"
abbreviation (input) TAB :: char where "TAB \<equiv> CHR 0x09"

definition maxICAPChunkHeaderLine :: nat where "maxICAPChunkHeaderLine = 256"
definition maxICAPHeaderLine :: nat where "maxICAPHeaderLine = 8192"
definition maxICAPHeaderCount :: nat where "maxICAPHeaderCount = 128"
definition maxICAPHeaderBytes :: nat where "maxICAPHeaderBytes = 65536"
definition icapChunkReadStep :: nat where "icapChunkReadStep = 65536"

section \<open>Lines\<close>

definition trim_cr :: "string \<Rightarrow> string" where
  "trim_cr s = rev (dropWhile (\<lambda>c. c = CR) (rev s))"

text \<open>The loop of \<^verbatim>\<open>readBoundedLine\<close> with the fragments accumulated so far.\<close>

function line_loop :: "nat \<Rightarrow> nat \<Rightarrow> string \<Rightarrow> wire \<Rightarrow> (icap_err + string) \<times> wire" where
  "line_loop n limit acc r =
     (case ReadSlice n LF r of (frag, err, r') \<Rightarrow>
        let content = length acc + length frag - (if err = SliceDelim then 1 else 0)
        in if content > limit then (Inl ErrLineTooLong, r')
           else case err of
                  SliceDelim \<Rightarrow> (Inr (trim_cr (acc @ butlast frag)), r')
                | SliceErr e \<Rightarrow> (Inl (ErrIO e), r')
                | ErrBufferFull \<Rightarrow> line_loop n limit (acc @ frag) r')"
  by pat_completeness auto

termination
  by (relation "measure (\<lambda>(n, limit, acc, r). length (w_in r))") (auto dest: ReadSlice_full_shorter sym)

declare line_loop.simps [simp del]

definition readBoundedLine :: "nat \<Rightarrow> nat \<Rightarrow> wire \<Rightarrow> (icap_err + string) \<times> wire" where
  "readBoundedLine n limit r = line_loop n limit [] r"

definition readICAPChunkHeaderLine :: "nat \<Rightarrow> wire \<Rightarrow> (icap_err + string) \<times> wire" where
  "readICAPChunkHeaderLine n r = readBoundedLine n maxICAPChunkHeaderLine r"

text \<open>What the line reader is meant to do, without buffers.\<close>

definition line_spec :: "nat \<Rightarrow> wire \<Rightarrow> icap_err + string \<times> string" where
  "line_spec limit r =
     (case Cut LF (w_in r) of
        Some (l, rest) \<Rightarrow> if length l \<le> limit then Inr (trim_cr l, rest) else Inl ErrLineTooLong
      | None \<Rightarrow> if length (w_in r) \<le> limit then Inl (ErrIO (w_end r)) else Inl ErrLineTooLong)"

lemma line_spec_long:
  assumes "LF \<notin> set p" "limit < length p"
  shows "line_spec limit \<lparr>w_in = p @ s, w_end = e\<rparr> = Inl ErrLineTooLong"
proof (cases "Cut LF (p @ s)")
  case (Some q)
  obtain l rest where q: "q = (l, rest)"
    by fastforce
  have "p @ s = l @ LF # rest"
    using Cut_Some [of LF "p @ s" l rest] Some q by simp
  then have "\<not> length l < length p"
    using assms(1) by (metis append_Cons_eq_iff in_set_conv_nth nth_append nth_append_length)
  then show ?thesis
    using Some q assms(2) by (simp add: line_spec_def)
qed (use assms(2) in \<open>simp add: line_spec_def\<close>)

lemma line_loop_spec:
  "LF \<notin> set acc \<Longrightarrow>
   (case line_spec limit \<lparr>w_in = acc @ w_in r, w_end = w_end r\<rparr> of
      Inl e \<Rightarrow> fst (line_loop n limit acc r) = Inl e
    | Inr (l, rest) \<Rightarrow> line_loop n limit acc r = (Inr l, \<lparr>w_in = rest, w_end = w_end r\<rparr>))"
proof (induction n limit acc r rule: line_loop.induct)
  case (1 n limit acc r)
  obtain frag err r' where rs: "ReadSlice n LF r = (frag, err, r')"
    by (metis prod_cases3)
  show ?case
    using rs
  proof (cases rule: ReadSlice_cases)
    case (line l)
    have "Cut LF (acc @ l @ LF # w_in r') = Some (acc @ l, w_in r')"
      using Cut_stop [of LF "acc @ l" "w_in r'"] 1(2) line by simp
    then show ?thesis
      using line rs by (subst line_loop.simps, subst line_loop.simps) (simp add: line_spec_def)
  next
    case full
    show ?thesis
    proof (cases "length acc + length frag > limit")
      case True
      have "line_spec limit \<lparr>w_in = acc @ w_in r, w_end = w_end r\<rparr> = Inl ErrLineTooLong"
        using line_spec_long [of "acc @ frag" limit "w_in r'" "w_end r"] full 1(2) True by simp
      then show ?thesis
        using full rs True by (subst line_loop.simps) simp
    next
      case False
      then have "line_loop n limit acc r = line_loop n limit (acc @ frag) r'"
        using full rs by (subst line_loop.simps) simp
      then show ?thesis
        using 1(1) [OF rs [symmetric] refl refl] full False 1(2) by (auto split: sum.splits)
    qed
  next
    case fail
    then have "Cut LF (acc @ w_in r) = None"
      using 1(2) by (simp add: Cut_None)
    then show ?thesis
      using fail rs by (subst line_loop.simps) (simp add: line_spec_def)
  qed
qed


lemma readBoundedLine_spec:
  "case line_spec limit r of
     Inl e \<Rightarrow> fst (readBoundedLine n limit r) = Inl e
   | Inr (l, rest) \<Rightarrow> readBoundedLine n limit r = (Inr l, r\<lparr>w_in := rest\<rparr>)"
  using line_loop_spec [where acc = "[]" and limit = limit and r = r and n = n] by (cases r) (auto simp: readBoundedLine_def split: sum.splits)

lemma readBoundedLine_Inr:
  assumes "readBoundedLine n limit r = (Inr l, r')"
  shows "\<exists>raw. w_in r = raw @ LF # w_in r' \<and> LF \<notin> set raw \<and> l = trim_cr raw \<and> length raw \<le> limit \<and> w_end r' = w_end r"
  using assms readBoundedLine_spec [where limit = limit and r = r and n = n]
  by (auto simp: line_spec_def split: option.splits if_splits dest: Cut_Some)

lemma readBoundedLine_shorter: "readBoundedLine n limit r = (Inr l, r') \<Longrightarrow> length (w_in r') < length (w_in r)"
  using readBoundedLine_Inr by fastforce

lemma readBoundedLine_line:
  assumes "LF \<notin> set raw" "length raw \<le> limit"
  shows "readBoundedLine n limit \<lparr>w_in = raw @ LF # rest, w_end = e\<rparr> = (Inr (trim_cr raw), \<lparr>w_in = rest, w_end = e\<rparr>)"
  using readBoundedLine_spec [where limit = limit and r = "\<lparr>w_in = raw @ LF # rest, w_end = e\<rparr>" and n = n] assms
  by (simp add: line_spec_def Cut_stop)

section \<open>Tokens and chunk extensions\<close>

definition isHTTPTokenByte :: "char \<Rightarrow> bool" where
  "isHTTPTokenByte c \<longleftrightarrow>
     (let n = of_char c :: nat
      in (97 \<le> n \<and> n \<le> 122) \<or> (65 \<le> n \<and> n \<le> 90) \<or> (48 \<le> n \<and> n \<le> 57) \<or>
         n \<in> {33, 35, 36, 37, 38, 39, 42, 43, 45, 46, 94, 95, 96, 124, 126})"

definition isHTTPToken :: "string \<Rightarrow> bool" where
  "isHTTPToken s \<longleftrightarrow> s \<noteq> [] \<and> list_all isHTTPTokenByte s"

definition skipWhitespace :: "string \<Rightarrow> string" where
  "skipWhitespace s = dropWhile (\<lambda>c. c = CHR '' '' \<or> c = TAB) s"

abbreviation (input) QUOTE :: char where "QUOTE \<equiv> CHR 0x22"
abbreviation (input) BACKSLASH :: char where "BACKSLASH \<equiv> CHR 0x5C"

text \<open>A control byte; a tab is not one here.\<close>

definition bad_ctl :: "char \<Rightarrow> bool" where
  "bad_ctl c \<longleftrightarrow> c \<noteq> TAB \<and> ((of_char c :: nat) < 32 \<or> of_char c = (127 :: nat))"

text \<open>The inner loop over a quoted value, from behind the opening quote to behind the closing one.\<close>

fun skip_quoted :: "string \<Rightarrow> string option" where
  "skip_quoted [] = None"
| "skip_quoted (c # cs) =
     (if c = QUOTE then Some cs
      else if c = BACKSLASH
      then (case cs of [] \<Rightarrow> None | d # ds \<Rightarrow> if bad_ctl d then None else skip_quoted ds)
      else if bad_ctl c then None
      else skip_quoted cs)"

definition skip_value :: "string \<Rightarrow> string option" where
  "skip_value s =
     (if s = [] then None
      else if hd s = QUOTE then skip_quoted (tl s)
      else if takeWhile isHTTPTokenByte s = [] then None
      else Some (dropWhile isHTTPTokenByte s))"

text \<open>One extension: its name, whether it has a value, and the text after it.\<close>

definition parse_ext :: "string \<Rightarrow> (string \<times> bool \<times> string) option" where
  "parse_ext s =
     (let s2 = skipWhitespace s; name = takeWhile isHTTPTokenByte s2
      in if name = [] then None
         else (let s3 = skipWhitespace (dropWhile isHTTPTokenByte s2)
               in if s3 \<noteq> [] \<and> hd s3 = CHR ''=''
                  then map_option (\<lambda>s5. (name, True, skipWhitespace s5)) (skip_value (skipWhitespace (tl s3)))
                  else Some (name, False, s3)))"

lemma skipWhitespace_length: "length (skipWhitespace s) \<le> length s"
  by (simp add: skipWhitespace_def length_dropWhile_le)

lemma skip_quoted_length: "skip_quoted s = Some s' \<Longrightarrow> length s' < length s"
  by (induction s rule: skip_quoted.induct) (fastforce split: if_splits list.splits)+

lemma skip_value_length: "skip_value s = Some s' \<Longrightarrow> length s' \<le> length s"
  using skip_quoted_length [of "tl s" s'] length_dropWhile_le [of isHTTPTokenByte s]
  by (auto simp: skip_value_def split: if_splits)

lemma parse_ext_length: "parse_ext s = Some (name, v, s') \<Longrightarrow> length s' \<le> length s"
proof -
  assume p: "parse_ext s = Some (name, v, s')"
  define s3 where "s3 = skipWhitespace (dropWhile isHTTPTokenByte (skipWhitespace s))"
  have s3: "length s3 \<le> length s"
    unfolding s3_def by (meson le_trans length_dropWhile_le skipWhitespace_length)
  have "length (skipWhitespace s5) \<le> length s" if "skip_value (skipWhitespace (tl s3)) = Some s5" for s5
    using skip_value_length [OF that] skipWhitespace_length [of s5] skipWhitespace_length [of "tl s3"] s3 by simp
  then show ?thesis
    using p s3 by (auto simp: parse_ext_def Let_def s3_def split: if_splits)
qed

function parse_exts :: "bool \<Rightarrow> string \<Rightarrow> icap_err + bool" where
  "parse_exts hasIEOF s =
     (let s1 = skipWhitespace s
      in if s1 = [] then Inr hasIEOF
         else if hd s1 \<noteq> CHR '';'' then Inl ErrChunkExtension
         else case parse_ext (tl s1) of
                None \<Rightarrow> Inl ErrChunkExtension
              | Some (name, hasValue, s') \<Rightarrow>
                  (let h = (hasIEOF \<or> (\<not> hasValue \<and> ToLower name = ''ieof''))
                   in if s' = [] then Inr h
                      else if hd s' \<noteq> CHR '';'' then Inl ErrChunkExtension
                      else parse_exts h s'))"
  by pat_completeness auto

termination
proof (relation "measure (\<lambda>(h, s). length s)", simp)
  fix hasIEOF s s1 q name p hasValue s' h
  assume "s1 = skipWhitespace s" "s1 \<noteq> []" "parse_ext (tl s1) = Some q" "(name, p) = q" "(hasValue, s') = p"
  then have "length s' \<le> length (tl s1)" "s1 \<noteq> []" "length s1 \<le> length s"
    using parse_ext_length skipWhitespace_length by blast+
  then have "length s' < length s"
    by (cases s1) auto
  then show "((h, s'), (hasIEOF, s)) \<in> measure (\<lambda>(h, s). length s)"
    by simp
qed

declare parse_exts.simps [simp del]

definition parseICAPChunkExtensions :: "string \<Rightarrow> icap_err + bool" where
  "parseICAPChunkExtensions exts = parse_exts False exts"

section \<open>The chunked body\<close>

text \<open>The data of one chunk, read in steps.\<close>

function read_steps :: "nat \<Rightarrow> string \<Rightarrow> wire \<Rightarrow> io_err + string \<times> wire" where
  "read_steps left out r =
     (if left = 0 then Inr (out, r)
      else case ReadFull (min left icapChunkReadStep) r of
             Inl e \<Rightarrow> Inl e
           | Inr (bs, r') \<Rightarrow> read_steps (left - min left icapChunkReadStep) (out @ bs) r')"
  by pat_completeness auto

termination
  by (relation "measure (\<lambda>(left, out, r). left)") (auto simp: icapChunkReadStep_def)

declare read_steps.simps [simp del]

text \<open>The header of a chunk: its size and whether it carries \<^verbatim>\<open>ieof\<close>.\<close>

definition chunk_header :: "string \<Rightarrow> icap_err + int \<times> bool" where
  "chunk_header raw =
     (case (case find_index (\<lambda>c. c = CHR '';'') raw of
              None \<Rightarrow> Inr (raw, False)
            | Some i \<Rightarrow> (case parseICAPChunkExtensions (drop i raw) of
                           Inl e \<Rightarrow> Inl e
                         | Inr h \<Rightarrow> Inr (TrimSpace (take i raw), h))) of
        Inl e \<Rightarrow> Inl e
      | Inr (ext, hasIEOF) \<Rightarrow>
          (case ParseInt 16 (TrimSpace ext) of
             None \<Rightarrow> Inl (ErrMalformed ''bad ICAP chunk size'')
           | Some sz \<Rightarrow> if sz < 0 then Inl (ErrMalformed ''negative'') else Inr (sz, hasIEOF)))"

lemma read_steps_one:
  assumes "0 < left" "m = min left icapChunkReadStep" "m \<le> length (w_in r)"
  shows "read_steps left out r = read_steps (left - m) (out @ take m (w_in r)) (r\<lparr>w_in := drop m (w_in r)\<rparr>)"
  using assms by (subst read_steps.simps) (simp add: ReadFull_def)

lemma read_steps_enough:
  "n \<le> length (w_in r) \<Longrightarrow> read_steps n out r = Inr (out @ take n (w_in r), r\<lparr>w_in := drop n (w_in r)\<rparr>)"
proof (induction n arbitrary: out r rule: less_induct)
  case (less left)
  show ?case
  proof (cases "left = 0")
    case False
    define m where "m = min left icapChunkReadStep"
    have m: "0 < m" "m \<le> left" "m \<le> length (w_in r)"
      using False less.prems by (auto simp: m_def icapChunkReadStep_def)
    have "take m (w_in r) @ take (left - m) (drop m (w_in r)) = take left (w_in r)"
      using m(2) by (metis le_add_diff_inverse take_add)
    then show ?thesis
      using less.IH [of "left - m" "r\<lparr>w_in := drop m (w_in r)\<rparr>"] m less.prems read_steps_one [OF _ m_def m(3)] by simp
  qed (simp add: read_steps.simps)
qed

lemma read_steps_short: "length (w_in r) < n \<Longrightarrow> \<exists>e. read_steps n out r = Inl e"
proof (induction n arbitrary: out r rule: less_induct)
  case (less left)
  define m where "m = min left icapChunkReadStep"
  show ?case
  proof (cases "m \<le> length (w_in r)")
    case True
    have "0 < m" "m \<le> left"
      using less.prems by (auto simp: m_def icapChunkReadStep_def)
    then show ?thesis
      using less.IH [of "left - m" "r\<lparr>w_in := drop m (w_in r)\<rparr>"] less.prems True read_steps_one [OF _ m_def True] by simp
  next
    case False
    then show ?thesis
      using less.prems by (subst read_steps.simps) (simp add: ReadFull_def m_def)
  qed
qed

lemma read_steps_Inr:
  "read_steps n out r = Inr (out', r') \<longleftrightarrow>
     n \<le> length (w_in r) \<and> out' = out @ take n (w_in r) \<and> r' = r\<lparr>w_in := drop n (w_in r)\<rparr>"
  using read_steps_enough [of n r out] read_steps_short [of r n out] by (cases "n \<le> length (w_in r)") auto

lemma chunk_shorter:
  assumes "readICAPChunkHeaderLine n r = (Inr raw, r1)" "read_steps k out r1 = Inr (out', r2)" "readBoundedLine n m r2 = (Inr l, r3)"
  shows "length (w_in r3) < length (w_in r)"
  using readBoundedLine_shorter [OF assms(1) [unfolded readICAPChunkHeaderLine_def]] assms(2) readBoundedLine_shorter [OF assms(3)]
  by (auto simp: read_steps_Inr)

function readICAPChunkedAppend :: "nat \<Rightarrow> wire \<Rightarrow> string \<Rightarrow> int \<Rightarrow> (icap_err + string \<times> bool) \<times> wire" where
  "readICAPChunkedAppend n r out maxBytes =
     (case readICAPChunkHeaderLine n r of
        (Inl e, r1) \<Rightarrow> (Inl e, r1)
      | (Inr raw, r1) \<Rightarrow>
          (case chunk_header raw of
             Inl e \<Rightarrow> (Inl e, r1)
           | Inr (sz, hasIEOF) \<Rightarrow>
               if sz = 0
               then (case readBoundedLine n maxICAPChunkHeaderLine r1 of
                       (Inl e, r2) \<Rightarrow> if e \<noteq> ErrIO EOF then (Inl e, r2) else (Inr (out, hasIEOF), r2)
                     | (Inr l, r2) \<Rightarrow> (Inr (out, hasIEOF), r2))
               else (let used = int (length out)
                     in if used > maxBytes \<or> sz > maxBytes - used then (Inl ErrBodyTooLarge, r1)
                        else (case read_steps (nat sz) out r1 of
                                Inl e \<Rightarrow> (Inl (ErrIO e), r1\<lparr>w_in := []\<rparr>)
                              | Inr (out', r2) \<Rightarrow>
                                  (case readBoundedLine n maxICAPChunkHeaderLine r2 of
                                     (Inl e, r3) \<Rightarrow> (Inl e, r3)
                                   | (Inr l, r3) \<Rightarrow> readICAPChunkedAppend n r3 out' maxBytes)))))"
  by pat_completeness auto

termination
  by (relation "measure (\<lambda>(n, r, out, maxBytes). length (w_in r))") (auto dest: chunk_shorter sym)

declare readICAPChunkedAppend.simps [simp del]

definition readICAPChunkedBody :: "nat \<Rightarrow> wire \<Rightarrow> int \<Rightarrow> (icap_err + string \<times> bool) \<times> wire" where
  "readICAPChunkedBody n r maxBytes = readICAPChunkedAppend n r [] maxBytes"

lemma chunked_bound:
  "readICAPChunkedAppend n r out maxBytes = (Inr (body, ieof), r') \<Longrightarrow>
   \<exists>d. body = out @ d \<and> (d = [] \<or> int (length body) \<le> maxBytes)"
proof (induction n r out maxBytes rule: readICAPChunkedAppend.induct)
  case (1 n r out maxBytes)
  obtain h r1 where h: "readICAPChunkHeaderLine n r = (h, r1)"
    by fastforce
  show ?case
  proof (cases "\<exists>raw sz i. h = Inr raw \<and> chunk_header raw = Inr (sz, i) \<and> sz \<noteq> 0")
    case False
    then show ?thesis
      using 1(2) h by (subst (asm) readICAPChunkedAppend.simps) (auto split: sum.splits prod.splits if_splits)
  next
    case True
    then obtain raw sz i where raw: "h = Inr raw" "chunk_header raw = Inr (sz, i)" "sz \<noteq> 0"
      by blast
    have fits: "\<not> (int (length out) > maxBytes \<or> sz > maxBytes - int (length out))"
      using 1(2) h raw by (subst (asm) readICAPChunkedAppend.simps) (auto split: if_splits)
    obtain out' r2 where st: "read_steps (nat sz) out r1 = Inr (out', r2)"
      using 1(2) h raw fits by (subst (asm) readICAPChunkedAppend.simps) (auto simp: Let_def split: sum.splits)
    obtain l r3 where l: "readBoundedLine n maxICAPChunkHeaderLine r2 = (Inr l, r3)"
      using 1(2) h raw fits st by (subst (asm) readICAPChunkedAppend.simps) (auto simp: Let_def split: sum.splits prod.splits)
    have rest: "readICAPChunkedAppend n r3 out' maxBytes = (Inr (body, ieof), r')"
      using 1(2) h raw fits st l by (subst (asm) readICAPChunkedAppend.simps) (simp add: Let_def)
    have out': "out' = out @ take (nat sz) (w_in r1)" "int (length out') \<le> maxBytes"
      using st fits by (auto simp: read_steps_Inr)
    obtain d where "body = out' @ d" "d = [] \<or> int (length body) \<le> maxBytes"
      using 1(1) [OF h [symmetric] raw(1) raw(2) refl raw(3) refl fits st refl l [symmetric] refl rest] by blast
    then show ?thesis
      using out' by auto
  qed
qed

section \<open>Encoding a body\<close>

text \<open>What a peer sends: chunks with their sizes, and a last chunk of size 0.\<close>

definition encode_chunk :: "string \<Rightarrow> string" where
  "encode_chunk c = nat_radix 16 (length c) @ [CR, LF] @ c @ [CR, LF]"

definition encode_chunks :: "bool \<Rightarrow> string list \<Rightarrow> string" where
  "encode_chunks ieof cs = concat (map encode_chunk cs) @ (if ieof then ''0; ieof'' else ''0'') @ [CR, LF, CR, LF]"

lemma trim_cr_end: "CR \<notin> set s \<Longrightarrow> trim_cr (s @ [CR]) = s"
  by (cases s rule: rev_cases) (auto simp: trim_cr_def)

lemma hex_chars: "c \<in> set (nat_radix 16 n) \<Longrightarrow> 48 \<le> (of_char c :: nat) \<and> c \<noteq> CHR '';''"
proof -
  assume "c \<in> set (nat_radix 16 n)"
  then obtain d where "d < 16" "c = digit_char d"
    using nat_radix_chars [of 16 c n] by auto
  then have "(of_char c :: nat) = (if d < 10 then 48 + d else 87 + d)"
    by (simp add: digit_char_def)
  then show ?thesis
    using \<open>d < 16\<close> by (auto split: if_splits)
qed

lemma chunk_header_hex: "n < 2 ^ 63 \<Longrightarrow> chunk_header (nat_radix 16 n) = Inr (int n, False)"
proof -
  assume n: "n < 2 ^ 63"
  have "find_index (\<lambda>c. c = CHR '';'') (nat_radix 16 n) = None"
    using hex_chars by (auto simp: find_index_None)
  then show ?thesis
    using ParseInt_nat_radix [of 16 n] n nat_radix_visible [of 16 n] by (simp add: chunk_header_def)
qed

lemma readBoundedLine_crlf:
  assumes "LF \<notin> set s" "CR \<notin> set s" "length s < limit"
  shows "readBoundedLine n limit \<lparr>w_in = s @ CR # LF # rest, w_end = e\<rparr> = (Inr s, \<lparr>w_in = rest, w_end = e\<rparr>)"
  using readBoundedLine_line [of "s @ [CR]" limit n rest e] assms by (simp add: trim_cr_end)

lemma hex_line:
  assumes "k < 2 ^ 63"
  shows "readICAPChunkHeaderLine n \<lparr>w_in = nat_radix 16 k @ CR # LF # rest, w_end = e\<rparr> = (Inr (nat_radix 16 k), \<lparr>w_in = rest, w_end = e\<rparr>)"
proof -
  have "length (nat_radix 16 k) \<le> 16"
    using nat_radix_length [of 16 k 16] assms by (simp add: power_strict_mono)
  moreover have "LF \<notin> set (nat_radix 16 k)" "CR \<notin> set (nat_radix 16 k)"
    using hex_chars [of _ k] by fastforce+
  ultimately show ?thesis
    unfolding readICAPChunkHeaderLine_def by (intro readBoundedLine_crlf) (simp_all add: maxICAPChunkHeaderLine_def)
qed

lemma ieof_header: "chunk_header ''0; ieof'' = Inr (0, True)"
proof -
  have "parse_exts False ''; ieof'' = Inr True"
    by (subst parse_exts.simps)
      (simp add: parse_ext_def skipWhitespace_def Let_def isHTTPTokenByte_def ToLower_def lower_char_def is_upper_def)
  moreover have "find_index (\<lambda>c. c = CHR '';'') ''0; ieof'' = Some 1"
    by simp
  moreover have "TrimSpace ''0'' = ''0''"
    by (rule TrimSpace_visible) (simp add: visible_def)
  moreover have "ParseInt 16 ''0'' = Some 0"
    by (simp add: ParseInt_def ParseUint_def digit_val_def radix_val_def)
  ultimately show ?thesis
    by (simp add: chunk_header_def parseICAPChunkExtensions_def)
qed

lemma last_chunk:
  "readICAPChunkedAppend n \<lparr>w_in = (if ieof then ''0; ieof'' else ''0'') @ CR # LF # CR # LF # rest, w_end = e\<rparr> out maxBytes =
     (Inr (out, ieof), \<lparr>w_in = rest, w_end = e\<rparr>)"
proof -
  let ?h = "if ieof then ''0; ieof'' else ''0''"
  have line: "readICAPChunkHeaderLine n \<lparr>w_in = ?h @ CR # LF # CR # LF # rest, w_end = e\<rparr> = (Inr ?h, \<lparr>w_in = CR # LF # rest, w_end = e\<rparr>)"
    unfolding readICAPChunkHeaderLine_def by (rule readBoundedLine_crlf) (simp_all add: maxICAPChunkHeaderLine_def)
  have "nat_radix 16 0 = ''0''"
    by code_simp
  then have header: "chunk_header ?h = Inr (0, ieof)"
    using ieof_header chunk_header_hex [of 0] by simp
  have "readBoundedLine n maxICAPChunkHeaderLine \<lparr>w_in = [] @ CR # LF # rest, w_end = e\<rparr> = (Inr [], \<lparr>w_in = rest, w_end = e\<rparr>)"
    by (rule readBoundedLine_crlf) (simp_all add: maxICAPChunkHeaderLine_def)
  then show ?thesis
    using line header by (subst readICAPChunkedAppend.simps) simp
qed

lemma one_chunk:
  assumes "c \<noteq> []" "int (length out + length c) \<le> maxBytes" "maxBytes < 2 ^ 63"
  shows "readICAPChunkedAppend n \<lparr>w_in = encode_chunk c @ rest, w_end = e\<rparr> out maxBytes =
    readICAPChunkedAppend n \<lparr>w_in = rest, w_end = e\<rparr> (out @ c) maxBytes"
proof -
  have "int (length c) < 2 ^ 63"
    using assms(2,3) by simp
  then have len: "length c < 2 ^ 63"
    by simp
  have line: "readICAPChunkHeaderLine n \<lparr>w_in = encode_chunk c @ rest, w_end = e\<rparr> =
      (Inr (nat_radix 16 (length c)), \<lparr>w_in = c @ CR # LF # rest, w_end = e\<rparr>)"
    using hex_line [OF len] by (simp add: encode_chunk_def)
  have steps: "read_steps (length c) out \<lparr>w_in = c @ CR # LF # rest, w_end = e\<rparr> = Inr (out @ c, \<lparr>w_in = CR # LF # rest, w_end = e\<rparr>)"
    by (simp add: read_steps_Inr)
  have "readBoundedLine n maxICAPChunkHeaderLine \<lparr>w_in = [] @ CR # LF # rest, w_end = e\<rparr> = (Inr [], \<lparr>w_in = rest, w_end = e\<rparr>)"
    by (rule readBoundedLine_crlf) (simp_all add: maxICAPChunkHeaderLine_def)
  then show ?thesis
    using line steps chunk_header_hex [OF len] assms by (subst readICAPChunkedAppend.simps) simp
qed

lemma all_chunks:
  "[] \<notin> set cs \<Longrightarrow> int (length out + length (concat cs)) \<le> maxBytes \<Longrightarrow> maxBytes < 2 ^ 63 \<Longrightarrow>
   readICAPChunkedAppend n \<lparr>w_in = encode_chunks ieof cs @ rest, w_end = e\<rparr> out maxBytes =
     (Inr (out @ concat cs, ieof), \<lparr>w_in = rest, w_end = e\<rparr>)"
proof (induction cs arbitrary: out)
  case Nil
  then show ?case
    using last_chunk [of n ieof rest e out maxBytes] by (simp add: encode_chunks_def)
next
  case (Cons c cs)
  have "encode_chunks ieof (c # cs) @ rest = encode_chunk c @ encode_chunks ieof cs @ rest"
    by (simp add: encode_chunks_def)
  then show ?case
    using one_chunk [of c out maxBytes n "encode_chunks ieof cs @ rest" e] Cons.IH [of "out @ c"] Cons.prems by auto
qed

section \<open>Writing extensions\<close>







definition at_sep :: "string \<Rightarrow> bool" where
  "at_sep rest \<longleftrightarrow> rest = [] \<or> hd rest = CHR '';''"

lemma not_token [simp]: "\<not> isHTTPTokenByte (CHR '';'')" "\<not> isHTTPTokenByte (CHR ''='')" "\<not> isHTTPTokenByte (CHR '' '')"
    "\<not> isHTTPTokenByte TAB" "\<not> isHTTPTokenByte QUOTE"
  by (simp_all add: isHTTPTokenByte_def)



lemma skipWhitespace_sep [simp]: "at_sep rest \<Longrightarrow> skipWhitespace rest = rest"
  by (cases rest) (auto simp: skipWhitespace_def at_sep_def)








section \<open>The header block\<close>

type_synonym mime = "(string \<times> string list) list"

text \<open>\<^verbatim>\<open>textproto.CanonicalMIMEHeaderKey\<close> on a token.\<close>

definition canon_char :: "bool \<Rightarrow> char \<Rightarrow> char" where
  "canon_char up c =
     (let n = of_char c :: nat
      in if up \<and> 97 \<le> n \<and> n \<le> 122 then char_of (n - 32) else if \<not> up \<and> 65 \<le> n \<and> n \<le> 90 then char_of (n + 32) else c)"

fun canonical :: "bool \<Rightarrow> string \<Rightarrow> string" where
  "canonical up [] = []"
| "canonical up (c # cs) = (let c' = canon_char up c in c' # canonical (c' = CHR ''-'') cs)"

definition CanonicalMIMEHeaderKey :: "string \<Rightarrow> string" where
  "CanonicalMIMEHeaderKey k = canonical True k"

definition values_of :: "string \<Rightarrow> mime \<Rightarrow> string list" where
  "values_of k hdr = (case map_of hdr k of None \<Rightarrow> [] | Some vs \<Rightarrow> vs)"

text \<open>A continuation line is appended to the last value of the previous key; a missing value would be an
  index out of range.\<close>

definition fold_line :: "string \<Rightarrow> string \<Rightarrow> mime \<Rightarrow> icap_err + mime" where
  "fold_line lastKey line hdr =
     (let vals = values_of lastKey hdr
      in if vals = [] then Inl IndexPanic
         else Inr (AList.update lastKey (butlast vals @ [last vals @ '' '' @ TrimSpace line]) hdr))"

definition field_line :: "string \<Rightarrow> mime \<Rightarrow> icap_err + string \<times> mime" where
  "field_line line hdr =
     (case Cut (CHR '':'') line of
        None \<Rightarrow> Inl (ErrMalformed ''malformed ICAP header line'')
      | Some (key, value) \<Rightarrow>
          if \<not> isHTTPToken key then Inl (ErrMalformed ''invalid ICAP header name'')
          else (let k = CanonicalMIMEHeaderKey key
                in Inr (k, AList.update k (values_of k hdr @ [TrimSpace value]) hdr)))"

function header_loop :: "nat \<Rightarrow> wire \<Rightarrow> mime \<Rightarrow> nat \<Rightarrow> nat \<Rightarrow> string \<Rightarrow> (icap_err + mime) \<times> wire" where
  "header_loop n r hdr tot cnt lastKey =
     (case readBoundedLine n maxICAPHeaderLine r of
        (Inl e, r') \<Rightarrow> (Inl e, r')
      | (Inr line, r') \<Rightarrow>
          if line = [] then (Inr hdr, r')
          else if tot + length line > maxICAPHeaderBytes then (Inl ErrHeadTooLarge, r')
          else if hd line = CHR '' '' \<or> hd line = TAB
          then (if lastKey = [] then (Inl (ErrMalformed ''continuation without a preceding header''), r')
                else (case fold_line lastKey line hdr of
                        Inl e \<Rightarrow> (Inl e, r')
                      | Inr hdr' \<Rightarrow> header_loop n r' hdr' (tot + length line) cnt lastKey))
          else if cnt + 1 > maxICAPHeaderCount then (Inl ErrTooManyHeaders, r')
          else (case field_line line hdr of
                  Inl e \<Rightarrow> (Inl e, r')
                | Inr (k, hdr') \<Rightarrow> header_loop n r' hdr' (tot + length line) (cnt + 1) k))"
  by pat_completeness auto

termination
  by (relation "measure (\<lambda>(n, r, hdr, tot, cnt, k). length (w_in r))") (auto dest: readBoundedLine_shorter sym)

declare header_loop.simps [simp del]

definition readBoundedMIMEHeader :: "nat \<Rightarrow> wire \<Rightarrow> (icap_err + mime) \<times> wire" where
  "readBoundedMIMEHeader n r = header_loop n r [] 0 0 []"

text \<open>What a header block keeps: its keys are canonical tokens, each once and with a value.\<close>

definition mime_ok :: "mime \<Rightarrow> bool" where
  "mime_ok hdr \<longleftrightarrow> distinct (map fst hdr) \<and>
     (\<forall>(k, vs) \<in> set hdr. isHTTPToken k \<and> CanonicalMIMEHeaderKey k = k \<and> vs \<noteq> [])"

definition value_count :: "mime \<Rightarrow> nat" where
  "value_count hdr = sum_list (map (\<lambda>(k, vs). length vs) hdr)"

definition value_bytes :: "mime \<Rightarrow> nat" where
  "value_bytes hdr = sum_list (map (\<lambda>(k, vs). length (concat vs)) hdr)"

lemma sum_update:
  fixes f :: "string list \<Rightarrow> nat"
  assumes "f [] = 0" "distinct (map fst hdr)"
  shows "sum_list (map (\<lambda>(k, vs). f vs) (AList.update k vs hdr)) + f (values_of k hdr) = sum_list (map (\<lambda>(k, vs). f vs) hdr) + f vs"
  using assms(2)
proof (induction hdr)
  case (Cons x hdr)
  obtain k' vs' where x: "x = (k', vs')"
    by fastforce
  then show ?case
    using Cons by (cases "k' = k") (auto simp: values_of_def)
qed (simp add: values_of_def assms(1))

lemma values_of_in: "mime_ok hdr \<Longrightarrow> k \<in> fst ` set hdr \<Longrightarrow> values_of k hdr \<noteq> []"
  using map_of_SomeD [of hdr k] by (auto simp: mime_ok_def values_of_def map_of_eq_None_iff split: option.splits)

lemma set_update: "set (AList.update k v al) \<subseteq> insert (k, v) (set al)"
  by (induction al) auto

lemma mime_ok_update:
  assumes "mime_ok hdr" "isHTTPToken k" "CanonicalMIMEHeaderKey k = k" "vs \<noteq> []"
  shows "mime_ok (AList.update k vs hdr)"
  using assms set_update [of k vs hdr] unfolding mime_ok_def by (fastforce simp: distinct_update)

lemma of_canon_char:
  "(of_char (canon_char up c) :: nat) =
     (if up \<and> 97 \<le> (of_char c :: nat) \<and> of_char c \<le> (122 :: nat) then of_char c - 32
      else if \<not> up \<and> 65 \<le> (of_char c :: nat) \<and> of_char c \<le> (90 :: nat) then of_char c + 32 else of_char c)"
  by (auto simp: canon_char_def Let_def)

lemma canon_char_idem: "canon_char up (canon_char up c) = canon_char up c"
proof -
  have "(of_char (canon_char up (canon_char up c)) :: nat) = of_char (canon_char up c)"
    unfolding of_canon_char by auto
  then show ?thesis
    by simp
qed

lemma canon_char_token: "isHTTPTokenByte c \<Longrightarrow> isHTTPTokenByte (canon_char up c)"
proof -
  assume c: "isHTTPTokenByte c"
  let ?n = "of_char c :: nat" and ?m = "of_char (canon_char up c) :: nat"
  have "?m = ?n \<or> (65 \<le> ?m \<and> ?m \<le> 90) \<or> (97 \<le> ?m \<and> ?m \<le> 122)"
    unfolding of_canon_char by auto
  then consider "canon_char up c = c" | "65 \<le> ?m" "?m \<le> 90" | "97 \<le> ?m" "?m \<le> 122"
    by auto
  then show ?thesis
    using c by cases (simp_all add: isHTTPTokenByte_def Let_def)
qed

lemma canonical_token: "list_all isHTTPTokenByte k \<Longrightarrow> list_all isHTTPTokenByte (canonical up k)"
  by (induction k arbitrary: up) (simp_all add: Let_def canon_char_token)

lemma canonical_idem: "canonical up (canonical up k) = canonical up k"
  by (induction k arbitrary: up) (simp_all add: Let_def canon_char_idem)

lemma canonical_key: "isHTTPToken k \<Longrightarrow> isHTTPToken (CanonicalMIMEHeaderKey k)"
    "CanonicalMIMEHeaderKey (CanonicalMIMEHeaderKey k) = CanonicalMIMEHeaderKey k"
  by (cases k) (simp_all add: isHTTPToken_def CanonicalMIMEHeaderKey_def canonical_idem Let_def canon_char_token canonical_token)

text \<open>Trimming a line that starts with a blank shortens it.\<close>

lemma TrimSpace_blank:
  assumes "c = CHR '' '' \<or> c = TAB"
  shows "length (TrimSpace (c # s)) \<le> length s"
proof -
  have "[CHR '' ''] \<in> set space_runes" "[TAB] \<in> set space_runes"
    by code_simp+
  then have "[c] \<in> set space_runes"
    using assms by blast
  then have "find (\<lambda>q. q \<noteq> [] \<and> take (length q) (c # s) = q) space_runes \<noteq> None"
    by (auto simp: find_None_iff intro!: bexI [of _ "[c]"])
  then obtain q where q: "find (\<lambda>q. q \<noteq> [] \<and> take (length q) (c # s) = q) space_runes = Some q"
    by blast
  then have "q \<noteq> []"
    by (auto simp: find_Some_iff)
  then have "length (drop (length q) (c # s)) \<le> length s"
    by (cases q) simp_all
  moreover have "length (trim_runes qs t) \<le> length t" for qs t
    using trim_runes_suffix [of t qs] by (metis le_add2 length_append)
  ultimately have "length (trim_runes space_runes (c # s)) \<le> length s"
    unfolding trim_runes_Some [OF q] using le_trans by blast
  then show ?thesis
    unfolding TrimSpace_def using \<open>\<And>t qs. length (trim_runes qs t) \<le> length t\<close> by (metis le_trans length_rev)
qed

definition header_inv :: "mime \<Rightarrow> nat \<Rightarrow> nat \<Rightarrow> string \<Rightarrow> bool" where
  "header_inv hdr tot cnt lastKey \<longleftrightarrow> mime_ok hdr \<and> value_count hdr = cnt \<and> value_bytes hdr \<le> tot \<and>
     cnt \<le> maxICAPHeaderCount \<and> tot \<le> maxICAPHeaderBytes \<and> (lastKey \<noteq> [] \<longrightarrow> lastKey \<in> fst ` set hdr)"

lemma value_sums:
  assumes "mime_ok hdr"
  shows "value_count (AList.update k vs hdr) + length (values_of k hdr) = value_count hdr + length vs"
    "value_bytes (AList.update k vs hdr) + length (concat (values_of k hdr)) = value_bytes hdr + length (concat vs)"
  using sum_update [of length hdr k vs] sum_update [of "\<lambda>vs. length (concat vs)" hdr k vs] assms
  by (simp_all add: value_count_def value_bytes_def mime_ok_def)

lemma key_kept: "k' \<in> fst ` set hdr \<Longrightarrow> k' \<in> fst ` set (AList.update k vs hdr)" "k \<in> fst ` set (AList.update k vs hdr)"
  by (induction hdr) auto

lemma fold_line_inv:
  assumes inv: "header_inv hdr tot cnt lastKey" and key: "lastKey \<noteq> []" and line: "line \<noteq> []" "hd line = CHR '' '' \<or> hd line = TAB"
    and fits: "tot + length line \<le> maxICAPHeaderBytes"
  shows "\<exists>hdr'. fold_line lastKey line hdr = Inr hdr' \<and> header_inv hdr' (tot + length line) cnt lastKey"
proof -
  let ?vs = "values_of lastKey hdr" and ?l = "TrimSpace line"
  let ?new = "butlast ?vs @ [last ?vs @ '' '' @ ?l]"
  have ok: "mime_ok hdr" and mem: "lastKey \<in> fst ` set hdr"
    using inv key by (simp_all add: header_inv_def)
  have ne: "?vs \<noteq> []"
    using values_of_in [OF ok mem] .
  have k: "isHTTPToken lastKey" "CanonicalMIMEHeaderKey lastKey = lastKey"
    using ok mem by (auto simp: mime_ok_def)
  have "length ?l + 1 \<le> length line"
    using TrimSpace_blank [OF line(2), of "tl line"] line(1) by (cases line) simp_all
  moreover have "concat ?vs = concat (butlast ?vs) @ last ?vs"
    using ne by (metis append_butlast_last_id concat.simps(2) concat_append concat.simps(1) append_Nil2)
  then have "length (concat ?new) = length (concat ?vs) + 1 + length ?l"
    by simp
  moreover have "length ?new = length ?vs"
    using ne by simp
  ultimately have "header_inv (AList.update lastKey ?new hdr) (tot + length line) cnt lastKey"
    using inv value_sums [OF ok, of lastKey ?new] mime_ok_update [OF ok k, of ?new] fits key_kept(2) [of lastKey ?new hdr]
    by (simp add: header_inv_def)
  then show ?thesis
    using ne by (simp add: fold_line_def Let_def)
qed

lemma field_line_inv:
  assumes inv: "header_inv hdr tot cnt lastKey" and field: "field_line line hdr = Inr (k, hdr')"
    and fits: "tot + length line \<le> maxICAPHeaderBytes" "cnt + 1 \<le> maxICAPHeaderCount"
  shows "header_inv hdr' (tot + length line) (cnt + 1) k"
proof -
  obtain key val where kv: "Cut (CHR '':'') line = Some (key, val)" "isHTTPToken key" "k = CanonicalMIMEHeaderKey key"
    "hdr' = AList.update k (values_of k hdr @ [TrimSpace val]) hdr"
    using field by (auto simp: field_line_def Let_def split: option.splits if_splits)
  have ok: "mime_ok hdr"
    using inv by (simp add: header_inv_def)
  have "length (TrimSpace val) \<le> length line"
    using Cut_Some [OF kv(1)] length_TrimSpace [of val] by auto
  moreover have "isHTTPToken k" "CanonicalMIMEHeaderKey k = k"
    using canonical_key kv by simp_all
  ultimately show ?thesis
    using inv value_sums [OF ok, of k "values_of k hdr @ [TrimSpace val]"] mime_ok_update [OF ok] fits key_kept(2) [of k _ hdr] kv(4)
    by (simp add: header_inv_def)
qed

lemma field_line_err: "field_line line hdr \<noteq> Inl IndexPanic"
  by (auto simp: field_line_def Let_def split: option.splits)

lemma line_err: "readBoundedLine n m r \<noteq> (Inl IndexPanic, r')"
  using readBoundedLine_spec [where limit = m and r = r and n = n]
  by (auto simp: line_spec_def split: option.splits if_splits)

lemma header_loop_inv:
  "header_inv hdr tot cnt lastKey \<Longrightarrow> header_loop n r hdr tot cnt lastKey = (res, r') \<Longrightarrow>
   res \<noteq> Inl IndexPanic \<and> (\<forall>hdr'. res = Inr hdr' \<longrightarrow> (\<exists>t c k. header_inv hdr' t c k))"
proof (induction n r hdr tot cnt lastKey rule: header_loop.induct)
  case (1 n r hdr tot cnt lastKey)
  note run = 1(4) [unfolded header_loop.simps [of n r hdr tot cnt lastKey]]
  obtain h r1 where h: "readBoundedLine n maxICAPHeaderLine r = (h, r1)"
    by fastforce
  show ?case
  proof (cases h)
    case (Inl e)
    then show ?thesis
      using run h line_err [of n maxICAPHeaderLine r r1] by auto
  next
    case (Inr line)
    note hl = h [unfolded Inr]
    consider (empty) "line = []" | (large) "line \<noteq> []" "tot + length line > maxICAPHeaderBytes"
      | (cont) "line \<noteq> []" "\<not> tot + length line > maxICAPHeaderBytes" "hd line = CHR '' '' \<or> hd line = TAB"
      | (field) "line \<noteq> []" "\<not> tot + length line > maxICAPHeaderBytes" "\<not> (hd line = CHR '' '' \<or> hd line = TAB)"
      by blast
    then show ?thesis
    proof cases
      case empty
      then show ?thesis
        using run hl 1(3) by auto
    next
      case large
      then show ?thesis
        using run hl by auto
    next
      case cont
      show ?thesis
      proof (cases "lastKey = []")
        case False
        obtain hdr' where f: "fold_line lastKey line hdr = Inr hdr'" "header_inv hdr' (tot + length line) cnt lastKey"
          using fold_line_inv [OF 1(3) False cont(1,3)] cont(2) by auto
        then have "header_loop n r1 hdr' (tot + length line) cnt lastKey = (res, r')"
          using run hl cont False by simp
        then show ?thesis
          using 1(1) [OF hl [symmetric] refl cont False f(1)] f(2) by blast
      qed (use run hl cont in auto)
    next
      case field
      show ?thesis
      proof (cases "cnt + 1 > maxICAPHeaderCount \<or> (\<exists>e. field_line line hdr = Inl e)")
        case True
        then show ?thesis
          using run hl field field_line_err [of line hdr] by (auto split: if_splits)
      next
        case False
        then obtain k hdr' where f: "field_line line hdr = Inr (k, hdr')"
          by (cases "field_line line hdr") auto
        have inv: "header_inv hdr' (tot + length line) (cnt + 1) k"
          using field_line_inv [OF 1(3) f] field False by simp
        have "header_loop n r1 hdr' (tot + length line) (cnt + 1) k = (res, r')"
          using run hl field False f by simp
        then show ?thesis
          using 1(2) [OF hl [symmetric] refl field _ f refl] inv False by blast
      qed
    qed
  qed
qed

section \<open>The Encapsulated header\<close>















lemma TrimSpace_lead: "list_all visible s \<Longrightarrow> TrimSpace (CHR '' '' # s) = s"
proof -
  assume vis: "list_all visible s"
  have only: "\<forall>q \<in> set space_runes. hd q = CHR '' '' \<longrightarrow> q = [CHR '' '']" "[CHR '' ''] \<in> set space_runes"
    by code_simp+
  have "find (\<lambda>q. q \<noteq> [] \<and> take (length q) (CHR '' '' # s) = q) space_runes \<noteq> None"
    using only(2) by (auto simp: find_None_iff intro!: bexI [of _ "[CHR '' '']"])
  then obtain q where q: "find (\<lambda>q. q \<noteq> [] \<and> take (length q) (CHR '' '' # s) = q) space_runes = Some q"
    by blast
  then have qq: "q \<in> set space_runes" "q \<noteq> []" "take (length q) (CHR '' '' # s) = q"
    by (auto simp: find_Some_iff)
  then have "hd q = CHR '' ''"
    by (metis hd_take length_greater_0_conv list.sel(1))
  then have "q = [CHR '' '']"
    using only(1) qq(1) by blast
  then have "trim_runes space_runes (CHR '' '' # s) = trim_runes space_runes s"
    using trim_runes_Some [OF q] by simp
  then have "TrimSpace (CHR '' '' # s) = TrimSpace s"
    by (simp add: TrimSpace_def)
  then show ?thesis
    using vis by simp
qed











section \<open>Properties\<close>

text \<open>(C18) The buffered line reader is the unbuffered one, whatever the size of the buffer and however
  the line falls into fragments: a line of at most the limit is returned without its carriage returns
  and exactly it is consumed, a longer one is refused whether or not its end is in sight, and a connection that
  ends inside a line gives its own error.\<close>

theorem readBoundedLine_exact:
  "case line_spec limit r of
     Inl e \<Rightarrow> fst (readBoundedLine n limit r) = Inl e
   | Inr (l, rest) \<Rightarrow> readBoundedLine n limit r = (Inr l, r\<lparr>w_in := rest\<rparr>)"
  by (rule readBoundedLine_spec)

text \<open>(C17) Chunked bodies are read back as they were sent: for every division of a body into chunks
  within the limit, with or without the end-of-preview mark, the reader returns the body, appended to what
  was read before, reports the mark, and leaves the bytes of the next message untouched.\<close>

theorem chunked_body_roundtrip:
  assumes "[] \<notin> set cs" and "int (length out + length (concat cs)) \<le> maxBytes" and "maxBytes < 2 ^ 63"
  shows "readICAPChunkedAppend n \<lparr>w_in = encode_chunks ieof cs @ rest, w_end = e\<rparr> out maxBytes =
    (Inr (out @ concat cs, ieof), \<lparr>w_in = rest, w_end = e\<rparr>)"
  by (rule all_chunks [OF assms])

theorem chunked_body_roundtrip_witness:
  "readICAPChunkedAppend 4096 \<lparr>w_in = encode_chunks True [''hel'', ''lo''] @ ''next'', w_end = EOF\<rparr> ''pre-'' 9 =
    (Inr (''pre-hello'', True), \<lparr>w_in = ''next'', w_end = EOF\<rparr>)"
  using chunked_body_roundtrip [of "[''hel'', ''lo'']" "''pre-''" 9] by simp

text \<open>(C25) Whatever a client sends, the chunked reader ends, and a body it returns extends what was read
  before and is within the limit as soon as it added anything; sizes that are negative, overflow the
  allowance or are not numbers give an error.\<close>

theorem chunked_body_bounded:
  assumes "fst (readICAPChunkedAppend n r out maxBytes) = Inr (body, ieof)"
  shows "\<exists>d. body = out @ d \<and> (d = [] \<or> int (length body) \<le> maxBytes)"
  using chunked_bound [of n r out maxBytes body ieof "snd (readICAPChunkedAppend n r out maxBytes)"] assms
  by (simp add: prod_eq_iff)

theorem chunked_body_bounded_witness:
  "\<exists>d. ''pre-hello'' = ''pre-'' @ d \<and> (d = [] \<or> int (length ''pre-hello'') \<le> 9)"
proof -
  have "fst (readICAPChunkedAppend 4096 \<lparr>w_in = encode_chunks True [''hel'', ''lo''] @ [], w_end = EOF\<rparr> ''pre-'' 9) = Inr (''pre-hello'', True)"
    by (subst all_chunks) simp_all
  then show ?thesis
    by (rule chunked_body_bounded)
qed



text \<open>(C19) Every header block the reader accepts is well typed and bounded: its keys are distinct
  canonical tokens, each with at least one value, at most 128 values and 64 KiB of value text in all;
  and on no input does folding a continuation line index into a missing value.\<close>

theorem header_block_typed:
  assumes "readBoundedMIMEHeader n r = (res, r')"
  shows "res \<noteq> Inl IndexPanic \<and>
    (\<forall>hdr. res = Inr hdr \<longrightarrow> mime_ok hdr \<and> value_count hdr \<le> maxICAPHeaderCount \<and> value_bytes hdr \<le> maxICAPHeaderBytes)"
proof -
  have "header_inv [] 0 0 []"
    by (simp add: header_inv_def mime_ok_def value_count_def value_bytes_def)
  from header_loop_inv [OF this assms [unfolded readBoundedMIMEHeader_def]] show ?thesis
    by (auto simp: header_inv_def)
qed

definition ex_head :: wire where
  "ex_head = \<lparr>w_in = ''host: a'' @ LF # '' b'' @ LF # [LF], w_end = EOF\<rparr>"

theorem header_block_typed_witness:
  "mime_ok [(''Host'', [''a b''])] \<and> value_count [(''Host'', [''a b''])] \<le> maxICAPHeaderCount"
proof -
  note line = readBoundedLine_line [where limit = maxICAPHeaderLine and n = 4096 and e = EOF]
  have lines: "readBoundedLine 4096 maxICAPHeaderLine ex_head = (Inr ''host: a'', \<lparr>w_in = '' b'' @ LF # [LF], w_end = EOF\<rparr>)"
      "readBoundedLine 4096 maxICAPHeaderLine \<lparr>w_in = '' b'' @ LF # [LF], w_end = EOF\<rparr> = (Inr '' b'', \<lparr>w_in = [LF], w_end = EOF\<rparr>)"
      "readBoundedLine 4096 maxICAPHeaderLine \<lparr>w_in = [] @ LF # [], w_end = EOF\<rparr> = (Inr [], \<lparr>w_in = [], w_end = EOF\<rparr>)"
    unfolding ex_head_def by (subst line; simp add: maxICAPHeaderLine_def trim_cr_def)+
  have trim: "TrimSpace '' a'' = ''a''" "TrimSpace '' b'' = ''b''"
    by (rule TrimSpace_lead; simp add: visible_def)+
  have key: "CanonicalMIMEHeaderKey ''host'' = ''Host''" "isHTTPToken ''host''"
    by code_simp+
  have "Cut (CHR '':'') ''host: a'' = Some (''host'', '' a'')"
    by (simp add: Cut_def)
  then have field: "field_line ''host: a'' [] = Inr (''Host'', [(''Host'', [''a''])])"
    using key trim by (simp add: field_line_def values_of_def Let_def)
  have cont: "fold_line ''Host'' '' b'' [(''Host'', [''a''])] = Inr [(''Host'', [''a b''])]"
    using trim by (simp add: fold_line_def values_of_def Let_def)
  have "readBoundedMIMEHeader 4096 ex_head = header_loop 4096 \<lparr>w_in = '' b'' @ LF # [LF], w_end = EOF\<rparr> [(''Host'', [''a''])] (length ''host: a'') 1 ''Host''"
    unfolding readBoundedMIMEHeader_def using lines(1) field
    by (subst header_loop.simps) (simp add: maxICAPHeaderBytes_def maxICAPHeaderCount_def)
  also have "\<dots> = header_loop 4096 \<lparr>w_in = [LF], w_end = EOF\<rparr> [(''Host'', [''a b''])] (length ''host: a'' + length '' b'') 1 ''Host''"
    using lines(2) cont by (subst header_loop.simps) (simp add: maxICAPHeaderBytes_def)
  also have "\<dots> = (Inr [(''Host'', [''a b''])], \<lparr>w_in = [], w_end = EOF\<rparr>)"
    using lines(3) by (subst header_loop.simps) simp
  finally show ?thesis
    using header_block_typed by blast
qed



end
