(* ===== verification/Clamd_Service.thy ===== *)
theory Clamd_Service
  imports Wire_Input Scan_Dispatch
begin

text \<open>
  The clamd front end, \<^verbatim>\<open>src/internal/mailstrix/clamd.go\<close>: the command reader and the INSTREAM reader with
  its buffer, the handler of a connection and its native worker, and the life cycle of the service. The
  handler is a function of what the connection delivers and of which channel of each select is ready
  first; the life cycle is an interleaving of accept loops, handlers and workers.
\<close>

definition clamdCommandLimit :: nat where "clamdCommandLimit = 64"
definition clamdChunkLimit :: nat where "clamdChunkLimit = 1048576"

abbreviation (input) NEWLINE :: char where "NEWLINE \<equiv> CHR 0x0A"
abbreviation (input) NUL :: char where "NUL \<equiv> CHR 0x00"

section \<open>Commands\<close>

lemma ReadByte_shorter: "ReadByte r = Inr (b, r') \<Longrightarrow> length (w_in r') < length (w_in r)"
  by (auto simp: ReadByte_def split: list.splits)

function cmd_loop :: "char \<Rightarrow> string \<Rightarrow> wire \<Rightarrow> (string + string) \<times> wire" where
  "cmd_loop trm buf r =
     (case ReadByte r of
        Inl e \<Rightarrow> (Inl ''COMMAND READ ERROR'', r)
      | Inr (b, r') \<Rightarrow>
          if b = trm then (Inr buf, r')
          else if length buf = clamdCommandLimit - 2 \<or> (of_char b :: nat) < 32 \<or> (of_char b :: nat) > 126
          then (Inl ''COMMAND PARSE ERROR'', r')
          else cmd_loop trm (buf @ [b]) r')"
  by pat_completeness auto

termination
  by (relation "measure (\<lambda>(trm, buf, r). length (w_in r))") (auto dest: ReadByte_shorter)

declare cmd_loop.simps [simp del]

text \<open>The terminator, and the command or the reply that refuses it.\<close>

definition readClamdCommand :: "wire \<Rightarrow> char \<times> (string + string) \<times> wire" where
  "readClamdCommand r =
     (case ReadByte r of
        Inl e \<Rightarrow> (NEWLINE, Inl ''COMMAND READ ERROR'', r)
      | Inr (b, r') \<Rightarrow>
          if b = CHR ''z'' then (NUL, cmd_loop NUL [] r')
          else if b \<noteq> CHR ''n'' then (NEWLINE, Inl ''UNKNOWN COMMAND'', r')
          else (NEWLINE, cmd_loop NEWLINE [] r'))"

section \<open>INSTREAM\<close>

definition be_val :: "string \<Rightarrow> nat" where
  "be_val s = foldl (\<lambda>a c. a * 256 + of_char c) 0 s"

text \<open>
  The body buffer: its contents, its capacity, and the most bytes held at once so far, which a resize
  makes the old and the new capacity together. Slicing beyond the capacity would panic.
\<close>

record body_buf =
  b_data :: string
  b_cap :: int
  b_peak :: int

datatype stream_result = Body body_buf | Refused string | SlicePanic

definition grow :: "int \<Rightarrow> int \<Rightarrow> body_buf \<Rightarrow> body_buf" where
  "grow maxLen fin b =
     (if fin > b_cap b
      then (let capacity = min maxLen (max fin (max 4096 (b_cap b * 2)))
            in b\<lparr>b_cap := capacity, b_peak := max (b_peak b) (b_cap b + capacity)\<rparr>)
      else b)"

function stream_loop :: "int \<Rightarrow> body_buf \<Rightarrow> wire \<Rightarrow> stream_result \<times> wire" where
  "stream_loop maxLen b r =
     (case ReadFull 4 r of
        Inl e \<Rightarrow> (Refused ''stream: truncated stream ERROR'', r\<lparr>w_in := []\<rparr>)
      | Inr (header, r1) \<Rightarrow>
          (let n = be_val header; used = int (length (b_data b))
           in if n = 0 then (Body b, r1)
              else if int n > maxLen - used then (Refused ''INSTREAM size limit exceeded. ERROR'', r1)
              else if n > clamdChunkLimit then (Refused ''stream: chunk size limit exceeded ERROR'', r1)
              else (let b' = grow maxLen (used + int n) b
                    in if used + int n > b_cap b' then (SlicePanic, r1)
                       else (case ReadFull n r1 of
                               Inl e \<Rightarrow> (Refused ''stream: truncated stream ERROR'', r1\<lparr>w_in := []\<rparr>)
                             | Inr (bs, r2) \<Rightarrow> stream_loop maxLen (b'\<lparr>b_data := b_data b' @ bs\<rparr>) r2))))"
  by pat_completeness auto

termination
  by (relation "measure (\<lambda>(maxLen, b, r). length (w_in r))") (auto simp: ReadFull_Inr)

declare stream_loop.simps [simp del]

definition readClamdStream :: "wire \<Rightarrow> int \<Rightarrow> stream_result \<times> wire" where
  "readClamdStream r maxLen = stream_loop maxLen \<lparr>b_data = [], b_cap = 0, b_peak = 0\<rparr> r"

section \<open>Replies\<close>

definition version_byte :: "char \<Rightarrow> bool" where
  "version_byte c \<longleftrightarrow>
     (let n = of_char c :: nat
      in (97 \<le> n \<and> n \<le> 122) \<or> (65 \<le> n \<and> n \<le> 90) \<or> (48 \<le> n \<and> n \<le> 57) \<or> c \<in> {CHR ''.'', CHR ''_'', CHR ''+'', CHR ''-''})"

definition clamdVersion :: "string \<Rightarrow> string" where
  "clamdVersion v = (if v = [] then ''unknown'' else map (\<lambda>c. if version_byte c then c else CHR ''_'') (take 64 v))"

datatype serve_action = SendReply string | RunStream

definition serve :: "string \<Rightarrow> string + string \<Rightarrow> serve_action" where
  "serve version cmd =
     (case cmd of
        Inl refusal \<Rightarrow> SendReply refusal
      | Inr c \<Rightarrow>
          if c = ''PING'' then SendReply ''PONG''
          else if c = ''VERSION'' then SendReply (''Mailstrix '' @ clamdVersion version)
          else if c = ''VERSIONCOMMANDS''
          then SendReply (''Mailstrix '' @ clamdVersion version @ '' COMMANDS: PING VERSION VERSIONCOMMANDS INSTREAM'')
          else if c = ''INSTREAM'' then RunStream
          else SendReply ''UNKNOWN COMMAND'')"

text \<open>What is written for a reply, and whether it counts as an error.\<close>

definition has_suffix :: "string \<Rightarrow> string \<Rightarrow> bool" where
  "has_suffix s x \<longleftrightarrow> length x \<le> length s \<and> drop (length s - length x) s = x"

definition reply :: "string \<Rightarrow> char \<Rightarrow> string \<times> bool" where
  "reply payload trm =
     (let p = (if length payload > 255 then ''stream: internal error ERROR'' else payload)
      in (p @ [trm], has_suffix p ''ERROR'' \<and> p \<noteq> ''stream: scan failed ERROR'' \<and> p \<noteq> ''stream: busy ERROR''))"

section \<open>The native worker and the handler\<close>



datatype first_event = FirstResult | FirstStarted | QueueExpired bool | FirstForced
datatype second_event = SecondResult | ScanTimer | SecondForced

text \<open>The two selects after the worker was started, with the worker's reply: what is sent, and
  whether the scan is cancelled.\<close>

fun await :: "first_event \<Rightarrow> second_event \<Rightarrow> string \<Rightarrow> string option \<times> bool" where
  "await FirstResult s res = (Some res, False)"
| "await (QueueExpired False) s res = (Some ''stream: busy ERROR'', True)"
| "await FirstForced s res = (None, True)"
| "await f SecondResult res = (Some res, False)"
| "await f ScanTimer res = (Some ''stream: scan timed out ERROR'', False)"
| "await f SecondForced res = (None, False)"

record stream_env =
  se_deadline :: bool
  se_ctx_done :: bool
  se_admit :: bool
  se_first :: first_event
  se_second :: second_event

text \<open>
  The handler: the reply, the body handed to a worker, and whether the admission slot it took is given
  back here; a worker that was started owns the slot and gives it back itself.
\<close>

record stream_outcome =
  so_reply :: "string option"
  so_body :: "string option"
  so_cancel :: bool
  so_took :: bool
  so_released :: bool

definition stream :: "stream_env \<Rightarrow> int \<Rightarrow> wire \<Rightarrow> (string \<Rightarrow> string) \<Rightarrow> stream_outcome" where
  "stream env maxLen r worker =
     (if \<not> se_deadline env then \<lparr>so_reply = None, so_body = None, so_cancel = False, so_took = False, so_released = False\<rparr>
      else if se_ctx_done env \<or> \<not> se_admit env
      then \<lparr>so_reply = Some ''stream: busy ERROR'', so_body = None, so_cancel = False, so_took = False, so_released = False\<rparr>
      else case fst (readClamdStream r maxLen) of
             Refused e \<Rightarrow> \<lparr>so_reply = Some e, so_body = None, so_cancel = False, so_took = True, so_released = True\<rparr>
           | SlicePanic \<Rightarrow> \<lparr>so_reply = None, so_body = None, so_cancel = False, so_took = True, so_released = True\<rparr>
           | Body b \<Rightarrow>
               (case await (se_first env) (se_second env) (worker (b_data b)) of
                  (rep, cancel) \<Rightarrow>
                    \<lparr>so_reply = rep, so_body = Some (b_data b), so_cancel = cancel, so_took = True, so_released = False\<rparr>))"

section \<open>The service\<close>

record clamd =
  stopping :: bool
  accepting :: nat
  conns :: "nat set"
  slots_used :: nat
  leaving :: "nat set"
  workers :: nat
  wg :: nat
  svc_done :: bool
  forced :: bool




definition stop :: "clamd \<Rightarrow> clamd" where
  "stop c = (if stopping c then c else c\<lparr>stopping := True\<rparr>)"





section \<open>Reading a command\<close>

definition printable :: "char \<Rightarrow> bool" where
  "printable c \<longleftrightarrow> 32 \<le> (of_char c :: nat) \<and> (of_char c :: nat) \<le> 126"

lemma cmd_loop_accepts:
  "list_all printable cmd \<Longrightarrow> trm \<notin> set cmd \<Longrightarrow> length buf + length cmd \<le> clamdCommandLimit - 2 \<Longrightarrow>
   cmd_loop trm buf \<lparr>w_in = cmd @ trm # rest, w_end = e\<rparr> = (Inr (buf @ cmd), \<lparr>w_in = rest, w_end = e\<rparr>)"
proof (induction cmd arbitrary: buf)
  case Nil
  then show ?case
    by (subst cmd_loop.simps) (simp add: ReadByte_def)
next
  case (Cons c cmd)
  then show ?case
    by (subst cmd_loop.simps) (auto simp: ReadByte_def printable_def)
qed

lemma cmd_loop_Inr:
  "cmd_loop trm buf r = (Inr cmd, r') \<Longrightarrow>
   \<exists>s. cmd = buf @ s \<and> w_in r = s @ trm # w_in r' \<and> trm \<notin> set s \<and> list_all printable s \<and>
     (length buf \<le> clamdCommandLimit - 2 \<longrightarrow> length cmd \<le> clamdCommandLimit - 2)"
proof (induction trm buf r rule: cmd_loop.induct)
  case (1 trm buf r)
  note run = 1(2) [unfolded cmd_loop.simps [of trm buf r]]
  obtain b bs where "w_in r = b # bs"
    using run by (cases "w_in r") (auto simp: ReadByte_def)
  then obtain r1 where b: "ReadByte r = Inr (b, r1)" "w_in r = b # w_in r1"
    using that [of "r\<lparr>w_in := bs\<rparr>"] by (simp add: ReadByte_def)
  show ?case
  proof (cases "b = trm")
    case True
    then show ?thesis
      using run b by simp
  next
    case False
    then have ok: "\<not> (length buf = clamdCommandLimit - 2 \<or> (of_char b :: nat) < 32 \<or> (of_char b :: nat) > 126)"
      using run b by (auto split: if_splits)
    then have "cmd_loop trm (buf @ [b]) r1 = (Inr cmd, r')"
      using run b False by simp
    then obtain s where s: "cmd = (buf @ [b]) @ s" "w_in r1 = s @ trm # w_in r'" "trm \<notin> set s" "list_all printable s"
      "length (buf @ [b]) \<le> clamdCommandLimit - 2 \<longrightarrow> length cmd \<le> clamdCommandLimit - 2"
      using 1(1) [OF b(1) refl False ok] by blast
    have "printable b"
      using ok by (simp add: printable_def)
    then show ?thesis
      using s b(2) False ok by (intro exI [of _ "b # s"]) auto
  qed
qed

section \<open>The body buffer\<close>

lemma be_val_append: "be_val (s @ [c]) = be_val s * 256 + of_char c"
  by (simp add: be_val_def)

lemma be_val_bytes: "be_val (be_bytes k m) = m mod 256 ^ k"
proof (induction k arbitrary: m)
  case (Suc k)
  have "m mod 256 ^ Suc k = m div 256 mod 256 ^ k * 256 + m mod 256"
    by (simp add: mod_mult2_eq mult.commute)
  then show ?case
    using Suc by (simp add: be_val_append)
qed (simp add: be_val_def)

definition buf_ok :: "int \<Rightarrow> body_buf \<Rightarrow> bool" where
  "buf_ok maxLen b \<longleftrightarrow> int (length (b_data b)) \<le> b_cap b \<and> b_cap b \<le> maxLen \<and> b_peak b \<le> 2 * maxLen"

lemma grow_simps [simp]: "b_data (grow maxLen fin b) = b_data b"
  by (simp add: grow_def Let_def)

lemma grow_ok:
  assumes "buf_ok maxLen b" "fin \<le> maxLen"
  shows "fin \<le> b_cap (grow maxLen fin b)" "buf_ok maxLen (grow maxLen fin b)"
  using assms by (auto simp: buf_ok_def grow_def Let_def)

lemma stream_loop_ok:
  "buf_ok maxLen b \<Longrightarrow> stream_loop maxLen b r = (res, r') \<Longrightarrow>
   res \<noteq> SlicePanic \<and> (\<forall>b'. res = Body b' \<longrightarrow> buf_ok maxLen b')"
proof (induction maxLen b r rule: stream_loop.induct)
  case (1 maxLen b r)
  note run = 1(3) [unfolded stream_loop.simps [of maxLen b r]]
  show ?case
  proof (cases "ReadFull 4 r")
    case (Inl e)
    then show ?thesis
      using run by auto
  next
    case (Inr p)
    obtain header r1 where p: "p = (header, r1)"
      by fastforce
    let ?n = "be_val header" and ?used = "int (length (b_data b))"
    show ?thesis
    proof (cases "?n = 0 \<or> int ?n > maxLen - ?used \<or> ?n > clamdChunkLimit")
      case True
      then show ?thesis
        using run Inr p 1(2) by (auto simp: Let_def split: if_splits)
    next
      case False
      let ?b = "grow maxLen (?used + int ?n) b"
      note g = grow_ok [OF 1(2), of "?used + int ?n"]
      have cap: "\<not> ?used + int ?n > b_cap ?b" "buf_ok maxLen ?b"
        using g False by auto
      show ?thesis
      proof (cases "ReadFull ?n r1")
        case (Inl e)
        then show ?thesis
          using run Inr p False cap by (auto simp: Let_def)
      next
        case read: (Inr q)
        obtain bs r2 where q: "q = (bs, r2)"
          by fastforce
        have len: "length bs = ?n"
          using read q by (auto simp: ReadFull_Inr)
        have "stream_loop maxLen (?b\<lparr>b_data := b_data ?b @ bs\<rparr>) r2 = (res, r')"
          using run Inr p False cap read q by (simp add: Let_def)
        moreover have "buf_ok maxLen (?b\<lparr>b_data := b_data ?b @ bs\<rparr>)"
          using cap len by (simp add: buf_ok_def)
        ultimately show ?thesis
          using 1(1) [OF Inr p [symmetric] refl refl _ _ _ refl cap(1) read q [symmetric]] False by simp
      qed
    qed
  qed
qed



text \<open>What a client sends.\<close>

definition encode_stream :: "string list \<Rightarrow> string" where
  "encode_stream cs = concat (map (\<lambda>c. be_bytes 4 (length c) @ c) cs) @ be_bytes 4 0"

lemma read_header:
  assumes "k < 2 ^ 32"
  shows "\<exists>h. ReadFull 4 \<lparr>w_in = be_bytes 4 k @ s, w_end = e\<rparr> = Inr (h, \<lparr>w_in = s, w_end = e\<rparr>) \<and> be_val h = k"
  using ReadFull_exact [of "be_bytes 4 k" s e] be_val_bytes [of 4 k] assms by auto

lemma stream_loop_reads:
  "[] \<notin> set cs \<Longrightarrow> \<forall>c \<in> set cs. length c \<le> clamdChunkLimit \<Longrightarrow> buf_ok maxLen b \<Longrightarrow>
   int (length (b_data b) + length (concat cs)) \<le> maxLen \<Longrightarrow>
   \<exists>b'. stream_loop maxLen b \<lparr>w_in = encode_stream cs @ rest, w_end = e\<rparr> = (Body b', \<lparr>w_in = rest, w_end = e\<rparr>) \<and>
     b_data b' = b_data b @ concat cs"
proof (induction cs arbitrary: b)
  case Nil
  obtain h where "ReadFull 4 \<lparr>w_in = be_bytes 4 0 @ rest, w_end = e\<rparr> = Inr (h, \<lparr>w_in = rest, w_end = e\<rparr>)" "be_val h = 0"
    using read_header [of 0 rest e] by auto
  then have "stream_loop maxLen b \<lparr>w_in = encode_stream [] @ rest, w_end = e\<rparr> = (Body b, \<lparr>w_in = rest, w_end = e\<rparr>)"
    by (subst stream_loop.simps) (simp add: encode_stream_def)
  then show ?case
    by simp
next
  case (Cons c cs)
  let ?s = "encode_stream cs @ rest" and ?b = "grow maxLen (int (length (b_data b) + length c)) b"
  have c: "c \<noteq> []" "length c \<le> clamdChunkLimit" "length c < 2 ^ 32"
    using Cons.prems(1,2) by (auto simp: clamdChunkLimit_def)
  have fits: "int (length (b_data b) + length c) \<le> maxLen"
    using Cons.prems(4) by simp
  obtain h where h: "ReadFull 4 \<lparr>w_in = be_bytes 4 (length c) @ c @ ?s, w_end = e\<rparr> = Inr (h, \<lparr>w_in = c @ ?s, w_end = e\<rparr>)" "be_val h = length c"
    using read_header [OF c(3), of "c @ ?s" e] by blast
  have "encode_stream (c # cs) @ rest = be_bytes 4 (length c) @ c @ ?s"
    by (simp add: encode_stream_def)
  then have "stream_loop maxLen b \<lparr>w_in = encode_stream (c # cs) @ rest, w_end = e\<rparr> =
      stream_loop maxLen (?b\<lparr>b_data := b_data b @ c\<rparr>) \<lparr>w_in = ?s, w_end = e\<rparr>"
    using h c fits grow_ok(1) [OF Cons.prems(3) fits] by (subst stream_loop.simps) (simp add: Let_def)
  moreover have "buf_ok maxLen (?b\<lparr>b_data := b_data b @ c\<rparr>)"
    using grow_ok [OF Cons.prems(3) fits] by (simp add: buf_ok_def)
  ultimately show ?case
    using Cons.IH [of "?b\<lparr>b_data := b_data b @ c\<rparr>"] Cons.prems by auto
qed

section \<open>Who keeps the service alive\<close>

definition clamd_inv :: "nat \<Rightarrow> clamd \<Rightarrow> bool" where
  "clamd_inv maxConns c \<longleftrightarrow>
     finite (conns c) \<and> finite (leaving c) \<and> conns c \<inter> leaving c = {} \<and>
     slots_used c = card (conns c) \<and> slots_used c \<le> maxConns \<and>
     wg c = accepting c + card (conns c) + card (leaving c) + workers c \<and> (svc_done c \<longrightarrow> wg c = 0)"


lemma clamd_inv_stop [simp]: "clamd_inv maxConns (stop c) = clamd_inv maxConns c"
  by (simp add: clamd_inv_def stop_def)







section \<open>Properties\<close>

text \<open>(C24) Streams are read back as they were sent: for every division of a body into non-empty chunks
  within the limits, the INSTREAM reader returns the body and leaves the bytes behind the
  end mark untouched.\<close>

theorem clamd_stream_roundtrip:
  assumes "[] \<notin> set cs" and "\<forall>c \<in> set cs. length c \<le> clamdChunkLimit" and "int (length (concat cs)) \<le> maxLen"
  shows "\<exists>b. readClamdStream \<lparr>w_in = encode_stream cs @ rest, w_end = e\<rparr> maxLen = (Body b, \<lparr>w_in = rest, w_end = e\<rparr>) \<and>
    b_data b = concat cs"
proof -
  have "buf_ok maxLen \<lparr>b_data = [], b_cap = 0, b_peak = 0\<rparr>"
    using assms(3) by (simp add: buf_ok_def)
  from stream_loop_reads [OF assms(1,2) this] show ?thesis
    using assms(3) by (simp add: readClamdStream_def)
qed

theorem clamd_stream_roundtrip_witness:
  "\<exists>b. readClamdStream \<lparr>w_in = encode_stream [''ab'', ''c''] @ [], w_end = EOF\<rparr> 3 = (Body b, \<lparr>w_in = [], w_end = EOF\<rparr>) \<and> b_data b = ''abc''"
  using clamd_stream_roundtrip [of "[''ab'', ''c'']" 3 "[]" EOF] by (simp add: clamdChunkLimit_def)

text \<open>(C21) Whatever a client sends, the INSTREAM reader ends without slicing beyond its buffer, and a body it
  returns fits the limit: its buffer was never larger than the limit, and never were more than twice
  the limit held at once, resizing included.\<close>

theorem clamd_stream_memory:
  assumes "0 \<le> maxLen" and "readClamdStream r maxLen = (res, r')"
  shows "res \<noteq> SlicePanic \<and>
    (\<forall>b. res = Body b \<longrightarrow> int (length (b_data b)) \<le> b_cap b \<and> b_cap b \<le> maxLen \<and> b_peak b \<le> 2 * maxLen)"
proof -
  have "buf_ok maxLen \<lparr>b_data = [], b_cap = 0, b_peak = 0\<rparr>"
    using assms(1) by (simp add: buf_ok_def)
  from stream_loop_ok [OF this assms(2) [unfolded readClamdStream_def]] show ?thesis
    by (simp add: buf_ok_def)
qed

theorem clamd_stream_memory_witness:
  "\<exists>b r'. readClamdStream \<lparr>w_in = encode_stream [''ab'', ''c''] @ [], w_end = EOF\<rparr> 3 = (Body b, r') \<and> b_data b = ''abc'' \<and> b_cap b \<le> 3 \<and> b_peak b \<le> 6"
proof -
  have "buf_ok 3 \<lparr>b_data = [], b_cap = 0, b_peak = 0\<rparr>"
    by (simp add: buf_ok_def)
  from stream_loop_reads [OF _ _ this, of "[''ab'', ''c'']" "[]" EOF] obtain b r' where
    "readClamdStream \<lparr>w_in = encode_stream [''ab'', ''c''] @ [], w_end = EOF\<rparr> 3 = (Body b, r')" "b_data b = ''abc''"
    by (auto simp: readClamdStream_def clamdChunkLimit_def)
  moreover from this(1) have "b_cap b \<le> 3" "b_peak b \<le> 6"
    using clamd_stream_memory [of 3 _ "Body b" r'] by auto
  ultimately show ?thesis
    by blast
qed










end
