(* ===== verification/Spec2Isabelle.thy ===== *)
theory Spec2Isabelle
  imports Scan_Pipeline Verdict_Cache Flight_Group Generation_Traces Scan_Dispatch Icap_Wire Clamd_Service
begin
text \<open>Header.\<close>
end
